(* ===== verification/Prelude.thy ===== *)
theory Prelude imports Complex_Main "HOL-Library.AList" "HOL-Library.List_Lexorder" "HOL-Library.Char_ord" begin

section \<open>Prelude: Python values, dictionaries, exceptions\<close>

text \<open>
  What every component theory shares. It holds no code of the repository.

  \<^item> Exceptions are values: \<open>'a result\<close> is a sum with the raised \<open>py_error\<close> on the
    left. \<open>rbind\<close> sequences two computations, \<open>foldM\<close> is a \<open>for\<close> loop whose body may
    raise.
  \<^item> A \<open>dict\<close> is an association list in insertion order, because the code iterates its
    dictionaries: \<open>dset\<close> overwrites in place or appends, as Python does, \<open>dpop\<close>
    removes, \<open>map_of\<close> is \<open>get\<close>.
  \<^item> A \<open>str\<close> is a \<^typ>\<open>string\<close> of UTF-8 bytes. Python compares strings by code point,
    which is the lexicographic order of the UTF-8 bytes, so \<open>List_Lexorder\<close> over
    \<open>Char_ord\<close> is the order the code sorts node ids by.
  \<^item> A \<open>float\<close> is a real number. Rounding is not modelled, except for the summation of
    consensus scores, which theory \<open>Float64\<close> looks at separately.
  \<^item> \<open>pyval\<close> is a value that came out of a msgpack body.
\<close>

named_theorems dict_simps \<open>how dictionary operations act on lookup, keys and distinctness\<close>
named_theorems result_simps \<open>case analysis on results of code that may raise\<close>

subsection \<open>Exceptions\<close>

text \<open>
  \<open>Untyped\<close> is not a Python exception: the model stops there, where Python would go on
  with a value of a type that the source's annotations exclude.
\<close>

datatype py_error =
    KeyError string
  | TypeError
  | ValueError
  | IndexError
  | AttributeError
  | AssertionError
  | ZeroDivisionError
  | OverflowError
  | RuntimeError
  | Untyped

type_synonym 'a result = "py_error + 'a"

definition rbind :: "'a result \<Rightarrow> ('a \<Rightarrow> 'b result) \<Rightarrow> 'b result" where
  "rbind r f = (case r of Inl e \<Rightarrow> Inl e | Inr x \<Rightarrow> f x)"

lemma rbind_simps [simp, result_simps]:
  "rbind (Inl e) f = Inl e"
  "rbind (Inr x) f = f x"
  by (simp_all add: rbind_def)

lemma rbind_eq_Inr [result_simps]:
  "rbind r f = Inr y \<longleftrightarrow> (\<exists>x. r = Inr x \<and> f x = Inr y)"
  by (cases r) auto

fun foldM :: "('a \<Rightarrow> 'b \<Rightarrow> 'b result) \<Rightarrow> 'a list \<Rightarrow> 'b \<Rightarrow> 'b result" where
  "foldM f [] b = Inr b"
| "foldM f (x # xs) b = rbind (f x b) (foldM f xs)"

lemma foldM_pure:
  assumes "\<And>x b. x \<in> set xs \<Longrightarrow> f x b = Inr (g x b)"
  shows "foldM f xs b = Inr (fold g xs b)"
  using assms by (induction xs arbitrary: b) auto

text \<open>A loop whose body either raises one particular exception or succeeds with \<open>P\<close>.\<close>

lemma foldM_dichotomy:
  assumes "\<And>x b. x \<in> set xs \<Longrightarrow> f x b = Inl e \<or> (\<exists>b'. f x b = Inr b') \<and> P x"
  shows "foldM f xs b = Inl e \<or> (\<exists>b'. foldM f xs b = Inr b') \<and> (\<forall>x\<in>set xs. P x)"
  using assms
proof (induction xs arbitrary: b)
  case Nil
  then show ?case by simp
next
  case (Cons x xs)
  show ?case
  proof (cases "f x b")
    case (Inl e')
    then show ?thesis using Cons.prems [of x b] by auto
  next
    case (Inr b')
    then have "P x" using Cons.prems [of x b] by auto
    then show ?thesis using Cons.IH [of b'] Cons.prems Inr by auto
  qed
qed

fun mapM :: "('a \<Rightarrow> 'b result) \<Rightarrow> 'a list \<Rightarrow> 'b list result" where
  "mapM f [] = Inr []"
| "mapM f (x # xs) = rbind (f x) (\<lambda>y. rbind (mapM f xs) (\<lambda>ys. Inr (y # ys)))"

lemma mapM_pure:
  assumes "\<And>x. x \<in> set xs \<Longrightarrow> f x = Inr (g x)"
  shows "mapM f xs = Inr (map g xs)"
  using assms by (induction xs) auto

lemma mapM_Inr_length: "mapM f xs = Inr ys \<Longrightarrow> length ys = length xs"
  by (induction xs arbitrary: ys) (auto simp: rbind_eq_Inr)

lemma mapM_Inr_map:
  "mapM f xs = Inr ys \<Longrightarrow> map f xs = map Inr ys"
  by (induction xs arbitrary: ys) (auto simp: rbind_eq_Inr)

lemma mapM_eq_Inr_iff: "mapM f xs = Inr ys \<longleftrightarrow> list_all2 (\<lambda>x y. f x = Inr y) xs ys"
  by (induction xs arbitrary: ys) (auto simp: rbind_eq_Inr list_all2_Cons1)

subsection \<open>Dictionaries\<close>

type_synonym ('k, 'v) dict = "('k \<times> 'v) list"

abbreviation dset :: "'k \<Rightarrow> 'v \<Rightarrow> ('k, 'v) dict \<Rightarrow> ('k, 'v) dict" where
  "dset k v d \<equiv> AList.update k v d"

abbreviation dpop :: "'k \<Rightarrow> ('k, 'v) dict \<Rightarrow> ('k, 'v) dict" where
  "dpop k d \<equiv> AList.delete k d"

abbreviation keys :: "('k, 'v) dict \<Rightarrow> 'k list" where
  "keys d \<equiv> map fst d"

abbreviation dict_ok :: "('k, 'v) dict \<Rightarrow> bool" where
  "dict_ok d \<equiv> distinct (map fst d)"

definition dget_default :: "('k, 'v) dict \<Rightarrow> 'k \<Rightarrow> 'v \<Rightarrow> 'v" where
  "dget_default d k v = (case map_of d k of None \<Rightarrow> v | Some w \<Rightarrow> w)"

text \<open>A dict comprehension: later pairs overwrite earlier ones with the same key.\<close>

definition dict_of :: "('k \<times> 'v) list \<Rightarrow> ('k, 'v) dict" where
  "dict_of kvs = fold (\<lambda>(k, v) d. dset k v d) kvs []"

lemma lookup_dset [simp, dict_simps]: "map_of (dset k v d) = (map_of d)(k \<mapsto> v)"
  by (rule update_conv')

lemma lookup_dpop [simp, dict_simps]: "map_of (dpop k d) = (map_of d)(k := None)"
  by (rule delete_conv')

lemma dict_ok_dset [simp, dict_simps]: "dict_ok d \<Longrightarrow> dict_ok (dset k v d)"
  by (rule distinct_update)

lemma dict_ok_dpop [simp, dict_simps]: "dict_ok d \<Longrightarrow> dict_ok (dpop k d)"
  by (rule distinct_delete)

lemma set_keys_dset [simp, dict_simps]: "fst ` set (dset k v d) = insert k (fst ` set d)"
  by (simp add: dom_update)

lemma dset_new: "k \<notin> set (keys d) \<Longrightarrow> dset k v d = d @ [(k, v)]"
  by (induction d) auto

lemma lookup_in_set: "dict_ok d \<Longrightarrow> map_of d k = Some v \<longleftrightarrow> (k, v) \<in> set d"
  by (simp add: map_of_eq_Some_iff)

lemma dict_of_fold_ok:
  "dict_ok d \<Longrightarrow> dict_ok (fold (\<lambda>(k, v) d. dset k v d) kvs d)"
  by (induction kvs arbitrary: d) auto

lemma dict_ok_dict_of [simp, dict_simps]: "dict_ok (dict_of kvs)"
  by (simp add: dict_of_def dict_of_fold_ok)

lemma lookup_dict_of_fold:
  "map_of (fold (\<lambda>(k, v) d. dset k v d) kvs d) = map_of d ++ map_of (rev kvs)"
  by (induction kvs arbitrary: d) (auto simp: map_add_def fun_eq_iff split: option.splits)

lemma lookup_dict_of [dict_simps]: "map_of (dict_of kvs) = map_of (rev kvs)"
  by (simp add: dict_of_def lookup_dict_of_fold)

lemma dict_of_fold_distinct:
  "distinct (keys d @ keys kvs) \<Longrightarrow> fold (\<lambda>(k, v) d. dset k v d) kvs d = d @ kvs"
proof (induction kvs arbitrary: d)
  case Nil
  then show ?case by simp
next
  case (Cons kv kvs)
  obtain k v where kv: "kv = (k, v)" by (cases kv)
  with Cons.prems have "dset k v d = d @ [(k, v)]" by (intro dset_new) auto
  with Cons.prems kv show ?case using Cons.IH [of "d @ [(k, v)]"] by auto
qed

lemma dict_of_id: "dict_ok d \<Longrightarrow> dict_of d = d"
  by (simp add: dict_of_def dict_of_fold_distinct)

lemma lookup_fold_dset:
  "dict_ok d \<Longrightarrow> map_of (fold (\<lambda>(k, v) acc. dset k (f k v) acc) d acc) k =
     (case map_of d k of None \<Rightarrow> map_of acc k | Some v \<Rightarrow> Some (f k v))"
proof (induction d arbitrary: acc)
  case Nil
  then show ?case by simp
next
  case (Cons kv d)
  obtain k' v' where kv: "kv = (k', v')" by (cases kv)
  have "k = k' \<Longrightarrow> map_of d k = None" using Cons.prems kv by (simp add: map_of_eq_None_iff)
  then show ?case
    using Cons.IH [of "dset k' (f k' v') acc"] Cons.prems kv
    by (cases "k = k'") (simp_all split: option.splits)
qed

lemma dict_ok_fold_dset:
  "dict_ok acc \<Longrightarrow> dict_ok (fold (\<lambda>(k, v) acc. dset k (f k v) acc) d acc)"
  by (induction d arbitrary: acc) auto

subsection \<open>Sorted sets of strings\<close>

text \<open>\<open>sorted(s)\<close> for a Python set \<open>s\<close> that was filled with the elements of \<open>xs\<close>.\<close>

definition sorted_set :: "'a::linorder list \<Rightarrow> 'a list" where
  "sorted_set xs = sort (remdups xs)"

lemma sorted_set_props [simp]:
  "set (sorted_set xs) = set xs"
  "sorted (sorted_set xs)"
  "distinct (sorted_set xs)"
  by (simp_all add: sorted_set_def)

lemma sorted_set_eq_iff: "sorted_set xs = sorted_set ys \<longleftrightarrow> set xs = set ys"
  by (metis sorted_set_props sorted_distinct_set_unique)

lemma hd_sorted_set: "xs \<noteq> [] \<Longrightarrow> hd (sorted_set xs) = Min (set xs)"
proof -
  assume "xs \<noteq> []"
  then have ne: "sorted_set xs \<noteq> []" by (metis set_empty sorted_set_props(1))
  have "hd (sorted_set xs) \<in> set xs" using hd_in_set [OF ne] by simp
  moreover have "\<forall>x\<in>set xs. hd (sorted_set xs) \<le> x"
  proof
    fix x assume "x \<in> set xs"
    then have "x \<in> set (sorted_set xs)" by simp
    then show "hd (sorted_set xs) \<le> x"
      using sorted_set_props(2) [of xs] by (cases "sorted_set xs") auto
  qed
  ultimately show ?thesis by (intro Min_eqI [symmetric]) auto
qed

subsection \<open>Values decoded from msgpack bodies\<close>

datatype pyval =
    PNone
  | PBool bool
  | PInt int
  | PFloat real
  | PStr string
  | PList "pyval list"
  | PDict "(string \<times> pyval) list"

text \<open>Lists and dictionaries cannot be dictionary keys.\<close>

fun hashable :: "pyval \<Rightarrow> bool" where
  "hashable (PList _) = False"
| "hashable (PDict _) = False"
| "hashable _ = True"

text \<open>\<open>d[k]\<close> and \<open>d.get(k)\<close> on a payload dictionary.\<close>

definition pay_item :: "(string, pyval) dict \<Rightarrow> string \<Rightarrow> pyval result" where
  "pay_item d k = (case map_of d k of None \<Rightarrow> Inl (KeyError k) | Some v \<Rightarrow> Inr v)"

definition pay_get :: "(string, pyval) dict \<Rightarrow> string \<Rightarrow> pyval" where
  "pay_get d k = (case map_of d k of None \<Rightarrow> PNone | Some v \<Rightarrow> v)"

fun as_str :: "pyval \<Rightarrow> string result" where
  "as_str (PStr s) = Inr s"
| "as_str _ = Inl Untyped"

fun as_int :: "pyval \<Rightarrow> int result" where
  "as_int (PInt i) = Inr i"
| "as_int _ = Inl Untyped"

fun as_float :: "pyval \<Rightarrow> real result" where
  "as_float (PFloat x) = Inr x"
| "as_float (PInt i) = Inr (real_of_int i)"
| "as_float _ = Inl Untyped"

text \<open>Iterating a value: lists give their elements, dictionaries their keys, strings their
  characters; anything else is not iterable.\<close>

fun iterate :: "pyval \<Rightarrow> pyval list result" where
  "iterate (PList vs) = Inr vs"
| "iterate (PDict d) = Inr (map (\<lambda>(k, _). PStr k) d)"
| "iterate (PStr s) = Inr (map (\<lambda>c. PStr [c]) s)"
| "iterate _ = Inl TypeError"

lemma as_str_eq_Inr [result_simps]: "as_str v = Inr s \<longleftrightarrow> v = PStr s"
  by (cases v) auto

lemma as_int_eq_Inr [result_simps]: "as_int v = Inr i \<longleftrightarrow> v = PInt i"
  by (cases v) auto

lemma pay_item_Inr [result_simps]: "pay_item d k = Inr v \<longleftrightarrow> map_of d k = Some v"
  by (simp add: pay_item_def split: option.splits)

lemma mapM_as_str [simp]: "mapM as_str (map PStr ss) = Inr ss"
  by (induction ss) auto

lemma mapM_as_int [simp]: "mapM as_int (map PInt is) = Inr is"
  by (induction "is") auto

lemma mapM_as_float [simp]: "mapM as_float (map PFloat fs) = Inr fs"
  by (induction fs) auto

subsection \<open>Machines that run over a list of events\<close>

text \<open>
  The contract of a component that handles one event at a time: \<open>step\<close> keeps the
  invariant \<open>inv\<close>. The client's lemma is that a whole run keeps it. The second locale adds
  an observation that no step changes while \<open>stable\<close> holds of the state and the event.
\<close>

definition run_events :: "('s \<Rightarrow> 'e \<Rightarrow> 's) \<Rightarrow> 's \<Rightarrow> 'e list \<Rightarrow> 's" where
  "run_events step s es = fold (\<lambda>e s. step s e) es s"

lemma run_events_simps [simp]:
  "run_events step s [] = s"
  "run_events step s (e # es) = run_events step (step s e) es"
  by (simp_all add: run_events_def)

lemma run_events_append:
  "run_events step s (es @ fs) = run_events step (run_events step s es) fs"
  by (simp add: run_events_def)

locale event_machine =
  fixes step :: "'s \<Rightarrow> 'e \<Rightarrow> 's"
    and inv :: "'s \<Rightarrow> bool"
  assumes step_inv: "inv s \<Longrightarrow> inv (step s e)"
begin

lemma run_inv: "inv s \<Longrightarrow> inv (run_events step s es)"
  by (induction es arbitrary: s) (auto intro: step_inv)

end

locale progress_machine = event_machine step inv
  for step :: "'s \<Rightarrow> 'e \<Rightarrow> 's" and inv :: "'s \<Rightarrow> bool" +
  fixes before :: "'s \<Rightarrow> 's \<Rightarrow> bool"
  assumes before_refl: "before s s"
    and before_trans: "before s t \<Longrightarrow> before t u \<Longrightarrow> before s u"
    and step_before: "inv s \<Longrightarrow> before s (step s e)"
begin

lemma run_before: "inv s \<Longrightarrow> before s (run_events step s es)"
proof (induction es arbitrary: s)
  case Nil
  then show ?case by (simp add: before_refl)
next
  case (Cons e es)
  then show ?case
    using before_trans [OF step_before] step_inv by (metis run_events_simps(2))
qed

end

end
