(* ===== verification/Doubles.thy ===== *)
theory Doubles imports Prelude begin

section \<open>Double precision\<close>

text \<open>
  Python's \<open>float\<close> is an IEEE 754 double. A finite double is an integer multiple of \<open>2 ^ -1074\<close>, and
  \<open>F64 k\<close> stands for \<open>k * 2 ^ -1074\<close>. An operation gives the exact result rounded to 53 significant
  bits, ties to even (\<open>round_units\<close>, in these units). The program rounds in two places that decide
  something: where \<open>resolve_disputes\<close> adds probabilities (\<open>+\<close> on \<open>f64\<close>; the sums are at most the number
  of participants, far from overflow), and where \<open>local_step\<close> multiplies a configured fraction with a
  count (\<open>float_mul\<close>).
\<close>

datatype f64 = F64 (f64_units: int)

fun bit_len :: "nat \<Rightarrow> nat" where
  "bit_len n = (if n = 0 then 0 else Suc (bit_len (n div 2)))"

declare bit_len.simps [simp del]

definition round53 :: "nat \<Rightarrow> nat" where
  "round53 n =
     (let s = bit_len n - 53;
          q = n div 2 ^ s;
          r = n mod 2 ^ s;
          up = 2 * r > 2 ^ s \<or> (2 * r = 2 ^ s \<and> odd q)
      in (if s \<noteq> 0 \<and> up then Suc q else q) * 2 ^ s)"

definition round_units :: "int \<Rightarrow> int" where
  "round_units k = sgn k * int (round53 (nat \<bar>k\<bar>))"

instantiation f64 :: "{zero, plus, linorder}"
begin

definition zero_f64 :: f64 where
  "0 = F64 0"

definition plus_f64 :: "f64 \<Rightarrow> f64 \<Rightarrow> f64" where
  "a + b = F64 (round_units (f64_units a + f64_units b))"

definition less_eq_f64 :: "f64 \<Rightarrow> f64 \<Rightarrow> bool" where
  "a \<le> b \<longleftrightarrow> f64_units a \<le> f64_units b"

definition less_f64 :: "f64 \<Rightarrow> f64 \<Rightarrow> bool" where
  "a < b \<longleftrightarrow> f64_units a < f64_units b"

instance
  by standard (auto simp: less_eq_f64_def less_f64_def f64.expand)

end

lemma bit_len_less: "n < 2 ^ bit_len n"
proof (induction n rule: bit_len.induct)
  case (1 n)
  show ?case
  proof (cases "n = 0")
    case False
    with 1 have "n div 2 < 2 ^ bit_len (n div 2)" by simp
    then have "n < 2 * 2 ^ bit_len (n div 2)" by simp
    with False show ?thesis by (simp add: bit_len.simps [of n])
  qed simp
qed

lemma bit_len_eq: "2 ^ m \<le> n \<Longrightarrow> n < 2 ^ Suc m \<Longrightarrow> bit_len n = Suc m"
proof (induction m arbitrary: n)
  case 0
  then have "n = 1" by simp
  then show ?case by (simp add: bit_len.simps)
next
  case (Suc m)
  then have "bit_len (n div 2) = Suc m" by simp
  with Suc.prems show ?case by (subst bit_len.simps) auto
qed


lemma bit_len_shift: "0 < n \<Longrightarrow> bit_len (n * 2 ^ k) = bit_len n + k"
proof (induction k)
  case (Suc k)
  have "n * 2 ^ Suc k div 2 = n * 2 ^ k" by simp
  with Suc show ?case by (subst bit_len.simps) auto
qed simp

text \<open>Rounding commutes with scaling by a power of two, for numbers of at least 53 bits.\<close>

lemma round53_shift:
  assumes "bit_len n = 53 + s"
  shows "round53 (n * 2 ^ k) = round53 n * 2 ^ k"
proof -
  have pos: "0 < n" using assms by (cases "n = 0") (simp_all add: bit_len.simps)
  define q where "q = n div 2 ^ s"
  define r where "r = n mod 2 ^ s"
  have div: "n * 2 ^ k div 2 ^ (s + k) = q"
    by (simp add: q_def power_add)
  have mod: "n * 2 ^ k mod 2 ^ (s + k) = r * 2 ^ k"
    by (simp add: r_def power_add mult_mod_left)
  have lt: "2 ^ (s + k) < 2 * (r * 2 ^ k) \<longleftrightarrow> 2 ^ s < 2 * r"
    using mult_less_cancel2 [of "2 ^ s" "2 ^ k :: nat" "2 * r"] by (simp add: power_add mult.assoc)
  have eq: "2 * (r * 2 ^ k) = 2 ^ (s + k) \<longleftrightarrow> 2 * r = 2 ^ s"
    using mult_cancel2 [of "2 * r" "2 ^ k :: nat" "2 ^ s"] by (simp add: power_add mult.assoc)
  have "s = 0 \<Longrightarrow> r = 0 \<and> q = n" by (simp add: r_def q_def)
  then show ?thesis
    using assms bit_len_shift [OF pos, of k] div mod lt eq
    by (auto simp: round53_def Let_def q_def [symmetric] r_def [symmetric] power_add)
qed

text \<open>Adding two positive doubles given in units of \<open>2 ^ (k - 1074)\<close>.\<close>

lemma f64_add:
  assumes "bit_len (a + b) = 53 + s" and "round53 (a + b) = c"
  shows "F64 (int a * 2 ^ k) + F64 (int b * 2 ^ k) = F64 (int c * 2 ^ k)"
proof -
  have abs: "nat \<bar>int a * 2 ^ k + int b * 2 ^ k\<bar> = (a + b) * 2 ^ k"
    by (simp add: nat_eq_iff distrib_right)
  have "0 < a + b" using assms(1) by (cases "a + b = 0") (simp_all add: bit_len.simps)
  then have sgn: "sgn (int a * 2 ^ k + int b * 2 ^ k) = 1"
    by (auto simp: sgn_if distrib_right [symmetric])
  show ?thesis
    unfolding plus_f64_def round_units_def f64.sel abs sgn round53_shift [OF assms(1)] assms(2) by simp
qed


text \<open>Addition of concrete doubles, evaluated by the kernel.\<close>

lemma round53_54_55:
  "bit_len n = 53 \<Longrightarrow> round53 n = n"
  "bit_len n = 54 \<Longrightarrow> even n \<Longrightarrow> round53 n = n"
  "bit_len n = 55 \<Longrightarrow> round53 n =
     (if 2 < n mod 4 \<or> n mod 4 = 2 \<and> odd (n div 4) then Suc (n div 4) else n div 4) * 4"
  by (auto simp: round53_def Let_def)

subsection \<open>Numbers that are doubles\<close>

text \<open>A number of at most 53 significant bits is not rounded, and rounding twice is rounding once.\<close>

lemma bit_len_le: "n < 2 ^ m \<Longrightarrow> bit_len n \<le> m"
proof (induction m arbitrary: n)
  case (Suc m)
  then have "bit_len (n div 2) \<le> m" by simp
  then show ?case by (subst bit_len.simps) simp
qed (simp add: bit_len.simps)

lemma round53_exact:
  assumes "m < 2 ^ 53"
  shows "round53 (m * 2 ^ k) = m * 2 ^ k"
proof (cases "m = 0")
  case False
  define s where "s = bit_len (m * 2 ^ k) - 53"
  have "bit_len (m * 2 ^ k) = bit_len m + k" using False by (intro bit_len_shift) simp
  then have "s \<le> k" using bit_len_le [OF assms] by (simp add: s_def)
  then have "(2 :: nat) ^ s dvd m * 2 ^ k" by (simp add: le_imp_power_dvd)
  then show ?thesis by (simp add: round53_def Let_def s_def [symmetric] dvd_eq_mod_eq_0)
qed (simp add: round53_def)

lemma round53_form: "\<exists>m k. m < 2 ^ 53 \<and> round53 n = m * 2 ^ k"
proof -
  define s where "s = bit_len n - 53"
  define q where "q = n div 2 ^ s"
  have "n < 2 ^ bit_len n" by (rule bit_len_less)
  also have "(2 :: nat) ^ bit_len n \<le> 2 ^ (53 + s)" by (rule power_increasing) (simp_all add: s_def)
  finally have "n < 2 ^ 53 * 2 ^ s" by (simp add: power_add)
  then have q: "q < 2 ^ 53" by (simp add: q_def less_mult_imp_div_less)
  have "round53 n = q * 2 ^ s \<or> round53 n = Suc q * 2 ^ s"
    by (simp add: round53_def Let_def s_def [symmetric] q_def)
  then show ?thesis
  proof
    assume "round53 n = Suc q * 2 ^ s"
    then show ?thesis
    proof (cases "Suc q = 2 ^ 53")
      case True
      then have "round53 n = 1 * 2 ^ (53 + s)" using \<open>round53 n = Suc q * 2 ^ s\<close> by (simp only: power_add mult_1)
      then show ?thesis by (intro exI [of _ 1] exI [of _ "53 + s"]) simp
    qed (use q in \<open>intro exI [of _ "Suc q"] exI [of _ s], simp\<close>)
  qed (use q in blast)
qed

lemma round53_idem [simp]: "round53 (round53 n) = round53 n"
  using round53_form [of n] by (elim exE conjE) (simp add: round53_exact)

lemma round_units_exact:
  assumes "\<bar>m\<bar> < 2 ^ 53"
  shows "round_units (m * 2 ^ k) = m * 2 ^ k"
proof -
  have "nat \<bar>m\<bar> < 2 ^ 53" using assms by (simp add: nat_less_iff)
  from round53_exact [OF this, of k] have "round53 (nat \<bar>m * 2 ^ k\<bar>) = nat \<bar>m * 2 ^ k\<bar>"
    by (simp add: abs_mult nat_mult_distrib nat_power_eq)
  then show ?thesis by (simp add: round_units_def sgn_mult_abs)
qed

lemma round_units_idem [simp]: "round_units (round_units k) = round_units k"
  by (cases "round53 (nat \<bar>k\<bar>) = 0") (simp_all add: round_units_def sgn_mult abs_mult sgn_if)

definition is_double :: "f64 \<Rightarrow> bool" where
  "is_double x \<longleftrightarrow> round_units (f64_units x) = f64_units x"

lemma is_double_plus [simp]: "is_double (a + b)"
  by (simp add: is_double_def plus_f64_def)

lemma is_double_0 [simp]: "is_double 0"
  by (simp add: is_double_def zero_f64_def round_units_def)

lemma f64_plus_commute: "a + b = b + (a :: f64)"
  by (simp add: plus_f64_def add.commute)

lemma f64_0_plus: "is_double x \<Longrightarrow> 0 + x = x"
  by (cases x) (simp add: is_double_def plus_f64_def zero_f64_def)

lemma f64_add_exact:
  "\<bar>a + b\<bar> < 2 ^ 53 \<Longrightarrow> F64 (a * 2 ^ k) + F64 (b * 2 ^ k) = F64 ((a + b) * 2 ^ k)"
  by (simp add: plus_f64_def distrib_right [symmetric] round_units_exact)

subsection \<open>A double times an integer\<close>

text \<open>\<open>r * n\<close> for a \<open>float\<close> and a (small) \<open>int\<close>: the exact product, rounded.\<close>

definition float_mul :: "real \<Rightarrow> int \<Rightarrow> real" where
  "float_mul r n = of_int (round_units (\<lfloor>r * 2 ^ 1074\<rfloor> * n)) / 2 ^ 1074"

lemma float_mul_units:
  assumes "j \<le> 1074"
  shows "float_mul (of_int m / 2 ^ j) n = of_int (round_units (m * n * 2 ^ (1074 - j))) / (2 ^ (1074 - j) * 2 ^ j)"
proof -
  have split: "(2 :: real) ^ 1074 = 2 ^ (1074 - j) * 2 ^ j"
    unfolding power_add [symmetric] using assms by simp
  then have "of_int m / 2 ^ j * (2 :: real) ^ 1074 = of_int (m * 2 ^ (1074 - j))" unfolding split by simp
  then have "\<lfloor>of_int m / 2 ^ j * (2 :: real) ^ 1074\<rfloor> = m * 2 ^ (1074 - j)" by (metis floor_of_int)
  moreover have "m * 2 ^ (1074 - j) * n = m * n * 2 ^ (1074 - j)" by simp
  ultimately have "float_mul (of_int m / 2 ^ j) n = of_int (round_units (m * n * 2 ^ (1074 - j))) / 2 ^ 1074"
    unfolding float_mul_def by (simp only:)
  then show ?thesis by (simp only: split)
qed

lemma float_mul_exact:
  "\<bar>m * n\<bar> < 2 ^ 53 \<Longrightarrow> j \<le> 1074 \<Longrightarrow> float_mul (of_int m / 2 ^ j) n = of_int (m * n) / 2 ^ j"
  by (simp add: float_mul_units round_units_exact)

lemma float_mul_rounded:
  assumes "m * n = int a" and "bit_len a = 53 + s" and "round53 a = c" and "j \<le> 1074"
  shows "float_mul (of_int m / 2 ^ j) n = real c / 2 ^ j"
proof -
  have "0 < a" using assms(2) by (cases "a = 0") (simp_all add: bit_len.simps)
  then have "round_units (m * n * 2 ^ (1074 - j)) = int c * 2 ^ (1074 - j)"
    using round53_shift [OF assms(2), of "1074 - j"]
    by (simp add: assms(1,3) round_units_def abs_mult sgn_mult nat_mult_distrib nat_power_eq)
  then show ?thesis by (simp add: float_mul_units [OF assms(4)])
qed

lemma float_mul_0 [simp]: "float_mul 0 n = 0"
  using float_mul_exact [of 0 n 0] by simp

lemma float_mul_half: "\<bar>n\<bar> < 2 ^ 53 \<Longrightarrow> float_mul (1 / 2) n = of_int n / 2"
  using float_mul_exact [of 1 n 1] by simp

text \<open>\<open>0.7\<close> is a double just below 7/10; ten times it is 7 all the same, and not the 6 an exact product
  would be cut to.\<close>

lemma float_mul_seven_tenths: "float_mul (6305039478318694 / 2 ^ 53) 10 = 7"
proof -
  have len: "bit_len 63050394783186940 = 56" using bit_len_eq [of 55 63050394783186940] by simp
  then have "round53 63050394783186940 = 63050394783186944" by (simp add: round53_def Let_def)
  with float_mul_rounded [of 6305039478318694 10 63050394783186940 3 63050394783186944 53] len show ?thesis by simp
qed

end
