(* ===== verification/Config.thy ===== *)
theory Config imports Prelude begin

section \<open>Configuration constants\<close>

text \<open>
  \<open>common/config.py\<close>: the relay lists and the timing constants, in seconds.
\<close>

type_synonym relay = "string \<times> int \<times> int"

definition RELAYS :: "relay list" where
  "RELAYS = []"

definition LOCAL_RELAYS :: "relay list" where
  "LOCAL_RELAYS = [(''127.0.0.1'', 5555, 5556)]"

definition HEARTBEAT_INTERVAL :: real where
  "HEARTBEAT_INTERVAL = 2"

definition PEER_TIMEOUT :: real where
  "PEER_TIMEOUT = 6"

definition ROUND_LEADER_TIMEOUT :: real where
  "ROUND_LEADER_TIMEOUT = 8"

definition SYNC_BARRIER_TIMEOUT :: real where
  "SYNC_BARRIER_TIMEOUT = 45"

end
