(* ===== verification/PyInt.thy ===== *)
theory PyInt imports Prelude begin

section \<open>Decimal strings: \<open>str(i)\<close> and \<open>int(s)\<close>\<close>

text \<open>
  The generation layer stringifies dictionary keys for msgpack (\<open>str(pos)\<close>) and parses them
  back (\<open>int(pos)\<close>). \<open>int\<close> strips surrounding white space, takes one sign, and accepts single
  underscores between digits. A string with bytes outside ASCII is left out (Python accepts
  other scripts' digits), and so is the interpreter's limit on thousands of digits.
\<close>

definition digit :: "nat \<Rightarrow> char" where
  "digit d = char_of (48 + d)"

fun str_nat :: "nat \<Rightarrow> string" where
  "str_nat n = (if n < 10 then [digit n] else str_nat (n div 10) @ [digit (n mod 10)])"

declare str_nat.simps [simp del]

definition str_int :: "int \<Rightarrow> string" where
  "str_int i = (if i < 0 then CHR ''-'' # str_nat (nat (- i)) else str_nat (nat i))"

definition char_code :: "char \<Rightarrow> nat" where
  "char_code c = of_char c"

definition is_digit :: "char \<Rightarrow> bool" where
  "is_digit c \<longleftrightarrow> 48 \<le> char_code c \<and> char_code c \<le> 57"

definition is_space :: "char \<Rightarrow> bool" where
  "is_space c \<longleftrightarrow> 9 \<le> char_code c \<and> char_code c \<le> 13 \<or> 28 \<le> char_code c \<and> char_code c \<le> 32"

definition strip :: "string \<Rightarrow> string" where
  "strip s = rev (dropWhile is_space (rev (dropWhile is_space s)))"

text \<open>\<open>prev\<close> says that the last character read was a digit.\<close>

fun parse_digits :: "string \<Rightarrow> nat \<Rightarrow> bool \<Rightarrow> nat option" where
  "parse_digits [] acc prev = (if prev then Some acc else None)"
| "parse_digits (c # cs) acc prev =
     (if is_digit c then parse_digits cs (10 * acc + (char_code c - 48)) True
      else if c = CHR ''_'' \<and> prev then parse_digits cs acc False
      else None)"

definition parse_nat :: "string \<Rightarrow> int result" where
  "parse_nat s = (case parse_digits s 0 False of None \<Rightarrow> Inl ValueError | Some n \<Rightarrow> Inr (int n))"

definition int_str :: "string \<Rightarrow> int result" where
  "int_str s =
     (if \<exists>c\<in>set s. 128 \<le> char_code c then Inl Untyped
      else (case strip s of
              [] \<Rightarrow> Inl ValueError
            | c # cs \<Rightarrow>
                if c = CHR ''-'' then rbind (parse_nat cs) (\<lambda>n. Inr (- n))
                else if c = CHR ''+'' then parse_nat cs
                else parse_nat (c # cs)))"

subsection \<open>Round trip\<close>

lemma char_code_digit: "d < 10 \<Longrightarrow> char_code (digit d) = 48 + d"
  by (simp add: char_code_def digit_def of_char_of)

lemma is_digit_digit: "d < 10 \<Longrightarrow> is_digit (digit d)"
  by (simp add: is_digit_def char_code_digit)

lemma parse_digits_append_digit:
  "parse_digits s acc prev = Some n \<Longrightarrow> d < 10 \<Longrightarrow>
   parse_digits (s @ [digit d]) acc prev = Some (10 * n + d)"
  by (induction s arbitrary: acc prev)
     (auto simp: is_digit_digit char_code_digit split: if_splits)

lemma parse_str_nat: "parse_digits (str_nat n) 0 False = Some n"
proof (induction n rule: str_nat.induct)
  case (1 n)
  show ?case
  proof (cases "n < 10")
    case True
    then show ?thesis
      by (simp add: str_nat.simps is_digit_digit char_code_digit)
  next
    case False
    have "n mod 10 < 10" by simp
    with parse_digits_append_digit [of "str_nat (n div 10)" 0 False] False "1.IH"
    have "parse_digits (str_nat (n div 10) @ [digit (n mod 10)]) 0 False = Some n"
      by simp
    with False show ?thesis by (subst str_nat.simps) simp
  qed
qed

lemma str_nat_digits: "c \<in> set (str_nat n) \<Longrightarrow> is_digit c"
proof (induction n rule: str_nat.induct)
  case (1 n)
  then show ?case
    by (subst (asm) str_nat.simps) (auto simp: is_digit_digit split: if_splits)
qed

lemma str_nat_nonempty: "str_nat n \<noteq> []"
  by (subst str_nat.simps) simp

lemma dropWhile_none: "\<forall>c\<in>set s. \<not> P c \<Longrightarrow> dropWhile P s = s"
  by (cases s) auto

lemma strip_no_space: "\<forall>c\<in>set s. \<not> is_space c \<Longrightarrow> strip s = s"
  by (simp add: strip_def dropWhile_none)

lemma digit_props: "is_digit c \<Longrightarrow> \<not> is_space c \<and> char_code c < 128 \<and> c \<noteq> CHR ''-'' \<and> c \<noteq> CHR ''+''"
  by (auto simp: is_digit_def is_space_def char_code_def)

lemma minus_props: "\<not> is_space (CHR ''-'') \<and> char_code (CHR ''-'') < 128"
  by (simp add: is_space_def char_code_def)

lemma int_str_nat:
  "int_str (str_nat n) = Inr (int n)"
proof -
  have small: "\<not> (\<exists>c\<in>set (str_nat n). 128 \<le> char_code c)"
    using str_nat_digits digit_props by (meson not_le)
  have "strip (str_nat n) = str_nat n"
    using str_nat_digits digit_props by (intro strip_no_space) blast
  moreover obtain c cs where ccs: "str_nat n = c # cs"
    using str_nat_nonempty by (cases "str_nat n") auto
  moreover have "is_digit c" using str_nat_digits [of c n] ccs by simp
  ultimately show ?thesis
    using small parse_str_nat [of n] digit_props [of c]
    by (simp add: int_str_def parse_nat_def)
qed

lemma int_str_str_int [simp]: "int_str (str_int i) = Inr i"
proof (cases "i < 0")
  case False
  then show ?thesis by (simp add: str_int_def int_str_nat)
next
  case True
  let ?s = "str_nat (nat (- i))"
  have small: "\<not> (\<exists>c\<in>set (CHR ''-'' # ?s). 128 \<le> char_code c)"
    using str_nat_digits digit_props minus_props by (metis not_le set_ConsD)
  have "strip (CHR ''-'' # ?s) = CHR ''-'' # ?s"
    using str_nat_digits digit_props minus_props
    by (intro strip_no_space) (metis set_ConsD)
  with True small parse_str_nat [of "nat (- i)"] show ?thesis
    by (simp add: int_str_def str_int_def parse_nat_def)
qed

lemma inj_str_int: "inj str_int"
  by (metis Inr_inject injI int_str_str_int)

end
