(* ===== verification/Peers.thy ===== *)
theory Peers imports Prelude Config begin

section \<open>Peer liveness and leader election\<close>

text \<open>
  \<open>node/peers.py\<close>: the class \<open>PeerTable\<close>. Its fields are the record, each method is one
  definition. A method with the parameter \<open>now: float | None = None\<close> takes the option and the
  reading \<open>clock\<close> that \<open>time.time()\<close> would give; methods that mutate return the new table.
  The locale \<open>alive_view\<close> is what an election needs of a view of the alive nodes; \<open>PeerTable\<close>
  provides it.
\<close>

record peer_table =
  pt_self_id :: string
  pt_timeout :: real
  last_seen :: "(string, real) dict"
  prev_leader :: "string option"

definition PeerTable :: "string \<Rightarrow> real \<Rightarrow> peer_table" where
  "PeerTable self_id timeout =
     \<lparr>pt_self_id = self_id, pt_timeout = timeout, last_seen = [], prev_leader = None\<rparr>"

text \<open>\<open>x if x is not None else time.time()\<close>\<close>

abbreviation or_clock :: "real option \<Rightarrow> real \<Rightarrow> real" where
  "or_clock t clock \<equiv> case_option clock (\<lambda>x. x) t"

definition mark_alive :: "peer_table \<Rightarrow> string \<Rightarrow> real option \<Rightarrow> real \<Rightarrow> peer_table" where
  "mark_alive pt node_id ts clock =
     pt\<lparr>last_seen := dset node_id (or_clock ts clock) (last_seen pt)\<rparr>"

definition mark_gone :: "peer_table \<Rightarrow> string \<Rightarrow> peer_table" where
  "mark_gone pt node_id = pt\<lparr>last_seen := dpop node_id (last_seen pt)\<rparr>"

definition alive_peers :: "peer_table \<Rightarrow> real option \<Rightarrow> real \<Rightarrow> string list" where
  "alive_peers pt now clock =
     (let now = or_clock now clock;
          alive = [node_id. (node_id, seen) \<leftarrow> last_seen pt, now - seen \<le> pt_timeout pt]
      in sorted_set (pt_self_id pt # alive))"

definition leader :: "peer_table \<Rightarrow> real option \<Rightarrow> real \<Rightarrow> string option" where
  "leader pt now clock = (case alive_peers pt now clock of [] \<Rightarrow> None | a # _ \<Rightarrow> Some a)"

definition is_leader :: "peer_table \<Rightarrow> real option \<Rightarrow> real \<Rightarrow> bool" where
  "is_leader pt now clock \<longleftrightarrow> leader pt now clock = Some (pt_self_id pt)"

definition leader_changed ::
  "peer_table \<Rightarrow> real option \<Rightarrow> real \<Rightarrow> string option \<times> peer_table" where
  "leader_changed pt now clock =
     (let current = leader pt now clock
      in if current \<noteq> prev_leader pt then (current, pt\<lparr>prev_leader := current\<rparr>)
         else (None, pt))"

subsection \<open>The interface of an election\<close>

text \<open>
  A view names the nodes it takes for alive, in increasing order and with itself among them; the
  first of them is the leader.
\<close>

locale alive_view =
  fixes view :: "'s \<Rightarrow> string list"
    and self :: "'s \<Rightarrow> string"
  assumes view_sorted: "sorted (view s)"
    and self_in_view: "self s \<in> set (view s)"
begin

lemma view_nonempty: "view s \<noteq> []"
  using self_in_view [of s] by auto

lemma first_is_min: "hd (view s) = Min (set (view s))"
  using view_sorted [of s] view_nonempty [of s]
  by (cases "view s") (auto intro!: Min_eqI [symmetric])

lemma first_le: "n \<in> set (view s) \<Longrightarrow> hd (view s) \<le> n"
  by (simp add: first_is_min)

lemma no_two_leaders:
  assumes "self t \<in> set (view s)" and "self s \<in> set (view t)"
    and "hd (view s) = self s" and "hd (view t) = self t"
  shows "self s = self t"
proof (rule antisym)
  show "self s \<le> self t" using first_le [OF assms(1)] assms(3) by simp
  show "self t \<le> self s" using first_le [OF assms(2)] assms(4) by simp
qed

lemma same_view_same_first:
  "set (view s) = set (view t) \<Longrightarrow> hd (view s) = hd (view t)"
  by (simp add: first_is_min)

end

subsection \<open>The alive set of a peer table\<close>

lemma set_alive_peers:
  "set (alive_peers pt now clock) =
     insert (pt_self_id pt)
       {n. \<exists>seen. (n, seen) \<in> set (last_seen pt) \<and> or_clock now clock - seen \<le> pt_timeout pt}"
  by (force simp: alive_peers_def Let_def)

lemma sorted_alive_peers: "sorted (alive_peers pt now clock)"
  and distinct_alive_peers: "distinct (alive_peers pt now clock)"
  by (simp_all add: alive_peers_def Let_def)

interpretation pv: alive_view "\<lambda>(pt, now, clock). alive_peers pt now clock"
    "\<lambda>(pt, now, clock). pt_self_id pt"
  by unfold_locales (auto simp: sorted_alive_peers set_alive_peers)

lemma leader_hd: "leader pt now clock = Some (hd (alive_peers pt now clock))"
  using pv.view_nonempty [of "(pt, now, clock)"]
  by (cases "alive_peers pt now clock") (auto simp: leader_def)

lemma mark_alive_fields [simp]:
  "pt_self_id (mark_alive pt n ts clock) = pt_self_id pt"
  "pt_timeout (mark_alive pt n ts clock) = pt_timeout pt"
  "prev_leader (mark_alive pt n ts clock) = prev_leader pt"
  "last_seen (mark_alive pt n ts clock) = dset n (or_clock ts clock) (last_seen pt)"
  by (simp_all add: mark_alive_def)

lemma mark_gone_fields [simp]:
  "pt_self_id (mark_gone pt n) = pt_self_id pt"
  "pt_timeout (mark_gone pt n) = pt_timeout pt"
  "prev_leader (mark_gone pt n) = prev_leader pt"
  "last_seen (mark_gone pt n) = dpop n (last_seen pt)"
  by (simp_all add: mark_gone_def)

text \<open>The table's invariant: \<open>last_seen\<close> is a dictionary.\<close>

definition peers_ok :: "peer_table \<Rightarrow> bool" where
  "peers_ok pt \<longleftrightarrow> dict_ok (last_seen pt)"

lemma peers_ok_init: "peers_ok (PeerTable n t)"
  by (simp add: peers_ok_def PeerTable_def)

lemma peers_ok_steps:
  "peers_ok pt \<Longrightarrow> peers_ok (mark_alive pt n ts clock)"
  "peers_ok pt \<Longrightarrow> peers_ok (mark_gone pt n)"
  "peers_ok pt \<Longrightarrow> peers_ok (snd (leader_changed pt now clock))"
  by (simp_all add: peers_ok_def leader_changed_def Let_def)

lemma alive_iff:
  assumes "peers_ok pt"
  shows "n \<in> set (alive_peers pt now clock) \<longleftrightarrow>
    n = pt_self_id pt \<or>
    (\<exists>seen. map_of (last_seen pt) n = Some seen \<and> or_clock now clock - seen \<le> pt_timeout pt)"
  using assms by (auto simp: set_alive_peers peers_ok_def map_of_eq_Some_iff)

subsection \<open>The table as a machine\<close>

text \<open>
  The calls that change a table, as events. \<open>last_word\<close> is the time of a node's last sign of
  life, or \<open>None\<close> if it has given none or has left since.
\<close>

datatype peer_event = Heard string real | Left string | AskLeader real

fun peer_step :: "peer_table \<Rightarrow> peer_event \<Rightarrow> peer_table" where
  "peer_step pt (Heard n t) = mark_alive pt n (Some t) t"
| "peer_step pt (Left n) = mark_gone pt n"
| "peer_step pt (AskLeader now) = snd (leader_changed pt (Some now) now)"

fun last_word :: "string \<Rightarrow> real option \<Rightarrow> peer_event list \<Rightarrow> real option" where
  "last_word n w [] = w"
| "last_word n w (Heard m t # es) = last_word n (if m = n then Some t else w) es"
| "last_word n w (Left m # es) = last_word n (if m = n then None else w) es"
| "last_word n w (AskLeader now # es) = last_word n w es"

interpretation peers: event_machine peer_step peers_ok
proof
  show "peers_ok (peer_step pt e)" if "peers_ok pt" for pt e
    using that by (cases e) (simp_all add: peers_ok_steps)
qed

lemma leader_changed_fields [simp]:
  "pt_self_id (snd (leader_changed pt now clock)) = pt_self_id pt"
  "pt_timeout (snd (leader_changed pt now clock)) = pt_timeout pt"
  "last_seen (snd (leader_changed pt now clock)) = last_seen pt"
  by (simp_all add: leader_changed_def Let_def)

lemma run_peers:
  "pt_self_id (run_events peer_step pt es) = pt_self_id pt \<and>
   pt_timeout (run_events peer_step pt es) = pt_timeout pt \<and>
   map_of (last_seen (run_events peer_step pt es)) n = last_word n (map_of (last_seen pt) n) es"
proof (induction es arbitrary: pt)
  case (Cons e es)
  then show ?case by (cases e) auto
qed simp

subsection \<open>Properties\<close>

text \<open>C27: the alive set is what the messages say. Whatever a table has been told, in whatever order,
  a node is in its alive set exactly when it is the table's owner, or the last thing heard of
  it was a sign of life, not a departure, and at most the timeout ago; what was heard of other
  nodes, and how often the leader was asked for, makes no difference. The set is sorted and
  without duplicates.\<close>

theorem alive_by_last_word:
  "sorted (alive_peers (run_events peer_step (PeerTable self_id timeout) es) (Some now) clock) \<and>
   distinct (alive_peers (run_events peer_step (PeerTable self_id timeout) es) (Some now) clock) \<and>
   (n \<in> set (alive_peers (run_events peer_step (PeerTable self_id timeout) es) (Some now) clock) \<longleftrightarrow>
      n = self_id \<or> (\<exists>t. last_word n None es = Some t \<and> now - t \<le> timeout))"
proof -
  have "peers_ok (run_events peer_step (PeerTable self_id timeout) es)"
    by (rule peers.run_inv) (rule peers_ok_init)
  then show ?thesis
    using run_peers [of "PeerTable self_id timeout" es n]
    by (simp add: alive_iff sorted_alive_peers distinct_alive_peers) (simp add: PeerTable_def)
qed

text \<open>C26: two nodes that each take the other for alive never both take themselves for the leader,
  even if the rest of their views differ: no split brain.\<close>

theorem split_brain_free:
  assumes "pt_self_id p \<noteq> pt_self_id q"
    and "pt_self_id q \<in> set (alive_peers p now clock)"
    and "pt_self_id p \<in> set (alive_peers q now' clock')"
  shows "\<not> (is_leader p now clock \<and> is_leader q now' clock')"
  using pv.no_two_leaders [of "(q, now', clock')" "(p, now, clock)"] assms
  by (auto simp: is_leader_def leader_hd)

theorem split_brain_free_witness:
  "let p = mark_alive (PeerTable ''node-a'' 6) ''node-b'' (Some 10) 0;
       q = mark_alive (mark_alive (PeerTable ''node-b'' 6) ''node-a'' (Some 9) 0) ''node-c'' (Some 9) 0
   in is_leader p (Some 12) 0 \<and> \<not> is_leader q (Some 12) 0"
proof -
  let ?p = "mark_alive (PeerTable ''node-a'' 6) ''node-b'' (Some 10) 0"
  let ?q = "mark_alive (mark_alive (PeerTable ''node-b'' 6) ''node-a'' (Some 9) 0) ''node-c'' (Some 9) 0"
  have lead: "is_leader ?p (Some 12) 0"
    by (simp add: is_leader_def leader_def alive_peers_def sorted_set_def PeerTable_def)
  have "\<not> (is_leader ?p (Some 12) 0 \<and> is_leader ?q (Some 12) 0)"
    by (rule split_brain_free) (simp_all add: set_alive_peers PeerTable_def)
  with lead show ?thesis by simp
qed

text \<open>Election is a function of the alive set: nodes with the same alive set name the same
  leader, namely its least id, and there always is one.\<close>

lemma election_agreement:
  assumes "set (alive_peers p now clock) = set (alive_peers q now' clock')"
  shows "leader p now clock = leader q now' clock' \<and>
         leader p now clock = Some (Min (set (alive_peers q now' clock')))"
  using pv.same_view_same_first [of "(p, now, clock)" "(q, now', clock')"]
    pv.first_is_min [of "(p, now, clock)"] assms
  by (simp add: leader_hd)

lemma election_agreement_witness:
  "let p = mark_alive (PeerTable ''node-a'' 6) ''node-b'' (Some 10) 0;
       q = mark_alive (PeerTable ''node-b'' 6) ''node-a'' (Some 8) 0
   in leader p (Some 12) 0 = leader q (Some 11) 0 \<and> leader p (Some 12) 0 = Some ''node-a''"
proof -
  let ?p = "mark_alive (PeerTable ''node-a'' 6) ''node-b'' (Some 10) 0"
  let ?q = "mark_alive (PeerTable ''node-b'' 6) ''node-a'' (Some 8) 0"
  have same: "set (alive_peers ?p (Some 12) 0) = set (alive_peers ?q (Some 11) 0)"
    by (auto simp: set_alive_peers PeerTable_def)
  have "leader ?p (Some 12) 0 = Some ''node-a''"
    by (simp add: leader_def alive_peers_def sorted_set_def PeerTable_def)
  with election_agreement [OF same] show ?thesis by simp
qed

text \<open>A clean departure takes effect at once: after \<open>mark_gone\<close> the node is not alive at any
  later or earlier time, unless it is the table's owner, and nobody else's liveness
  changes.\<close>

lemma mark_gone_effect:
  assumes "peers_ok pt"
  shows "(n \<in> set (alive_peers (mark_gone pt n) now clock) \<longleftrightarrow> n = pt_self_id pt) \<and>
         (\<forall>m. m \<noteq> n \<longrightarrow>
           (m \<in> set (alive_peers (mark_gone pt n) now clock) \<longleftrightarrow>
            m \<in> set (alive_peers pt now clock)))"
proof -
  have ok: "peers_ok (mark_gone pt n)" using assms by (rule peers_ok_steps)
  show ?thesis using alive_iff [OF ok] alive_iff [OF assms] by simp
qed

text \<open>\<open>leader_changed\<close> reports transitions only: it returns the current leader exactly when
  that differs from the one it last saw, remembers it, touches nothing else, and so reports
  nothing when called again while the leader is the same.\<close>

lemma leader_changed_edge:
  "(fst (leader_changed pt now clock) = Some l \<longleftrightarrow>
      leader pt now clock = Some l \<and> prev_leader pt \<noteq> Some l) \<and>
   (let pt' = snd (leader_changed pt now clock)
    in prev_leader pt' = leader pt now clock \<and> last_seen pt' = last_seen pt \<and>
       leader pt' now clock = leader pt now clock \<and>
       fst (leader_changed pt' now clock) = None)"
  by (auto simp: leader_changed_def Let_def leader_def alive_peers_def)

text \<open>The two timing constants together. A peer heard at time \<open>t\<close> that heartbeats every
  \<open>HEARTBEAT_INTERVAL\<close> stays alive until its third heartbeat after that is due, so up to two
  lost heartbeats are tolerated as long as the third is not late at all; any later than that
  and the peer is declared dead.\<close>

lemma heartbeat_tolerance:
  assumes "peers_ok pt" and "pt_timeout pt = PEER_TIMEOUT" and "n \<noteq> pt_self_id pt"
  shows "n \<in> set (alive_peers (mark_alive pt n (Some t) c) (Some now) c') \<longleftrightarrow>
         now \<le> t + 3 * HEARTBEAT_INTERVAL"
proof -
  have "peers_ok (mark_alive pt n (Some t) c)" using assms(1) by (rule peers_ok_steps)
  then show ?thesis
    using assms(2,3) by (auto simp: alive_iff PEER_TIMEOUT_def HEARTBEAT_INTERVAL_def)
qed

lemma heartbeat_tolerance_witness:
  "let pt = mark_alive (PeerTable ''node-b'' PEER_TIMEOUT) ''node-a'' (Some 0) 0
   in ''node-a'' \<in> set (alive_peers pt (Some 6) 0) \<and>
      ''node-a'' \<notin> set (alive_peers pt (Some (6 + 1 / 10)) 0)"
  using heartbeat_tolerance [OF peers_ok_init, of "''node-b''" PEER_TIMEOUT "''node-a''" 0 0 6 0]
    heartbeat_tolerance [OF peers_ok_init, of "''node-b''" PEER_TIMEOUT "''node-a''" 0 0 "6 + 1 / 10" 0]
  by (simp add: PeerTable_def Let_def HEARTBEAT_INTERVAL_def)

end
