(* ===== verification/Protocol.thy ===== *)
theory Protocol imports Prelude begin

section \<open>The wire protocol\<close>

text \<open>
  \<open>common/protocol.py\<close>: the message types and the envelope. msgpack is not part of the
  repository: \<open>packb\<close> and \<open>unpackb\<close> are the two functions of a \<open>codec\<close>, a parameter of
  every definition that uses them. What the code relies on is \<open>codec_ok\<close>: a body that was
  packed unpacks to the same envelope. \<open>packb\<close> may raise (integers beyond 64 bits), and so may
  \<open>unpackb\<close> (malformed bodies). The four fields of an envelope are typed; the payload is the
  untyped dictionary it is in the code. A string is its UTF-8 encoding already.
\<close>

type_synonym payload = "(string, pyval) dict"

record envelope =
  e_type :: string
  e_node_id :: string
  e_ts :: real
  e_payload :: payload

definition HEARTBEAT :: string where "HEARTBEAT = ''heartbeat''"

definition HELLO :: string where "HELLO = ''hello''"

definition BYE :: string where "BYE = ''bye''"

definition GEN_START :: string where "GEN_START = ''gen_start''"

definition GEN_DONE :: string where "GEN_DONE = ''gen_done''"

definition COMMIT :: string where "COMMIT = ''commit''"

definition DISPUTE_SCORE :: string where "DISPUTE_SCORE = ''dispute_score''"

lemmas msg_type_defs =
  HEARTBEAT_def HELLO_def BYE_def GEN_START_def GEN_DONE_def COMMIT_def DISPUTE_SCORE_def

record codec =
  packb :: "envelope \<Rightarrow> string result"
  unpackb :: "string \<Rightarrow> envelope result"

definition codec_ok :: "codec \<Rightarrow> bool" where
  "codec_ok cd \<longleftrightarrow> (\<forall>e b. packb cd e = Inr b \<longrightarrow> unpackb cd b = Inr e)"

text \<open>\<open>payload or {}\<close> is \<open>{}\<close> for \<open>None\<close> and for an empty dictionary.\<close>

definition encode ::
  "codec \<Rightarrow> string \<Rightarrow> string \<Rightarrow> payload option \<Rightarrow> real \<Rightarrow> (string \<times> string) result" where
  "encode cd node_id msg_type payload clock =
     (let envelope = \<lparr>e_type = msg_type, e_node_id = node_id, e_ts = clock,
                      e_payload = (case payload of None \<Rightarrow> [] | Some d \<Rightarrow> d)\<rparr>;
          topic = node_id
      in rbind (packb cd envelope) (\<lambda>body. Inr (topic, body)))"

definition decode :: "codec \<Rightarrow> string \<Rightarrow> string \<Rightarrow> envelope result" where
  "decode cd topic body = unpackb cd body"

text \<open>A codec to evaluate concrete runs with: it packs exactly one given envelope per body.\<close>

definition table_codec :: "(string \<times> envelope) list \<Rightarrow> codec" where
  "table_codec tab =
     \<lparr>packb = (\<lambda>e. case find (\<lambda>(b, e'). e' = e) tab of None \<Rightarrow> Inl OverflowError | Some (b, _) \<Rightarrow> Inr b),
      unpackb = (\<lambda>b. case map_of tab b of None \<Rightarrow> Inl ValueError | Some e \<Rightarrow> Inr e)\<rparr>"

lemma table_codec_packs: "packb (table_codec tab) e = Inr b \<Longrightarrow> (b, e) \<in> set tab"
  by (auto simp: table_codec_def find_Some_iff split: option.splits) (metis nth_mem)

lemma table_codec_ok: "distinct (map fst tab) \<Longrightarrow> codec_ok (table_codec tab)"
  by (auto simp: codec_ok_def dest!: table_codec_packs) (simp add: table_codec_def)

text \<open>\<open>decode\<close> inverts \<open>encode\<close>. Whatever frame pair \<open>encode\<close> builds, its topic is the
  sender's id and decoding it gives back the sender, the type, the time stamp taken at the
  call and the payload, with no payload read as the empty one.\<close>

lemma encode_decode:
  assumes "codec_ok cd" and "encode cd node_id msg_type payload clock = Inr (topic, body)"
  shows "topic = node_id \<and>
    decode cd topic body =
      Inr \<lparr>e_type = msg_type, e_node_id = node_id, e_ts = clock,
           e_payload = (case payload of None \<Rightarrow> [] | Some d \<Rightarrow> d)\<rparr>"
  using assms by (auto simp: encode_def decode_def codec_ok_def rbind_eq_Inr)

end
