(* ===== verification/Transport.thy ===== *)
theory Transport imports Protocol PyInt Config begin

section \<open>Transport: sockets, clock, and the world outside the repository\<close>

text \<open>
  \<open>node/transport.py\<close>. The state that lies outside the repository is the record \<open>world\<close>:
  \<^item> \<open>w_codec\<close>: msgpack;
  \<^item> \<open>w_clock\<close>: the values successive calls of \<open>time.time()\<close> return, \<open>w_clock_i\<close> of them
    read so far. Nothing is assumed of them unless a theorem says so (\<open>clock_advances\<close>);
  \<^item> \<open>w_polls\<close>: for the \<open>i\<close>-th \<open>sub.poll(timeout_ms)\<close>, whether a message is there and
    which frames \<open>recv_multipart\<close> then gives, \<open>w_poll_i\<close> polls made so far. Which message
    arrives when, how often and in what order is arbitrary;
  \<^item> \<open>w_sent\<close>: every frame pair handed to \<open>send_multipart\<close>, oldest first.
  Operations take the world and return the new one next to their result.
\<close>

record world =
  w_codec :: codec
  w_clock :: "nat \<Rightarrow> real"
  w_clock_i :: nat
  w_polls :: "nat \<Rightarrow> int \<Rightarrow> (string \<times> string) option"
  w_poll_i :: nat
  w_sent :: "(string \<times> string) list"

text \<open>Sequencing for operations that may raise and change a state: the state reached when the
  exception was raised is kept.\<close>

definition pbind :: "'a result \<times> 's \<Rightarrow> ('a \<Rightarrow> 's \<Rightarrow> 'b result \<times> 's) \<Rightarrow> 'b result \<times> 's" where
  "pbind r f = (case r of (Inl e, s) \<Rightarrow> (Inl e, s) | (Inr x, s) \<Rightarrow> f x s)"

lemma pbind_simps [simp]:
  "pbind (Inl e, s) f = (Inl e, s)"
  "pbind (Inr x, s) f = f x s"
  by (simp_all add: pbind_def)

definition time_time :: "world \<Rightarrow> real \<times> world" where
  "time_time w = (w_clock w (w_clock_i w), w\<lparr>w_clock_i := Suc (w_clock_i w)\<rparr>)"

text \<open>The clock passes every instant for good, sooner or later.\<close>

definition clock_advances :: "world \<Rightarrow> bool" where
  "clock_advances w \<longleftrightarrow> (\<forall>d. \<exists>n. \<forall>m\<ge>n. d \<le> w_clock w m)"

record transport =
  tr_pub :: "string list"
  tr_sub :: "string list"
  tr_subscribe :: "string list"
  tr_open :: bool

definition tcp_addr :: "string \<Rightarrow> int \<Rightarrow> string" where
  "tcp_addr host port = ''tcp://'' @ host @ '':'' @ str_int port"

definition Transport :: "relay list \<Rightarrow> transport result" where
  "Transport relays =
     (if relays = [] then Inl ValueError
      else Inr (fold (\<lambda>(host, pub_port, sub_port) tr.
                  tr\<lparr>tr_pub := tr_pub tr @ [tcp_addr host pub_port],
                     tr_sub := tr_sub tr @ [tcp_addr host sub_port]\<rparr>) relays
                \<lparr>tr_pub = [], tr_sub = [], tr_subscribe = [''''], tr_open = True\<rparr>))"

definition publish :: "world \<Rightarrow> string \<Rightarrow> string \<Rightarrow> payload option \<Rightarrow> unit result \<times> world" where
  "publish w node_id msg_type payload =
     (let (clock, w1) = time_time w
      in case encode (w_codec w1) node_id msg_type payload clock of
           Inl e \<Rightarrow> (Inl e, w1)
         | Inr (topic, body) \<Rightarrow> (Inr (), w1\<lparr>w_sent := w_sent w1 @ [(topic, body)]\<rparr>))"

definition poll_recv :: "world \<Rightarrow> int \<Rightarrow> envelope option result \<times> world" where
  "poll_recv w timeout_ms =
     (let w1 = w\<lparr>w_poll_i := Suc (w_poll_i w)\<rparr>
      in case w_polls w (w_poll_i w) timeout_ms of
           None \<Rightarrow> (Inr None, w1)
         | Some (topic, body) \<Rightarrow> (rbind (decode (w_codec w) topic body) (\<lambda>env. Inr (Some env)), w1))"

definition close :: "transport \<Rightarrow> transport" where
  "close tr = tr\<lparr>tr_open := False\<rparr>"

subsection \<open>What the operations leave alone\<close>

lemma time_time_fields [simp]:
  "w_codec (snd (time_time w)) = w_codec w"
  "w_clock (snd (time_time w)) = w_clock w"
  "w_clock_i (snd (time_time w)) = Suc (w_clock_i w)"
  "w_polls (snd (time_time w)) = w_polls w"
  "w_poll_i (snd (time_time w)) = w_poll_i w"
  "w_sent (snd (time_time w)) = w_sent w"
  "fst (time_time w) = w_clock w (w_clock_i w)"
  by (simp_all add: time_time_def)

lemma poll_recv_fields [simp]:
  "w_codec (snd (poll_recv w t)) = w_codec w"
  "w_clock (snd (poll_recv w t)) = w_clock w"
  "w_clock_i (snd (poll_recv w t)) = w_clock_i w"
  "w_polls (snd (poll_recv w t)) = w_polls w"
  "w_poll_i (snd (poll_recv w t)) = Suc (w_poll_i w)"
  "w_sent (snd (poll_recv w t)) = w_sent w"
  by (simp_all add: poll_recv_def Let_def split: option.splits)

lemma publish_fields [simp]:
  "w_codec (snd (publish w n m p)) = w_codec w"
  "w_clock (snd (publish w n m p)) = w_clock w"
  "w_clock_i (snd (publish w n m p)) = Suc (w_clock_i w)"
  "w_polls (snd (publish w n m p)) = w_polls w"
  "w_poll_i (snd (publish w n m p)) = w_poll_i w"
  by (simp_all add: publish_def time_time_def Let_def split: sum.splits prod.splits)

lemma Transport_fold:
  "fold (\<lambda>(host, pub_port, sub_port) tr.
      tr\<lparr>tr_pub := tr_pub tr @ [tcp_addr host pub_port],
         tr_sub := tr_sub tr @ [tcp_addr host sub_port]\<rparr>) relays tr =
   tr\<lparr>tr_pub := tr_pub tr @ map (\<lambda>(h, p, s). tcp_addr h p) relays,
      tr_sub := tr_sub tr @ map (\<lambda>(h, p, s). tcp_addr h s) relays\<rparr>"
  by (induction relays arbitrary: tr) auto

lemma poll_of_published:
  assumes "codec_ok (w_codec w)" and "w_codec w' = w_codec w"
    and "publish w node_id msg_type payload = (Inr (), w1)"
    and "w_polls w' (w_poll_i w') timeout_ms = Some (last (w_sent w1))"
  shows "poll_recv w' timeout_ms =
    (Inr (Some \<lparr>e_type = msg_type, e_node_id = node_id, e_ts = w_clock w (w_clock_i w),
                e_payload = (case payload of None \<Rightarrow> [] | Some d \<Rightarrow> d)\<rparr>),
     w'\<lparr>w_poll_i := Suc (w_poll_i w')\<rparr>)"
proof -
  obtain topic body where enc:
      "encode (w_codec w) node_id msg_type payload (w_clock w (w_clock_i w)) = Inr (topic, body)"
    and w1: "last (w_sent w1) = (topic, body)"
    using assms(3) by (auto simp: publish_def time_time_def split: sum.splits prod.splits)
  have "decode (w_codec w) topic body =
      Inr \<lparr>e_type = msg_type, e_node_id = node_id, e_ts = w_clock w (w_clock_i w),
           e_payload = (case payload of None \<Rightarrow> [] | Some d \<Rightarrow> d)\<rparr>"
    using assms(1) enc by (auto simp: encode_def decode_def codec_ok_def rbind_eq_Inr)
  with w1 assms(2,4) show ?thesis by (simp add: poll_recv_def)
qed

subsection \<open>Properties\<close>

text \<open>A transport is connected to every relay at once: with no relay its construction raises
  \<open>ValueError\<close>; otherwise its publishing socket is connected to each relay's publisher port
  and its subscribing socket, subscribed to everything, to each relay's subscriber port.\<close>

lemma transport_all_relays:
  "Transport relays =
     (if relays = [] then Inl ValueError
      else Inr \<lparr>tr_pub = map (\<lambda>(h, p, s). tcp_addr h p) relays,
                tr_sub = map (\<lambda>(h, p, s). tcp_addr h s) relays,
                tr_subscribe = [''''], tr_open = True\<rparr>)"
  by (simp add: Transport_def Transport_fold)

text \<open>What one node publishes, another reads back. If the frames of a successful \<open>publish\<close>
  are what the receiver's next poll delivers, and both use the same msgpack, the receiver gets
  exactly the sender's id, type, payload and sending time, and consumes one poll.\<close>

lemma publish_poll_roundtrip:
  assumes "codec_ok (w_codec w)" and "w_codec w' = w_codec w"
    and "publish w node_id msg_type payload = (Inr (), w1)"
    and "w_polls w' (w_poll_i w') timeout_ms = Some (last (w_sent w1))"
  shows "poll_recv w' timeout_ms =
    (Inr (Some \<lparr>e_type = msg_type, e_node_id = node_id, e_ts = w_clock w (w_clock_i w),
                e_payload = (case payload of None \<Rightarrow> [] | Some d \<Rightarrow> d)\<rparr>),
     w'\<lparr>w_poll_i := Suc (w_poll_i w')\<rparr>)"
  using assms by (rule poll_of_published)

lemma publish_poll_roundtrip_witness:
  "let e = \<lparr>e_type = HELLO, e_node_id = ''node-a'', e_ts = 7, e_payload = []\<rparr>;
       w = \<lparr>w_codec = table_codec [(''body'', e)], w_clock = (\<lambda>_. 7), w_clock_i = 0,
            w_polls = (\<lambda>_ _. Some (''node-a'', ''body'')), w_poll_i = 0, w_sent = []\<rparr>
   in fst (poll_recv w 200) = Inr (Some e)"
proof -
  let ?e = "\<lparr>e_type = HELLO, e_node_id = ''node-a'', e_ts = 7, e_payload = []\<rparr>"
  let ?w = "\<lparr>w_codec = table_codec [(''body'', ?e)], w_clock = (\<lambda>_. 7), w_clock_i = 0,
            w_polls = (\<lambda>_ _. Some (''node-a'', ''body'')), w_poll_i = 0, w_sent = []\<rparr>"
  let ?w1 = "?w\<lparr>w_clock_i := 1, w_sent := [(''node-a'', ''body'')]\<rparr>"
  have "codec_ok (w_codec ?w)" by (simp add: table_codec_ok)
  moreover have "publish ?w ''node-a'' HELLO None = (Inr (), ?w1)"
    by (simp add: publish_def time_time_def encode_def table_codec_def)
  ultimately show ?thesis
    using publish_poll_roundtrip [of ?w ?w "''node-a''" HELLO None ?w1 200] by simp
qed

end
