(* ===== verification/Rounds.thy ===== *)
theory Rounds imports Protocol Config "HOL-Library.Multiset" begin

section \<open>Round-locked leadership\<close>

text \<open>
  \<open>node/round.py\<close>: \<open>RoundState\<close> and \<open>RoundManager\<close>. A \<open>RoundState\<close> is an object the code
  mutates and shares (the generation loop keeps a reference to the active one), so the manager
  holds every object it ever created in \<open>rm_heap\<close>, at its address, and \<open>active_round\<close> is an
  address or none. \<open>round_id\<close>, \<open>prompt\<close> and \<open>gen_config\<close> are whatever value the message carried.
\<close>

datatype round_status = Active | Done | Failed

record round_state =
  round_id :: pyval
  leader_id :: string
  participants :: "string list"
  prompt :: pyval
  gen_config :: pyval
  started_at :: real
  last_leader_seen :: real
  status :: round_status

record round_manager =
  rm_self_id :: string
  rm_heap :: "round_state list"
  rm_active :: "nat option"

definition RoundManager :: "string \<Rightarrow> round_manager" where
  "RoundManager self_id = \<lparr>rm_self_id = self_id, rm_heap = [], rm_active = None\<rparr>"

definition active_round :: "round_manager \<Rightarrow> round_state option" where
  "active_round rm = map_option (\<lambda>a. rm_heap rm ! a) (rm_active rm)"

text \<open>\<open>self.active_round = RoundState(...)\<close> and an assignment to fields of \<open>self.active_round\<close>.\<close>

definition set_new_round :: "round_state \<Rightarrow> round_manager \<Rightarrow> round_manager" where
  "set_new_round rs rm =
     rm\<lparr>rm_heap := rm_heap rm @ [rs], rm_active := Some (length (rm_heap rm))\<rparr>"

definition mutate_active :: "(round_state \<Rightarrow> round_state) \<Rightarrow> round_manager \<Rightarrow> round_manager" where
  "mutate_active f rm =
     (case rm_active rm of None \<Rightarrow> rm
      | Some a \<Rightarrow> rm\<lparr>rm_heap := (rm_heap rm)[a := f (rm_heap rm ! a)]\<rparr>)"

text \<open>\<open>hex\<close> is \<open>uuid.uuid4().hex\<close>; \<open>t1\<close> and \<open>t2\<close> are the two clock readings of the call,
  the second one by the default factory of \<open>last_leader_seen\<close>.\<close>

definition start_round ::
  "round_manager \<Rightarrow> string list \<Rightarrow> pyval \<Rightarrow> pyval \<Rightarrow> string \<Rightarrow> real \<Rightarrow> real
   \<Rightarrow> round_state \<times> round_manager" where
  "start_round rm ps prmpt gcfg hex t1 t2 =
     (let rs = \<lparr>round_id = PStr (rm_self_id rm @ '':'' @ take 8 hex), leader_id = rm_self_id rm,
                participants = sort ps, prompt = prmpt, gen_config = gcfg,
                started_at = t1, last_leader_seen = t2, status = Active\<rparr>
      in (rs, set_new_round rs rm))"

definition sorted_strs :: "pyval \<Rightarrow> string list result" where
  "sorted_strs v = rbind (iterate v) (\<lambda>vs. rbind (mapM as_str vs) (\<lambda>ss. Inr (sort ss)))"

definition on_gen_start ::
  "round_manager \<Rightarrow> envelope \<Rightarrow> real option \<Rightarrow> real \<Rightarrow> round_manager result" where
  "on_gen_start rm env adopted_at clock =
     (let payload = e_payload env in
      if (case active_round rm of None \<Rightarrow> False | Some rs \<Rightarrow> status rs = Active)
      then rbind (pay_item payload ''round_id'') (\<lambda>_. Inr rm)
      else
        (let now = (case adopted_at of None \<Rightarrow> clock | Some t \<Rightarrow> t) in
         rbind (pay_item payload ''round_id'') (\<lambda>rid.
         rbind (pay_item payload ''participants'') (\<lambda>ps_v.
         rbind (sorted_strs ps_v) (\<lambda>ps.
         rbind (pay_item payload ''prompt'') (\<lambda>prmpt.
         rbind (pay_item payload ''gen_config'') (\<lambda>gcfg.
           Inr (set_new_round
                  \<lparr>round_id = rid, leader_id = e_node_id env, participants = ps,
                   prompt = prmpt, gen_config = gcfg, started_at = now,
                   last_leader_seen = now, status = Active\<rparr> rm)))))))) "

definition on_gen_done :: "round_manager \<Rightarrow> envelope \<Rightarrow> round_manager" where
  "on_gen_done rm env =
     (case active_round rm of
        None \<Rightarrow> rm
      | Some rs \<Rightarrow>
          if pay_get (e_payload env) ''round_id'' = round_id rs
          then (mutate_active (\<lambda>r. r\<lparr>status := Done\<rparr>) rm)\<lparr>rm_active := None\<rparr>
          else rm)"

definition note_leader_activity :: "round_manager \<Rightarrow> string \<Rightarrow> real \<Rightarrow> round_manager" where
  "note_leader_activity rm node_id ts =
     (case active_round rm of
        None \<Rightarrow> rm
      | Some rs \<Rightarrow>
          if status rs = Active \<and> node_id = leader_id rs
          then mutate_active (\<lambda>r. r\<lparr>last_leader_seen := ts\<rparr>) rm
          else rm)"

definition check_leader_timeout ::
  "round_manager \<Rightarrow> real option \<Rightarrow> real \<Rightarrow> bool \<times> round_manager" where
  "check_leader_timeout rm now_opt clock =
     (let now = (case now_opt of None \<Rightarrow> clock | Some t \<Rightarrow> t) in
      case active_round rm of
        None \<Rightarrow> (False, rm)
      | Some rs \<Rightarrow>
          if status rs \<noteq> Active then (False, rm)
          else if leader_id rs = rm_self_id rm then (False, rm)
          else if now - last_leader_seen rs > ROUND_LEADER_TIMEOUT
          then (True, (mutate_active (\<lambda>r. r\<lparr>status := Failed\<rparr>) rm)\<lparr>rm_active := None\<rparr>)
          else (False, rm))"

definition is_round_leader :: "round_manager \<Rightarrow> bool" where
  "is_round_leader rm =
     (case active_round rm of None \<Rightarrow> False | Some rs \<Rightarrow> leader_id rs = rm_self_id rm)"

definition is_participant :: "round_manager \<Rightarrow> string \<Rightarrow> bool" where
  "is_participant rm node_id =
     (case active_round rm of None \<Rightarrow> False | Some rs \<Rightarrow> node_id \<in> set (participants rs))"

subsection \<open>Invariant\<close>

text \<open>The active round exists, is the newest object, and its status says so.\<close>

definition rm_ok :: "round_manager \<Rightarrow> bool" where
  "rm_ok rm \<longleftrightarrow>
     (\<forall>a. rm_active rm = Some a \<longrightarrow> Suc a = length (rm_heap rm) \<and> status (rm_heap rm ! a) = Active)"

lemma rm_ok_init: "rm_ok (RoundManager n)"
  by (simp add: rm_ok_def RoundManager_def)

lemma active_round_SomeD:
  "active_round rm = Some rs \<Longrightarrow> \<exists>a. rm_active rm = Some a \<and> rm_heap rm ! a = rs"
  by (auto simp: active_round_def)

lemma active_round_dropped: "active_round (rm\<lparr>rm_active := None\<rparr>) = None"
  by (simp add: active_round_def)

lemma rm_ok_active: "rm_ok rm \<Longrightarrow> active_round rm = Some rs \<Longrightarrow> status rs = Active"
  by (auto simp: rm_ok_def active_round_def)

lemma active_round_new [simp]: "active_round (set_new_round rs rm) = Some rs"
  by (simp add: active_round_def set_new_round_def)

lemma rm_ok_new: "status rs = Active \<Longrightarrow> rm_ok (set_new_round rs rm)"
  by (simp add: rm_ok_def set_new_round_def)

lemma rm_ok_drop: "rm_ok (rm\<lparr>rm_active := None\<rparr>)"
  by (simp add: rm_ok_def)

lemma mutate_active_fields [simp]:
  "rm_active (mutate_active f rm) = rm_active rm"
  "rm_self_id (mutate_active f rm) = rm_self_id rm"
  "length (rm_heap (mutate_active f rm)) = length (rm_heap rm)"
  by (simp_all add: mutate_active_def split: option.splits)

lemma rm_ok_mutate:
  "rm_ok rm \<Longrightarrow> (\<And>r. status (f r) = status r) \<Longrightarrow> rm_ok (mutate_active f rm)"
  by (auto simp: rm_ok_def mutate_active_def split: option.splits)

lemma active_round_mutate:
  "rm_ok rm \<Longrightarrow> active_round (mutate_active f rm) = map_option f (active_round rm)"
  by (auto simp: rm_ok_def active_round_def mutate_active_def split: option.splits)

lemma on_gen_start_cases:
  assumes "on_gen_start rm env adopted_at clock = Inr rm'"
  shows "rm' = rm \<or>
    (\<exists>rid ps prmpt gcfg.
       rm' = set_new_round
               \<lparr>round_id = rid, leader_id = e_node_id env, participants = ps, prompt = prmpt,
                gen_config = gcfg, started_at = case_option clock (\<lambda>t. t) adopted_at,
                last_leader_seen = case_option clock (\<lambda>t. t) adopted_at, status = Active\<rparr> rm)"
  using assms by (auto simp: on_gen_start_def Let_def rbind_eq_Inr split: if_splits)

subsection \<open>The manager as a machine\<close>

text \<open>
  Every call that changes a manager is an event; an exception leaves it as it was. The order
  \<open>heap_before\<close> says what no call ever does: replace the identity of a round (its id, leader,
  participants, prompt, configuration, start), or touch a round that is over.
\<close>

datatype round_event =
    StartRound "string list" pyval pyval string real real
  | GenStartMsg envelope "real option" real
  | GenDoneMsg envelope
  | LeaderActivity string real
  | CheckTimeout "real option" real

fun round_step :: "round_manager \<Rightarrow> round_event \<Rightarrow> round_manager" where
  "round_step rm (StartRound ps p g hex t1 t2) = snd (start_round rm ps p g hex t1 t2)"
| "round_step rm (GenStartMsg env t clock) =
     (case on_gen_start rm env t clock of Inl _ \<Rightarrow> rm | Inr rm' \<Rightarrow> rm')"
| "round_step rm (GenDoneMsg env) = on_gen_done rm env"
| "round_step rm (LeaderActivity n ts) = note_leader_activity rm n ts"
| "round_step rm (CheckTimeout now clock) = snd (check_leader_timeout rm now clock)"

definition round_identity ::
  "round_state \<Rightarrow> pyval \<times> string \<times> string list \<times> pyval \<times> pyval \<times> real" where
  "round_identity rs =
     (round_id rs, leader_id rs, participants rs, prompt rs, gen_config rs, started_at rs)"

definition heap_before :: "round_manager \<Rightarrow> round_manager \<Rightarrow> bool" where
  "heap_before rm rm' \<longleftrightarrow>
     rm_self_id rm' = rm_self_id rm \<and> length (rm_heap rm) \<le> length (rm_heap rm') \<and>
     (\<forall>a < length (rm_heap rm).
        round_identity (rm_heap rm' ! a) = round_identity (rm_heap rm ! a) \<and>
        (status (rm_heap rm ! a) \<noteq> Active \<longrightarrow> rm_heap rm' ! a = rm_heap rm ! a))"

lemma heap_before_refl: "heap_before rm rm"
  by (simp add: heap_before_def)

lemma heap_before_trans: "heap_before a b \<Longrightarrow> heap_before b c \<Longrightarrow> heap_before a c"
  by (auto simp: heap_before_def)

lemma heap_before_new: "heap_before rm (set_new_round rs rm)"
  by (simp add: heap_before_def set_new_round_def nth_append)

lemma heap_before_mutate:
  assumes "rm_ok rm" and "\<And>r. round_identity (f r) = round_identity r"
  shows "heap_before rm (mutate_active f rm)"
  using assms
  by (auto simp: heap_before_def mutate_active_def rm_ok_def nth_list_update split: option.splits)

lemma heap_before_drop: "heap_before rm rm' \<Longrightarrow> heap_before rm (rm'\<lparr>rm_active := a\<rparr>)"
  by (simp add: heap_before_def)

lemmas round_op_defs =
  start_round_def on_gen_done_def note_leader_activity_def check_leader_timeout_def

lemma round_step_ok: "rm_ok rm \<Longrightarrow> rm_ok (round_step rm ev)"
proof (cases ev)
  case (GenStartMsg env t clock)
  assume "rm_ok rm"
  with GenStartMsg show ?thesis
    by (auto split: sum.splits dest!: on_gen_start_cases intro: rm_ok_new)
qed (auto simp: round_op_defs Let_def rm_ok_new rm_ok_drop rm_ok_mutate split: option.splits)

lemma round_step_before: "rm_ok rm \<Longrightarrow> heap_before rm (round_step rm ev)"
proof (cases ev)
  case (GenStartMsg env t clock)
  then show ?thesis
    by (auto split: sum.splits dest!: on_gen_start_cases intro: heap_before_new heap_before_refl)
qed (auto simp: round_op_defs Let_def heap_before_new heap_before_refl heap_before_drop
       heap_before_mutate round_identity_def split: option.splits)

interpretation rounds: progress_machine round_step rm_ok heap_before
  by unfold_locales
    (auto intro: round_step_ok round_step_before heap_before_refl heap_before_trans)

text \<open>Leadership only changes between rounds: while a round is active, no event but a local start
  can put another one, and so another leader, in its place.\<close>

lemma round_step_same:
  assumes "rm_ok rm" and "active_round rm = Some rs"
    and "\<not> (\<exists>ps p g hex t1 t2. ev = StartRound ps p g hex t1 t2)"
  shows "active_round (round_step rm ev) = None \<or>
    (\<exists>rs'. active_round (round_step rm ev) = Some rs' \<and> round_identity rs' = round_identity rs)"
  using assms
  by (cases ev)
     (auto simp: round_op_defs on_gen_start_def Let_def rm_ok_active active_round_mutate
        round_identity_def active_round_dropped split: option.splits sum.splits
        dest!: rbind_eq_Inr [THEN iffD1])

lemma leader_activity_same:
  assumes "rm_ok rm" and "active_round rm = Some rs"
  shows "\<exists>rs'. active_round (round_step rm (LeaderActivity n t)) = Some rs' \<and>
           round_identity rs' = round_identity rs"
  using assms by (simp add: note_leader_activity_def active_round_mutate round_identity_def)

subsection \<open>Properties\<close>

text \<open>C24: rounds are frozen. Whatever sequence of calls a manager goes through, every round it
  ever held keeps its id, leader, participants, prompt, configuration and start time, a round
  that was done or failed stays exactly as it was, and the active round, if any, is the newest
  one and has status active.\<close>

theorem rounds_frozen:
  assumes "before = run_events round_step (RoundManager n) es"
    and "after = run_events round_step (RoundManager n) (es @ fs)"
    and "a < length (rm_heap before)"
  shows "round_identity (rm_heap after ! a) = round_identity (rm_heap before ! a) \<and>
         (status (rm_heap before ! a) \<noteq> Active \<longrightarrow> rm_heap after ! a = rm_heap before ! a) \<and>
         rm_ok after"
proof -
  have ok: "rm_ok before" unfolding assms(1) by (rule rounds.run_inv) (rule rm_ok_init)
  have after: "after = run_events round_step before fs"
    by (simp add: assms(1,2) run_events_append)
  show ?thesis
    using rounds.run_before [OF ok, of fs] rounds.run_inv [OF ok, of fs] assms(3)
    by (simp add: heap_before_def after)
qed

definition example_gen_start :: envelope where
  "example_gen_start =
     \<lparr>e_type = GEN_START, e_node_id = ''node-a'', e_ts = 99,
      e_payload = [(''round_id'', PStr ''node-a:abc123''),
                   (''participants'', PList [PStr ''node-b'', PStr ''node-a'']),
                   (''prompt'', PStr ''test prompt''),
                   (''gen_config'', PDict [(''steps'', PInt 256)])]\<rparr>"

definition example_round :: round_state where
  "example_round =
     \<lparr>round_id = PStr ''node-a:abc123'', leader_id = ''node-a'',
      participants = [''node-a'', ''node-b''], prompt = PStr ''test prompt'',
      gen_config = PDict [(''steps'', PInt 256)], started_at = 100, last_leader_seen = 100,
      status = Active\<rparr>"

lemma example_round_fields [simp]:
  "round_id example_round = PStr ''node-a:abc123''"
  "leader_id example_round = ''node-a''"
  "participants example_round = [''node-a'', ''node-b'']"
  "last_leader_seen example_round = 100"
  "status example_round = Active"
  by (simp_all add: example_round_def)

lemma example_round_ok: "rm_ok (set_new_round example_round rm)"
  by (simp add: rm_ok_new)

lemma example_gen_start_adopted:
  "rm_active rm = None \<Longrightarrow>
   on_gen_start rm example_gen_start (Some 100) 0 = Inr (set_new_round example_round rm)"
  by (simp add: on_gen_start_def active_round_def example_gen_start_def example_round_def
      sorted_strs_def pay_item_def Let_def)

theorem rounds_frozen_witness:
  "let es = [GenStartMsg example_gen_start (Some 100) 0];
       fs = [CheckTimeout (Some 200) 0, GenStartMsg example_gen_start (Some 300) 0];
       after = run_events round_step (RoundManager ''node-b'') (es @ fs)
   in leader_id (rm_heap after ! 0) = ''node-a'' \<and> participants (rm_heap after ! 0) = [''node-a'', ''node-b'']"
proof -
  let ?es = "[GenStartMsg example_gen_start (Some 100) 0]"
  let ?fs = "[CheckTimeout (Some 200) 0, GenStartMsg example_gen_start (Some 300) 0]"
  have es: "run_events round_step (RoundManager ''node-b'') ?es =
      set_new_round example_round (RoundManager ''node-b'')"
    by (simp add: example_gen_start_adopted RoundManager_def)
  have "0 < length (rm_heap (run_events round_step (RoundManager ''node-b'') ?es))"
    unfolding es by (simp add: set_new_round_def)
  from rounds_frozen [OF refl refl this, of ?fs] show ?thesis
    unfolding es by (simp add: set_new_round_def RoundManager_def round_identity_def
        example_round_def Let_def)
qed

text \<open>The first observed start wins. While a round is active a well-formed \<open>GEN_START\<close>,
  whoever sends it, changes nothing at all; when none is active it is adopted with the
  sender as the leader, the participants sorted, and the receive time as the start of the
  leader's silence clock.\<close>

lemma gen_start_first_wins:
  assumes "map_of (e_payload env) ''round_id'' = Some rid"
    and "map_of (e_payload env) ''participants'' = Some (PList (map PStr ps))"
    and "map_of (e_payload env) ''prompt'' = Some prmpt"
    and "map_of (e_payload env) ''gen_config'' = Some gcfg"
    and "rm_ok rm"
  shows "on_gen_start rm env (Some t) clock =
    Inr (case active_round rm of
           Some _ \<Rightarrow> rm
         | None \<Rightarrow> set_new_round
             \<lparr>round_id = rid, leader_id = e_node_id env, participants = sort ps,
              prompt = prmpt, gen_config = gcfg, started_at = t,
              last_leader_seen = t, status = Active\<rparr> rm)"
  using assms
  by (auto simp: on_gen_start_def Let_def pay_item_def sorted_strs_def rm_ok_active
      split: option.splits)

lemma gen_start_first_wins_witness:
  "on_gen_start (RoundManager ''node-b'') example_gen_start (Some 100) 0 =
     Inr (set_new_round example_round (RoundManager ''node-b''))"
proof -
  have "active_round (RoundManager ''node-b'') = None"
    by (simp add: active_round_def RoundManager_def)
  with gen_start_first_wins [OF _ _ _ _ rm_ok_init, of example_gen_start "PStr ''node-a:abc123''"
      "[''node-b'', ''node-a'']" "PStr ''test prompt''" "PDict [(''steps'', PInt 256)]" "''node-b''" 100 0]
  show ?thesis by (simp add: example_gen_start_def example_round_def)
qed

text \<open>The timeout check. It fails a round exactly when one is active, somebody else leads it,
  and its leader has been silent for more than \<open>ROUND_LEADER_TIMEOUT\<close>; the round is then
  marked failed and dropped, not handed over, and in every other case nothing changes. A
  leader never times itself out.\<close>

lemma check_leader_timeout_exact:
  assumes "rm_ok rm"
  shows "(fst (check_leader_timeout rm (Some now) clock) \<longleftrightarrow>
           (\<exists>rs. active_round rm = Some rs \<and> leader_id rs \<noteq> rm_self_id rm \<and>
                 now - last_leader_seen rs > ROUND_LEADER_TIMEOUT)) \<and>
         (fst (check_leader_timeout rm (Some now) clock) \<longrightarrow>
           (\<exists>a. rm_active rm = Some a \<and>
             snd (check_leader_timeout rm (Some now) clock) =
               rm\<lparr>rm_active := None,
                  rm_heap := (rm_heap rm)[a := (rm_heap rm ! a)\<lparr>status := Failed\<rparr>]\<rparr>)) \<and>
         (\<not> fst (check_leader_timeout rm (Some now) clock) \<longrightarrow>
           snd (check_leader_timeout rm (Some now) clock) = rm)"
  using assms
  by (auto simp: check_leader_timeout_def mutate_active_def rm_ok_active
      dest: active_round_SomeD split: option.splits if_splits)

lemma check_leader_timeout_exact_witness:
  "fst (check_leader_timeout (set_new_round example_round (RoundManager ''node-b'')) (Some 109) 0) \<and>
   \<not> fst (check_leader_timeout (set_new_round example_round (RoundManager ''node-b'')) (Some 108) 0) \<and>
   \<not> fst (check_leader_timeout (set_new_round example_round (RoundManager ''node-a'')) (Some 999) 0)"
proof -
  have "fst (check_leader_timeout (set_new_round example_round (RoundManager n)) (Some now) 0) \<longleftrightarrow>
      ''node-a'' \<noteq> n \<and> now - 100 > ROUND_LEADER_TIMEOUT" for n now
    using check_leader_timeout_exact [OF example_round_ok, of "RoundManager n" now 0]
    by (simp add: set_new_round_def active_round_def RoundManager_def)
  then show ?thesis by (simp add: ROUND_LEADER_TIMEOUT_def)
qed

text \<open>What ends a round by message. A \<open>GEN_DONE\<close> ends the active round exactly when it
  carries that round's id: the round is marked done and dropped, and nothing else happens to
  it. The sender plays no part: it need not be the round's leader, nor even a participant.\<close>

lemma gen_done_any_sender:
  assumes "rm_ok rm" and "active_round rm = Some rs"
  shows "(pay_get (e_payload env) ''round_id'' = round_id rs \<longrightarrow>
            active_round (on_gen_done rm env) = None \<and>
            last (rm_heap (on_gen_done rm env)) = rs\<lparr>status := Done\<rparr>) \<and>
         (pay_get (e_payload env) ''round_id'' \<noteq> round_id rs \<longrightarrow> on_gen_done rm env = rm) \<and>
         on_gen_done rm (env\<lparr>e_node_id := anyone\<rparr>) = on_gen_done rm env"
proof -
  obtain a where a: "rm_active rm = Some a" "rm_heap rm ! a = rs"
    using active_round_SomeD [OF assms(2)] by blast
  with assms(1) have len: "length (rm_heap rm) = Suc a" by (simp add: rm_ok_def)
  then have "last ((rm_heap rm)[a := r]) = r" for r
    using last_list_update [of "rm_heap rm" a r] by (cases "rm_heap rm") auto
  with a len assms(2) show ?thesis
    by (simp add: on_gen_done_def active_round_def mutate_active_def)
qed

lemma gen_done_any_sender_witness:
  "active_round (on_gen_done (set_new_round example_round (RoundManager ''node-b''))
     \<lparr>e_type = GEN_DONE, e_node_id = ''stranger'', e_ts = 101,
      e_payload = [(''round_id'', PStr ''node-a:abc123'')]\<rparr>) = None"
  using gen_done_any_sender [OF example_round_ok active_round_new, where env =
      "\<lparr>e_type = GEN_DONE, e_node_id = ''stranger'', e_ts = 101,
        e_payload = [(''round_id'', PStr ''node-a:abc123'')]\<rparr>"]
  by (simp add: pay_get_def)

text \<open>C40: \<open>GEN_START\<close> is not idempotent over the life of a round. A copy of the message that
  arrives after the round is over (from a slower relay, say) starts a round with the same id
  and leader again: the manager does not remember the rounds it has finished.\<close>

theorem late_copy_restarts_round:
  assumes "rm_active rm = None" and "on_gen_start rm env (Some t) clock = Inr rm1"
    and "pay_get (e_payload fin) ''round_id'' = pay_get (e_payload env) ''round_id''"
  shows "active_round (on_gen_done rm1 fin) = None \<and>
    (\<exists>rm2 rs. on_gen_start (on_gen_done rm1 fin) env (Some t') clock = Inr rm2 \<and>
       active_round rm2 = Some rs \<and> status rs = Active \<and>
       round_id rs = pay_get (e_payload env) ''round_id'' \<and> leader_id rs = e_node_id env)"
  using assms
  by (auto simp: on_gen_start_def active_round_def Let_def rbind_eq_Inr pay_item_Inr
      set_new_round_def on_gen_done_def pay_get_def mutate_active_def nth_append)

theorem late_copy_restarts_round_witness:
  "\<exists>rm2. on_gen_start (on_gen_done (set_new_round example_round (RoundManager ''node-b''))
            (example_gen_start\<lparr>e_type := GEN_DONE\<rparr>)) example_gen_start (Some 120) 0 = Inr rm2 \<and>
         active_round rm2 \<noteq> None"
proof -
  have "rm_active (RoundManager ''node-b'') = None" by (simp add: RoundManager_def)
  from late_copy_restarts_round [OF this example_gen_start_adopted [OF this],
      of "example_gen_start\<lparr>e_type := GEN_DONE\<rparr>" 120]
  show ?thesis by auto
qed

text \<open>A \<open>GEN_START\<close> whose payload has no \<open>gen_config\<close> entry cannot be adopted: the handler
  raises \<open>KeyError\<close>, with the manager unchanged. The payload that \<open>common/protocol.py\<close>
  documents (round id, participants, prompt, and the generation settings as entries of their
  own) is of this kind.\<close>

lemma documented_gen_start_raises:
  assumes "active_round rm = None"
    and "e_payload env =
      [(''round_id'', PStr rid), (''participants'', PList (map PStr ps)), (''prompt'', PStr prmpt),
       (''gen_length'', PInt gl), (''block_length'', PInt bl), (''steps'', PInt st),
       (''temperature'', PFloat tmp)]"
  shows "on_gen_start rm env adopted_at clock = Inl (KeyError ''gen_config'')"
  using assms by (simp add: on_gen_start_def pay_item_def sorted_strs_def Let_def)

lemma documented_gen_start_raises_witness:
  "on_gen_start (RoundManager ''node-b'')
     \<lparr>e_type = GEN_START, e_node_id = ''node-a'', e_ts = 1,
      e_payload = [(''round_id'', PStr ''node-a:abc123''),
        (''participants'', PList (map PStr [''node-a'', ''node-b''])), (''prompt'', PStr ''hi''),
        (''gen_length'', PInt 128), (''block_length'', PInt 32), (''steps'', PInt 128),
        (''temperature'', PFloat 0)]\<rparr> None 5 = Inl (KeyError ''gen_config'')"
  by (rule documented_gen_start_raises [where rid = "''node-a:abc123''" and prmpt = "''hi''" and
        ps = "[''node-a'', ''node-b'']" and gl = 128 and bl = 32 and st = 128 and tmp = 0])
     (simp_all add: active_round_def RoundManager_def)

text \<open>The initiator of a round. \<open>start_round\<close> makes the node the leader of a fresh active
  round, whose id is its own id and the first eight digits of the random identifier, and
  whose participants are the given ones, sorted; it names exactly them as participants, and
  its leader never fails it by timeout, at whatever time it asks.\<close>

lemma start_round_leads:
  assumes "start_round rm ps p g hex t1 t2 = (rs, rm')"
  shows "active_round rm' = Some rs \<and> rm_ok rm' \<and> is_round_leader rm' \<and>
         round_id rs = PStr (rm_self_id rm @ '':'' @ take 8 hex) \<and>
         sorted (participants rs) \<and> mset (participants rs) = mset ps \<and>
         (\<forall>n. is_participant rm' n \<longleftrightarrow> n \<in> set ps) \<and>
         check_leader_timeout rm' now clock = (False, rm')"
  using assms
  by (auto simp: start_round_def Let_def rm_ok_new is_round_leader_def is_participant_def
      check_leader_timeout_def) (auto simp: set_new_round_def)

end
