(* ===== verification/Consensus.thy ===== *)
theory Consensus imports Prelude "HOL-Library.Multiset" begin

section \<open>N-way consensus\<close>

text \<open>
  \<open>diffusion/consensus.py\<close>: the three pure functions every participant runs on the messages of
  one sync. Scores are added in the type \<open>'f\<close>, any type with a zero, an addition and a linear
  order. The program adds doubles: theory \<open>Generation\<close> uses these definitions at the type \<open>f64\<close> of
  theory \<open>Doubles\<close>, and theory \<open>Float64\<close> shows what rounding does; what holds of exact addition only
  says so. \<open>mexp\<close> is \<open>math.exp\<close>, with \<open>None\<close> where it
  raises \<open>OverflowError\<close>. Python leaves the iteration order of a set open: \<open>set_iter\<close> is that
  order, a parameter of \<open>merge_consensus\<close>.
\<close>

type_synonym 'c commits = "(string, (int, int \<times> 'c) dict) dict"

type_synonym 'l scores = "(string, (int, (int, 'l) dict) dict) dict"

text \<open>\<open>by_position.setdefault(pos, set()).add(token)\<close>, and the two loops that fill the table.\<close>

definition propose :: "int \<Rightarrow> int \<Rightarrow> (int, int set) dict \<Rightarrow> (int, int set) dict" where
  "propose pos token tbl = dset pos (insert token (dget_default tbl pos {})) tbl"

definition proposals_by_position :: "'c commits \<Rightarrow> (int, int set) dict" where
  "proposals_by_position commits =
     fold (\<lambda>(node_id, positions) tbl.
       fold (\<lambda>(pos, (token, conf)) tbl. propose pos token tbl) positions tbl) commits []"

definition detect_disputes :: "'c commits \<Rightarrow> (int, int set) dict" where
  "detect_disputes commits =
     filter (\<lambda>(pos, tokens). 1 < card tokens) (proposals_by_position commits)"

definition tally_candidates ::
  "('l \<Rightarrow> 'f option) \<Rightarrow> (int, 'l) dict \<Rightarrow> (int, 'f::{zero,plus}) dict \<Rightarrow> (int, 'f) dict result" where
  "tally_candidates mexp candidates bucket =
     foldM (\<lambda>(token, logprob) bucket.
       case mexp logprob of
         None \<Rightarrow> Inl OverflowError
       | Some e \<Rightarrow> Inr (dset token (dget_default bucket token 0 + e) bucket)) candidates bucket"

definition tally ::
  "('l \<Rightarrow> 'f option) \<Rightarrow> 'l scores \<Rightarrow> (int, (int, 'f::{zero,plus}) dict) dict result" where
  "tally mexp dispute_scores =
     foldM (\<lambda>(node_id, positions) totals.
       foldM (\<lambda>(pos, candidates) totals.
         rbind (tally_candidates mexp candidates (dget_default totals pos []))
           (\<lambda>bucket. Inr (dset pos bucket totals))) positions totals) dispute_scores []"

text \<open>\<open>max(items, key=lambda kv: (kv[1], -kv[0]))\<close>: tuples compare lexicographically, the first
  maximal item wins, and the empty dictionary raises.\<close>

definition key_less :: "int \<times> 'f::linorder \<Rightarrow> int \<times> 'f \<Rightarrow> bool" where
  "key_less a b \<longleftrightarrow> snd a < snd b \<or> (snd a = snd b \<and> - fst a < - fst b)"

fun max_item :: "(int, 'f::linorder) dict \<Rightarrow> (int \<times> 'f) result" where
  "max_item [] = Inl ValueError"
| "max_item (kv # kvs) = Inr (fold (\<lambda>kv best. if key_less best kv then kv else best) kvs kv)"

definition resolve_disputes ::
  "('l \<Rightarrow> 'f::{zero,plus,linorder} option) \<Rightarrow> 'l scores \<Rightarrow> (int, int) dict result" where
  "resolve_disputes mexp dispute_scores =
     rbind (tally mexp dispute_scores) (\<lambda>totals.
       foldM (\<lambda>(pos, candidates) winners.
         rbind (max_item candidates) (\<lambda>kv. Inr (dset pos (fst kv) winners))) totals [])"

definition merge_consensus ::
  "(int set \<Rightarrow> int list) \<Rightarrow> (int, int) dict \<Rightarrow> 'c commits \<Rightarrow> (int, int) dict \<Rightarrow> (int, int) dict" where
  "merge_consensus set_iter shared_x commits resolved =
     fold (\<lambda>(pos, tokens) updated.
       case map_of resolved pos of
         Some winner \<Rightarrow> dset pos winner updated
       | None \<Rightarrow> dset pos (hd (set_iter tokens)) updated)
       (proposals_by_position commits) shared_x"

text \<open>\<open>math.exp\<close> on a double: the exponential, unless its nearest double would be infinite.\<close>

definition math_exp :: "real \<Rightarrow> real option" where
  "math_exp x = (if exp x < 2 ^ 1024 - 2 ^ 970 then Some (exp x) else None)"

subsection \<open>What was proposed\<close>

definition proposed :: "'c commits \<Rightarrow> int \<Rightarrow> int set" where
  "proposed commits pos =
     {token. \<exists>node_id positions conf. (node_id, positions) \<in> set commits \<and>
               (pos, (token, conf)) \<in> set positions}"

lemma proposed_rec:
  "proposed [] p = {}"
  "proposed ((n, ps) # commits) p =
     (\<Union>(q, (t, c)) \<in> set ps. if q = p then {t} else {}) \<union> proposed commits p"
  by (auto simp: proposed_def split: if_splits) blast

definition proposal_pairs :: "'c commits \<Rightarrow> (int \<times> int) list" where
  "proposal_pairs commits =
     concat (map (\<lambda>(node_id, positions). map (\<lambda>(pos, (token, conf)). (pos, token)) positions) commits)"

lemma fold_concat_map: "fold f (concat (map g xs)) s = fold (\<lambda>x s. fold f (g x) s) xs s"
  by (induction xs arbitrary: s) auto

lemma proposals_by_position_flat:
  "proposals_by_position commits = fold (\<lambda>(p, t) tbl. propose p t tbl) (proposal_pairs commits) []"
  unfolding proposals_by_position_def proposal_pairs_def fold_concat_map
  by (intro fold_cong) (auto simp: fold_map o_def case_prod_unfold)

lemma set_proposal_pairs: "{t. (p, t) \<in> set (proposal_pairs commits)} = proposed commits p"
  by (force simp: proposal_pairs_def proposed_def)

lemma fold_propose:
  "map_of (fold (\<lambda>(p, t) tbl. propose p t tbl) prs tbl) p =
     (if {t. (p, t) \<in> set prs} = {} then map_of tbl p
      else Some ({t. (p, t) \<in> set prs} \<union> dget_default tbl p {}))"
proof (induction prs arbitrary: tbl)
  case Nil
  then show ?case by simp
next
  case (Cons x prs)
  obtain q t where "x = (q, t)" by (cases x)
  then show ?case
    using Cons.IH [of "propose q t tbl"]
    by (auto simp: propose_def dget_default_def split: option.splits)
qed

lemma lookup_proposals:
  "map_of (proposals_by_position commits) p =
     (if proposed commits p = {} then None else Some (proposed commits p))"
  unfolding proposals_by_position_flat fold_propose set_proposal_pairs
  by (simp add: dget_default_def)

lemma dict_ok_fold_propose:
  "dict_ok tbl \<Longrightarrow> dict_ok (fold (\<lambda>(p, t) tbl. propose p t tbl) prs tbl)"
  by (induction prs arbitrary: tbl) (auto simp: propose_def)

lemma dict_ok_proposals [simp]: "dict_ok (proposals_by_position commits)"
  by (simp add: proposals_by_position_flat dict_ok_fold_propose)

lemma finite_proposed [simp]: "finite (proposed commits p)"
proof -
  have "proposed commits p \<subseteq> snd ` set (proposal_pairs commits)"
    unfolding set_proposal_pairs [symmetric] by force
  then show ?thesis by (rule finite_subset) simp
qed

lemma lookup_filter:
  "dict_ok d \<Longrightarrow> map_of (filter (\<lambda>(k, v). P k v) d) k =
     (case map_of d k of None \<Rightarrow> None | Some v \<Rightarrow> if P k v then Some v else None)"
  by (induction d) (auto split: option.splits simp: map_of_eq_None_iff image_iff dest!: map_of_SomeD)

lemma lookup_disputes:
  "map_of (detect_disputes commits) p =
     (if 1 < card (proposed commits p) then Some (proposed commits p) else None)"
  by (auto simp: detect_disputes_def lookup_filter lookup_proposals)

lemma dict_ok_disputes [simp]: "dict_ok (detect_disputes commits)"
  by (simp add: detect_disputes_def distinct_map_filter)

lemma proposed_cong_mset: "mset commits = mset commits' \<Longrightarrow> proposed commits = proposed commits'"
  by (auto simp: proposed_def fun_eq_iff dest: mset_eq_setD)

subsection \<open>What the tally holds\<close>

text \<open>
  \<open>ballots\<close> lists the probabilities reported for a token at a position, in the order they are
  added up; \<open>accum\<close> adds a list to a bucket entry that may not exist yet.
\<close>

definition picks :: "('l \<Rightarrow> 'f option) \<Rightarrow> (int, 'l) dict \<Rightarrow> int \<Rightarrow> 'f list" where
  "picks mexp cs t = [the (mexp l). (t', l) \<leftarrow> cs, t' = t]"

definition node_ballots ::
  "('l \<Rightarrow> 'f option) \<Rightarrow> (int, (int, 'l) dict) dict \<Rightarrow> int \<Rightarrow> int \<Rightarrow> 'f list" where
  "node_ballots mexp positions p t =
     concat (map (\<lambda>(p', cs). if p' = p then picks mexp cs t else []) positions)"

definition ballots :: "('l \<Rightarrow> 'f option) \<Rightarrow> 'l scores \<Rightarrow> int \<Rightarrow> int \<Rightarrow> 'f list" where
  "ballots mexp scores p t =
     concat (map (\<lambda>(node_id, positions). node_ballots mexp positions p t) scores)"

lemma in_picks: "x \<in> set (picks mexp cs t) \<longleftrightarrow> (\<exists>l. (t, l) \<in> set cs \<and> x = the (mexp l))"
  by (auto simp: picks_def)

lemma in_node_ballots:
  "x \<in> set (node_ballots mexp ps p t) \<longleftrightarrow>
     (\<exists>cs l. (p, cs) \<in> set ps \<and> (t, l) \<in> set cs \<and> x = the (mexp l))"
  by (auto simp: node_ballots_def in_picks split: if_splits)

lemma in_ballots:
  "x \<in> set (ballots mexp scores p t) \<longleftrightarrow>
     (\<exists>n ps cs l. (n, ps) \<in> set scores \<and> (p, cs) \<in> set ps \<and> (t, l) \<in> set cs \<and> x = the (mexp l))"
  unfolding ballots_def by (auto simp: in_node_ballots)

definition touched :: "'l scores \<Rightarrow> int set" where
  "touched scores = {p. \<exists>node_id positions. (node_id, positions) \<in> set scores \<and> p \<in> fst ` set positions}"

lemma touched_rec:
  "touched [] = {}"
  "touched ((n, ps) # scores) = fst ` set ps \<union> touched scores"
  by (auto simp: touched_def)

fun accum :: "'f::{zero,plus} option \<Rightarrow> 'f list \<Rightarrow> 'f option" where
  "accum e [] = e"
| "accum e (x # xs) = accum (Some ((case e of None \<Rightarrow> 0 | Some v \<Rightarrow> v) + x)) xs"

lemma accum_append: "accum e (xs @ ys) = accum (accum e xs) ys"
  by (induction e xs rule: accum.induct) auto

lemma accum_Some: "accum (Some v) xs = Some (foldl (+) v xs)"
  by (induction xs arbitrary: v) auto

lemma accum_None: "accum None xs = (if xs = [] then None else Some (foldl (+) 0 xs))"
  by (cases xs) (auto simp: accum_Some)

definition no_overflow :: "('l \<Rightarrow> 'f option) \<Rightarrow> 'l scores \<Rightarrow> bool" where
  "no_overflow mexp scores \<longleftrightarrow>
     (\<forall>(node_id, positions) \<in> set scores. \<forall>(p, cs) \<in> set positions. \<forall>(t, l) \<in> set cs. mexp l \<noteq> None)"

lemma tally_candidates_lookup:
  assumes "\<forall>(t, l) \<in> set cs. mexp l \<noteq> None" and "dict_ok b"
  shows "\<exists>b'. tally_candidates mexp cs b = Inr b' \<and> dict_ok b' \<and>
           (\<forall>t. map_of b' t = accum (map_of b t) (picks mexp cs t))"
  using assms
proof (induction cs arbitrary: b)
  case Nil
  then show ?case by (simp add: tally_candidates_def picks_def)
next
  case (Cons x cs)
  obtain t l where x: "x = (t, l)" by (cases x)
  with Cons.prems obtain e where e: "mexp l = Some e" by auto
  let ?b = "dset t (dget_default b t 0 + e) b"
  obtain b' where "tally_candidates mexp cs ?b = Inr b'" "dict_ok b'"
    "\<forall>t'. map_of b' t' = accum (map_of ?b t') (picks mexp cs t')"
    using Cons.IH [of ?b] Cons.prems by auto
  then show ?case
    by (auto simp: tally_candidates_def x e picks_def dget_default_def)
qed

definition cell :: "(int, (int, 'f) dict) dict \<Rightarrow> int \<Rightarrow> int \<Rightarrow> 'f option" where
  "cell totals p t = map_of (dget_default totals p []) t"

definition totals_ok :: "(int, (int, 'f) dict) dict \<Rightarrow> bool" where
  "totals_ok totals \<longleftrightarrow> dict_ok totals \<and> (\<forall>b \<in> snd ` set totals. dict_ok b)"

lemma totals_ok_bucket: "totals_ok totals \<Longrightarrow> dict_ok (dget_default totals p [])"
  by (auto simp: totals_ok_def dget_default_def split: option.splits dest!: map_of_SomeD)

lemma totals_ok_dset:
  assumes "totals_ok totals" and "dict_ok b"
  shows "totals_ok (dset p b totals)"
proof -
  have "snd ` set (dset p b totals) \<subseteq> insert b (snd ` set totals)"
    by (induction totals) auto
  moreover have "dict_ok (dset p b totals)" using assms(1) by (simp add: totals_ok_def)
  ultimately show ?thesis using assms unfolding totals_ok_def by blast
qed

lemma cell_dset:
  "cell (dset p b totals) q t = (if q = p then map_of b t else cell totals q t)"
  by (simp add: cell_def dget_default_def)

definition tally_node ::
  "('l \<Rightarrow> 'f option) \<Rightarrow> (int, (int, 'l) dict) dict \<Rightarrow> (int, (int, 'f::{zero,plus}) dict) dict
   \<Rightarrow> (int, (int, 'f) dict) dict result" where
  "tally_node mexp positions totals =
     foldM (\<lambda>(pos, candidates) totals.
         rbind (tally_candidates mexp candidates (dget_default totals pos []))
           (\<lambda>bucket. Inr (dset pos bucket totals))) positions totals"

lemma tally_eq: "tally mexp scores = foldM (\<lambda>(node_id, positions). tally_node mexp positions) scores []"
  by (simp add: tally_def tally_node_def [abs_def])

lemma tally_node_lookup:
  assumes "\<forall>(p, cs) \<in> set positions. \<forall>(t, l) \<in> set cs. mexp l \<noteq> None" and "totals_ok totals"
  shows "\<exists>totals'. tally_node mexp positions totals = Inr totals' \<and> totals_ok totals' \<and>
           fst ` set totals' = fst ` set totals \<union> fst ` set positions \<and>
           (\<forall>p t. cell totals' p t = accum (cell totals p t) (node_ballots mexp positions p t))"
  using assms
proof (induction positions arbitrary: totals)
  case Nil
  then show ?case by (simp add: tally_node_def node_ballots_def)
next
  case (Cons x positions)
  obtain q cs where x: "x = (q, cs)" by (cases x)
  let ?b = "dget_default totals q []"
  have "\<forall>(t, l) \<in> set cs. mexp l \<noteq> None" using Cons.prems x by auto
  then obtain b' where b': "tally_candidates mexp cs ?b = Inr b'" "dict_ok b'"
    "\<forall>t. map_of b' t = accum (map_of ?b t) (picks mexp cs t)"
    using tally_candidates_lookup totals_ok_bucket [OF Cons.prems(2)] by blast
  let ?t = "dset q b' totals"
  obtain totals' where t': "tally_node mexp positions ?t = Inr totals'" "totals_ok totals'"
    "fst ` set totals' = fst ` set ?t \<union> fst ` set positions"
    "\<forall>p t. cell totals' p t = accum (cell ?t p t) (node_ballots mexp positions p t)"
    using Cons.IH [of ?t] Cons.prems totals_ok_dset [OF Cons.prems(2) b'(2)] by auto
  show ?case
  proof (intro exI conjI allI)
    show "tally_node mexp (x # positions) totals = Inr totals'"
      using b'(1) t'(1) by (simp add: tally_node_def x)
    show "fst ` set totals' = fst ` set totals \<union> fst ` set (x # positions)"
      using t'(3) x by auto
    show "cell totals' p t = accum (cell totals p t) (node_ballots mexp (x # positions) p t)" for p t
      using t'(4) b'(3) [folded cell_def]
      by (simp add: cell_dset node_ballots_def x accum_append)
  qed (rule t'(2))
qed

lemma tally_lookup_gen:
  assumes "no_overflow mexp scores" and "totals_ok totals"
  shows "\<exists>totals'. foldM (\<lambda>(node_id, positions). tally_node mexp positions) scores totals = Inr totals' \<and>
           totals_ok totals' \<and> fst ` set totals' = fst ` set totals \<union> touched scores \<and>
           (\<forall>p t. cell totals' p t = accum (cell totals p t) (ballots mexp scores p t))"
  using assms
proof (induction scores arbitrary: totals)
  case Nil
  then show ?case by (simp add: ballots_def touched_def)
next
  case (Cons x scores)
  obtain n ps where x: "x = (n, ps)" by (cases x)
  have "\<forall>(p, cs) \<in> set ps. \<forall>(t, l) \<in> set cs. mexp l \<noteq> None"
    and rest: "no_overflow mexp scores"
    using Cons.prems(1) x by (auto simp: no_overflow_def)
  from tally_node_lookup [OF this(1) Cons.prems(2)] obtain t1 where
    t1: "tally_node mexp ps totals = Inr t1" "totals_ok t1"
      "fst ` set t1 = fst ` set totals \<union> fst ` set ps"
      "\<forall>p t. cell t1 p t = accum (cell totals p t) (node_ballots mexp ps p t)" by blast
  from Cons.IH [OF rest t1(2)] obtain t2 where
    t2: "foldM (\<lambda>(node_id, positions). tally_node mexp positions) scores t1 = Inr t2" "totals_ok t2"
      "fst ` set t2 = fst ` set t1 \<union> touched scores"
      "\<forall>p t. cell t2 p t = accum (cell t1 p t) (ballots mexp scores p t)" by blast
  have "touched (x # scores) = fst ` set ps \<union> touched scores"
    by (auto simp: touched_def x)
  then have "fst ` set t2 = fst ` set totals \<union> touched (x # scores)"
    using t1(3) t2(3) by auto
  with t1 t2 show ?case by (auto simp: x ballots_def accum_append)
qed

text \<open>The tally, entry by entry: for each position somebody reported on, a bucket that maps each
  token somebody scored there to the sum of its probabilities, in order of report.\<close>

lemma tally_lookup:
  assumes "no_overflow mexp scores"
  obtains totals where "tally mexp scores = Inr totals" and "totals_ok totals"
    and "fst ` set totals = touched scores"
    and "\<And>p t. cell totals p t =
      (if ballots mexp scores p t = [] then None else Some (foldl (+) 0 (ballots mexp scores p t)))"
proof -
  have "totals_ok ([] :: (int, (int, 'b) dict) dict)" by (simp add: totals_ok_def)
  from tally_lookup_gen [OF assms this] obtain totals where
    "tally mexp scores = Inr totals" "totals_ok totals" "fst ` set totals = touched scores"
    "\<forall>p t. cell totals p t = accum (cell [] p t) (ballots mexp scores p t)"
    unfolding tally_eq by auto
  then show thesis by (intro that) (auto simp: cell_def dget_default_def accum_None)
qed

subsection \<open>The winner of a position\<close>

definition score :: "('l \<Rightarrow> 'f::{zero,plus} option) \<Rightarrow> 'l scores \<Rightarrow> int \<Rightarrow> int \<Rightarrow> 'f" where
  "score mexp scores p t = foldl (+) 0 (ballots mexp scores p t)"

definition is_winner :: "('l \<Rightarrow> 'f::{zero,plus,linorder} option) \<Rightarrow> 'l scores \<Rightarrow> int \<Rightarrow> int \<Rightarrow> bool" where
  "is_winner mexp scores p t \<longleftrightarrow>
     ballots mexp scores p t \<noteq> [] \<and>
     (\<forall>t'. ballots mexp scores p t' \<noteq> [] \<longrightarrow>
        score mexp scores p t' < score mexp scores p t \<or>
        (score mexp scores p t' = score mexp scores p t \<and> t \<le> t'))"

lemma is_winner_unique: "is_winner mexp scores p t \<Longrightarrow> is_winner mexp scores p t' \<Longrightarrow> t = t'"
proof -
  assume w: "is_winner mexp scores p t" "is_winner mexp scores p t'"
  then have "score mexp scores p t' < score mexp scores p t \<or>
        (score mexp scores p t' = score mexp scores p t \<and> t \<le> t')"
    and "score mexp scores p t < score mexp scores p t' \<or>
        (score mexp scores p t = score mexp scores p t' \<and> t' \<le> t)"
    by (simp_all add: is_winner_def)
  then show ?thesis by auto
qed

lemma key_less_trans_neg: "\<not> key_less a b \<Longrightarrow> \<not> key_less b c \<Longrightarrow> \<not> key_less a c"
  by (auto simp: key_less_def)

lemma key_less_asym: "key_less a b \<Longrightarrow> \<not> key_less b a"
  by (auto simp: key_less_def)

lemma fold_max:
  defines "pick \<equiv> \<lambda>kv best. if key_less best kv then kv else best"
  shows "fold pick kvs kv \<in> insert kv (set kvs) \<and>
         (\<forall>kv' \<in> insert kv (set kvs). \<not> key_less (fold pick kvs kv) kv')"
proof (induction kvs arbitrary: kv)
  case Nil
  then show ?case by (simp add: key_less_def)
next
  case (Cons x kvs)
  let ?s = "pick x kv"
  have s: "?s = x \<or> ?s = kv" "\<not> key_less ?s x" "\<not> key_less ?s kv"
    using key_less_asym by (auto simp: pick_def key_less_def)
  have IH: "fold pick kvs ?s \<in> insert ?s (set kvs)"
    "\<forall>kv' \<in> insert ?s (set kvs). \<not> key_less (fold pick kvs ?s) kv'"
    using Cons.IH [of ?s] by blast+
  then have "\<not> key_less (fold pick kvs ?s) x" "\<not> key_less (fold pick kvs ?s) kv"
    using s(2,3) key_less_trans_neg by blast+
  with IH s(1) show ?case by auto
qed

lemma max_item_spec:
  assumes "kvs \<noteq> []"
  obtains kv where "max_item kvs = Inr kv" and "kv \<in> set kvs"
    and "\<And>kv'. kv' \<in> set kvs \<Longrightarrow> \<not> key_less kv kv'"
proof -
  from assms obtain x xs where "kvs = x # xs" by (cases kvs) auto
  with fold_max [of xs x] show thesis by (intro that) auto
qed

definition top_token :: "(int, 'f::linorder) dict \<Rightarrow> int" where
  "top_token candidates = (case max_item candidates of Inl _ \<Rightarrow> 0 | Inr kv \<Rightarrow> fst kv)"

lemma top_is_winner:
  assumes "dict_ok b"
    and "\<And>t. map_of b t = (if ballots mexp scores p t = [] then None else Some (score mexp scores p t))"
    and "b \<noteq> []"
  shows "is_winner mexp scores p (top_token b)"
proof -
  obtain kv where kv: "max_item b = Inr kv" "kv \<in> set b"
    "\<And>kv'. kv' \<in> set b \<Longrightarrow> \<not> key_less kv kv'"
    using max_item_spec [OF assms(3)] by blast
  then have "map_of b (fst kv) = Some (snd kv)" using assms(1) by simp
  then have k: "ballots mexp scores p (fst kv) \<noteq> []" "snd kv = score mexp scores p (fst kv)"
    by (simp_all add: assms(2) split: if_splits)
  have "score mexp scores p t' < snd kv \<or> (score mexp scores p t' = snd kv \<and> fst kv \<le> t')"
    if "ballots mexp scores p t' \<noteq> []" for t'
  proof -
    have "map_of b t' = Some (score mexp scores p t')" using assms(2) that by simp
    then have "\<not> key_less kv (t', score mexp scores p t')"
      by (intro kv(3) map_of_SomeD)
    then show ?thesis by (auto simp: key_less_def)
  qed
  with k kv(1) show ?thesis by (simp add: is_winner_def top_token_def)
qed

subsection \<open>All outcomes of \<open>resolve_disputes\<close>\<close>

lemma tally_overflow:
  assumes "\<not> no_overflow mexp scores"
  shows "tally mexp scores = Inl OverflowError"
proof -
  have c: "tally_candidates mexp cs b = Inl OverflowError \<or>
      (\<exists>b'. tally_candidates mexp cs b = Inr b') \<and> (\<forall>(t, l) \<in> set cs. mexp l \<noteq> None)" for cs b
    unfolding tally_candidates_def
    by (rule foldM_dichotomy [where P = "\<lambda>(t, l). mexp l \<noteq> None"]) (auto split: option.splits)
  have c1: "tally_candidates mexp cs b = Inl e \<Longrightarrow> e = OverflowError"
    and c2: "tally_candidates mexp cs b = Inr b' \<Longrightarrow> (t, l) \<in> set cs \<Longrightarrow> mexp l \<noteq> None"
    for cs b e b' t l
    using c [of cs b] by auto
  have n: "tally_node mexp ps d = Inl OverflowError \<or>
      (\<exists>d'. tally_node mexp ps d = Inr d') \<and>
      (\<forall>(p, cs) \<in> set ps. \<forall>(t, l) \<in> set cs. mexp l \<noteq> None)" for ps d
    unfolding tally_node_def
    by (rule foldM_dichotomy)
       (auto simp: rbind_def split: prod.splits sum.splits dest: c1 c2)
  have "tally mexp scores = Inl OverflowError \<or>
      (\<exists>d'. tally mexp scores = Inr d') \<and>
      (\<forall>x \<in> set scores. case x of (n, ps) \<Rightarrow> \<forall>(p, cs) \<in> set ps. \<forall>(t, l) \<in> set cs. mexp l \<noteq> None)"
    unfolding tally_eq
    by (rule foldM_dichotomy) (use n in \<open>auto split: prod.splits\<close>)
  with assms show ?thesis unfolding no_overflow_def by blast
qed

text \<open>A position on which nobody scored any token, though somebody mentioned it.\<close>

definition blank_position :: "('l \<Rightarrow> 'f option) \<Rightarrow> 'l scores \<Rightarrow> bool" where
  "blank_position mexp scores \<longleftrightarrow> (\<exists>p \<in> touched scores. \<forall>t. ballots mexp scores p t = [])"

text \<open>The last loop: a winner for each position, or no maximum of nothing.\<close>

lemma pick_winners:
  fixes totals :: "(int, (int, 'f::{zero,plus,linorder}) dict) dict"
  defines "body \<equiv> \<lambda>(pos, candidates :: (int, 'f) dict) winners. rbind (max_item candidates) (\<lambda>kv. Inr (dset pos (fst kv) winners))"
  shows "(p, []) \<in> set totals \<Longrightarrow> foldM body totals [] = Inl ValueError"
    and "(\<And>p b. (p, b) \<in> set totals \<Longrightarrow> b \<noteq> []) \<Longrightarrow>
      foldM body totals [] = Inr (fold (\<lambda>(p, b) w. dset p (top_token b) w) totals [])"
proof -
  assume empty: "(p, []) \<in> set totals"
  have "foldM body totals [] = Inl ValueError \<or>
      (\<exists>w. foldM body totals [] = Inr w) \<and> (\<forall>x\<in>set totals. snd x \<noteq> [])"
  proof (rule foldM_dichotomy)
    fix x and w :: "(int, int) dict"
    show "body x w = Inl ValueError \<or> (\<exists>w'. body x w = Inr w') \<and> snd x \<noteq> []"
      by (cases x; cases "snd x") (auto simp: body_def)
  qed
  with empty show "foldM body totals [] = Inl ValueError" by force
next
  assume ne: "\<And>p b. (p, b) \<in> set totals \<Longrightarrow> b \<noteq> []"
  show "foldM body totals [] = Inr (fold (\<lambda>(p, b) w. dset p (top_token b) w) totals [])"
  proof (rule foldM_pure)
    fix x and w :: "(int, int) dict" assume "x \<in> set totals"
    moreover obtain p b where x: "x = (p, b)" by (cases x)
    ultimately obtain kv where "max_item b = Inr kv" using ne max_item_spec by metis
    then show "body x w = Inr ((case x of (p, b) \<Rightarrow> dset p (top_token b)) w)" by (simp add: x top_token_def body_def)
  qed
qed

lemma winners_of_totals:
  assumes "totals_ok totals" and "fst ` set totals = touched scores" and "\<And>p. map_of totals p \<noteq> Some []"
    and "\<And>p t. cell totals p t = (if ballots mexp scores p t = [] then None else Some (score mexp scores p t))"
  shows "let w = fold (\<lambda>(p, b) w. dset p (top_token b) w) totals [] in
    foldM (\<lambda>(pos, candidates) winners. rbind (max_item candidates) (\<lambda>kv. Inr (dset pos (fst kv) winners))) totals [] = Inr w \<and>
    dict_ok w \<and> (\<forall>p. if p \<in> touched scores then \<exists>t. map_of w p = Some t \<and> is_winner mexp scores p t else map_of w p = None)"
proof -
  let ?w = "fold (\<lambda>(p, b) w. dset p (top_token b) w) totals []"
  have ne: "b \<noteq> []" if "(p, b) \<in> set totals" for p b
    using that assms(1,3) by (metis totals_ok_def map_of_eq_Some_iff)
  have "if p \<in> touched scores then \<exists>t. map_of ?w p = Some t \<and> is_winner mexp scores p t else map_of ?w p = None" for p
  proof -
    have w: "map_of ?w p = (case map_of totals p of None \<Rightarrow> None | Some b \<Rightarrow> Some (top_token b))"
      using lookup_fold_dset [of totals "\<lambda>_ b. top_token b" "[]" p] assms(1)
      by (simp add: totals_ok_def split: option.splits)
    have dom: "p \<in> touched scores \<longleftrightarrow> (\<exists>b. map_of totals p = Some b)"
      using assms(2) by (metis map_of_eq_None_iff not_Some_eq)
    show ?thesis
    proof (cases "map_of totals p")
      case (Some b)
      have "dict_ok b" using totals_ok_bucket [OF assms(1), of p] Some by (simp add: dget_default_def)
      moreover have "map_of b t = (if ballots mexp scores p t = [] then None else Some (score mexp scores p t))" for t
        using assms(4) [of p t] Some by (simp add: cell_def dget_default_def)
      ultimately have "is_winner mexp scores p (top_token b)"
        using ne [OF map_of_SomeD [OF Some]] by (intro top_is_winner) auto
      with Some dom w show ?thesis by simp
    qed (use dom w in simp)
  qed
  moreover have "dict_ok ?w" by (rule dict_ok_fold_dset) simp
  moreover have "foldM (\<lambda>(pos, candidates) winners. rbind (max_item candidates) (\<lambda>kv. Inr (dset pos (fst kv) winners))) totals [] = Inr ?w"
    by (rule pick_winners(2)) (rule ne)
  ultimately show ?thesis unfolding Let_def by blast
qed

lemma resolve_disputes_cases:
  "\<not> no_overflow mexp scores \<Longrightarrow> resolve_disputes mexp scores = Inl OverflowError"
  "no_overflow mexp scores \<Longrightarrow> blank_position mexp scores \<Longrightarrow>
     resolve_disputes mexp scores = Inl ValueError"
  "no_overflow mexp scores \<Longrightarrow> \<not> blank_position mexp scores \<Longrightarrow>
     \<exists>w. resolve_disputes mexp scores = Inr w \<and> dict_ok w \<and>
       (\<forall>p. if p \<in> touched scores then \<exists>t. map_of w p = Some t \<and> is_winner mexp scores p t
            else map_of w p = None)"
proof -
  show "resolve_disputes mexp scores = Inl OverflowError" if "\<not> no_overflow mexp scores"
    by (simp add: resolve_disputes_def tally_overflow [OF that])
  assume ok: "no_overflow mexp scores"
  obtain totals where totals: "tally mexp scores = Inr totals" "totals_ok totals"
    "fst ` set totals = touched scores"
    "\<And>p t. cell totals p t =
      (if ballots mexp scores p t = [] then None else Some (score mexp scores p t))"
    using tally_lookup [OF ok] unfolding score_def by blast
  have res: "resolve_disputes mexp scores = foldM (\<lambda>(pos, candidates) winners.
      rbind (max_item candidates) (\<lambda>kv. Inr (dset pos (fst kv) winners))) totals []"
    by (simp add: resolve_disputes_def totals(1))
  have "b = [] \<longleftrightarrow> (\<forall>t. ballots mexp scores p t = [])" if "map_of totals p = Some b" for p b
  proof -
    have "b = [] \<longleftrightarrow> (\<forall>t. cell totals p t = None)"
      using that by (cases b) (auto simp: cell_def dget_default_def)
    then show ?thesis by (simp add: totals(4))
  qed
  moreover have "p \<in> touched scores \<longleftrightarrow> (\<exists>b. map_of totals p = Some b)" for p
    using totals(3) by (metis map_of_eq_None_iff not_Some_eq)
  ultimately have blank: "blank_position mexp scores \<longleftrightarrow> (\<exists>p. map_of totals p = Some [])"
    unfolding blank_position_def by metis
  show "resolve_disputes mexp scores = Inl ValueError" if "blank_position mexp scores"
    using that pick_winners(1) [OF map_of_SomeD] unfolding res blank by blast
  show "\<exists>w. resolve_disputes mexp scores = Inr w \<and> dict_ok w \<and>
      (\<forall>p. if p \<in> touched scores then \<exists>t. map_of w p = Some t \<and> is_winner mexp scores p t
           else map_of w p = None)" if "\<not> blank_position mexp scores"
    using winners_of_totals [OF totals(2,3) _ totals(4)] that unfolding res blank Let_def by blast
qed

lemma resolve_InrD:
  assumes "resolve_disputes mexp scores = Inr w"
  shows "no_overflow mexp scores" and "\<not> blank_position mexp scores" and "dict_ok w"
    and "map_of w p = Some t \<longleftrightarrow> p \<in> touched scores \<and> is_winner mexp scores p t"
    and "p \<in> fst ` set w \<longleftrightarrow> p \<in> touched scores"
proof -
  show ok: "no_overflow mexp scores"
    using assms resolve_disputes_cases(1) [of mexp scores] by auto
  show nb: "\<not> blank_position mexp scores"
    using assms resolve_disputes_cases(2) [OF ok] by auto
  have dw: "dict_ok w" and wp: "if p \<in> touched scores then \<exists>t. map_of w p = Some t \<and> is_winner mexp scores p t
      else map_of w p = None" for p
    using resolve_disputes_cases(3) [OF ok nb] unfolding assms Inr_inject by blast+
  show "dict_ok w" by (rule dw)
  show "map_of w p = Some t \<longleftrightarrow> p \<in> touched scores \<and> is_winner mexp scores p t"
  proof (cases "p \<in> touched scores")
    case True
    with wp obtain t' where "map_of w p = Some t'" "is_winner mexp scores p t'" by metis
    with True show ?thesis using is_winner_unique by (metis option.inject)
  next
    case False
    with wp show ?thesis by (metis option.distinct(1))
  qed
  show "p \<in> fst ` set w \<longleftrightarrow> p \<in> touched scores"
    using wp [of p] map_of_eq_None_iff [of w p] by (auto split: if_splits)
qed

subsection \<open>The order of reports\<close>

text \<open>
  The interface the agreement argument needs of a way to add up ballots: the result depends
  on the multiset of the ballots only. Exact addition provides it; the rounding addition of
  theory \<open>Float64\<close> does not.
\<close>

locale fair_sum =
  fixes sum_up :: "'f list \<Rightarrow> 'f"
  assumes sum_up_mset: "mset xs = mset ys \<Longrightarrow> sum_up xs = sum_up ys"
begin

lemma sum_up_concat:
  assumes "mset reports = mset reports'"
  shows "sum_up (concat (map g reports)) = sum_up (concat (map g reports'))"
proof (rule sum_up_mset)
  have "mset (concat (map g rs)) = (\<Sum>r\<in>#mset rs. mset (g r))" for rs
    by (simp add: mset_concat o_def flip: sum_mset_sum_list)
  then show "mset (concat (map g reports)) = mset (concat (map g reports'))"
    using assms by metis
qed

end

lemma foldl_plus: "foldl (+) (a::'f::comm_monoid_add) xs = a + sum_list xs"
  by (induction xs arbitrary: a) (auto simp: add.assoc)

interpretation exact: fair_sum "foldl (+) (0::'f::comm_monoid_add)"
  by unfold_locales (simp add: foldl_plus sum_mset_sum_list [symmetric])

lemma score_perm:
  fixes mexp :: "'l \<Rightarrow> 'f::{comm_monoid_add,linorder} option"
  assumes "mset scores = mset scores'"
  shows "score mexp scores p t = score mexp scores' p t"
  unfolding score_def ballots_def by (rule exact.sum_up_concat [OF assms])

lemma no_ballots_perm:
  assumes "mset scores = mset scores'"
  shows "ballots mexp scores p t = [] \<longleftrightarrow> ballots mexp scores' p t = []"
  using mset_eq_setD [OF assms] by (auto simp: ballots_def)

lemma reports_perm:
  assumes "mset scores = mset scores'"
  shows "no_overflow mexp scores = no_overflow mexp scores'"
    and "touched scores = touched scores'"
    and "blank_position mexp scores = blank_position mexp scores'"
  using mset_eq_setD [OF assms]
  by (simp_all add: no_overflow_def touched_def blank_position_def no_ballots_perm [OF assms])

lemma winner_sums:
  assumes "mset scores = mset scores'" and "score mexp scores = score mexp scores'"
  shows "is_winner mexp scores = is_winner mexp scores'"
  by (simp add: is_winner_def fun_eq_iff assms(2) no_ballots_perm [OF assms(1)])

lemma winner_perm:
  fixes mexp :: "'l \<Rightarrow> 'f::{comm_monoid_add,linorder} option"
  assumes "mset scores = mset scores'"
  shows "is_winner mexp scores = is_winner mexp scores'"
  by (rule winner_sums [OF assms]) (simp add: fun_eq_iff score_perm [OF assms])

subsection \<open>The merged state\<close>

lemma merge_lookup:
  "map_of (merge_consensus set_iter shared_x commits resolved) p =
     (if proposed commits p = {} then map_of shared_x p
      else Some (case map_of resolved p of Some w \<Rightarrow> w | None \<Rightarrow> hd (set_iter (proposed commits p))))"
proof -
  have "merge_consensus set_iter shared_x commits resolved =
      fold (\<lambda>(pos, tokens) upd.
        dset pos (case map_of resolved pos of Some w \<Rightarrow> w | None \<Rightarrow> hd (set_iter tokens)) upd)
        (proposals_by_position commits) shared_x"
    unfolding merge_consensus_def by (intro fold_cong) (auto split: option.splits)
  then show ?thesis
    using lookup_fold_dset [of "proposals_by_position commits"
        "\<lambda>pos tokens. case map_of resolved pos of Some w \<Rightarrow> w | None \<Rightarrow> hd (set_iter tokens)" shared_x p]
    by (simp add: lookup_proposals)
qed

lemma dict_ok_merge: "dict_ok shared_x \<Longrightarrow> dict_ok (merge_consensus set_iter shared_x commits resolved)"
proof -
  have "dict_ok d \<Longrightarrow> dict_ok (fold (\<lambda>(pos, tokens) updated.
       case map_of resolved pos of
         Some winner \<Rightarrow> dset pos winner updated
       | None \<Rightarrow> dset pos (hd (set_iter tokens)) updated) xs d)" for xs d
    by (induction xs arbitrary: d) (auto split: option.splits)
  then show "dict_ok shared_x \<Longrightarrow> ?thesis" by (simp add: merge_consensus_def)
qed

text \<open>What is known of the order a set is iterated in: it lists the elements, each once.\<close>

definition set_order :: "(int set \<Rightarrow> int list) \<Rightarrow> bool" where
  "set_order set_iter \<longleftrightarrow> (\<forall>S. finite S \<longrightarrow> set (set_iter S) = S \<and> distinct (set_iter S))"

lemma set_order_sorted: "set_order sorted_list_of_set"
  by (simp add: set_order_def)

lemma set_order_singleton: "set_order set_iter \<Longrightarrow> set_iter {t} = [t]"
proof -
  assume "set_order set_iter"
  then have "set (set_iter {t}) = {t}" "distinct (set_iter {t})" by (auto simp: set_order_def)
  then show ?thesis
    by (metis distinct_card card.empty card_insert_disjoint empty_iff finite.emptyI
        length_0_conv length_Suc_conv list.set_intros(1) singletonD)
qed

lemma card_le_1_cases: "finite S \<Longrightarrow> \<not> 1 < card S \<Longrightarrow> S = {} \<or> (\<exists>t. S = {t})"
  by (metis card_0_eq card_1_singletonE less_one linorder_neqE_nat)

text \<open>The agreement that everything rests on. Two participants that start a sync from the same
  shared state and end up with the same commits and the same reports, each in whatever order
  they came in, hold the same shared state afterwards, whatever order their Python iterates
  sets in, as long as the sums they compute are the same.\<close>

lemma sync_agreement:
  assumes "set_order iter_a" and "set_order iter_b"
    and "map_of x_a = map_of x_b"
    and "mset commits_a = mset commits_b"
    and reports: "mset scores_a = mset scores_b" "score mexp scores_a = score mexp scores_b"
    and w_a: "resolve_disputes mexp scores_a = Inr w_a" and w_b: "resolve_disputes mexp scores_b = Inr w_b"
    and decided: "\<forall>p. map_of (detect_disputes commits_a) p \<noteq> None \<longrightarrow> p \<in> touched scores_a"
  shows "map_of (merge_consensus iter_a x_a commits_a w_a) =
         map_of (merge_consensus iter_b x_b commits_b w_b)"
proof
  fix p
  have same: "proposed commits_a = proposed commits_b" by (rule proposed_cong_mset [OF assms(4)])
  have win: "map_of w_a q = Some t \<longleftrightarrow> map_of w_b q = Some t" for q t
    by (simp only: resolve_InrD(4) [OF w_a] resolve_InrD(4) [OF w_b]
        reports_perm(2) [OF reports(1)] winner_sums [OF reports])
  then have w: "map_of w_a = map_of w_b" by (intro ext) (metis not_Some_eq)
  have "proposed commits_b p = {} \<or> (\<exists>t. proposed commits_b p = {t})" if "map_of w_b p = None"
  proof -
    have "p \<notin> touched scores_a"
      using that w resolve_InrD(5) [OF w_a, of p] by (metis map_of_eq_None_iff)
    then have "map_of (detect_disputes commits_a) p = None" using decided by blast
    then show ?thesis
      using card_le_1_cases [OF finite_proposed] unfolding lookup_disputes same
      by (metis option.distinct(1))
  qed
  then show "map_of (merge_consensus iter_a x_a commits_a w_a) p =
      map_of (merge_consensus iter_b x_b commits_b w_b) p"
    using set_order_singleton [OF assms(1)] set_order_singleton [OF assms(2)]
    by (auto simp: merge_lookup same w assms(3) split: option.splits)
qed

subsection \<open>Properties\<close>

text \<open>\<open>detect_disputes\<close> is exact: its table has an entry for a position exactly when more than
  one distinct token was proposed there, by anyone, and the entry is the set of all tokens
  proposed there.\<close>

lemma detect_disputes_exact:
  "dict_ok (detect_disputes commits) \<and>
   map_of (detect_disputes commits) pos =
     (let tokens = {token. \<exists>node_id positions conf. (node_id, positions) \<in> set commits \<and>
                             (pos, (token, conf)) \<in> set positions}
      in if card tokens > 1 then Some tokens else None)"
  unfolding Let_def proposed_def [symmetric] by (simp add: lookup_disputes)



text \<open>C17: under exact addition the outcome does not depend on the order in which the reports came
  in: two participants that hold the same reports, each in its own order, get the same winner
  at every position, or raise the same exception.\<close>

theorem resolve_disputes_agreement:
  fixes mexp :: "'l \<Rightarrow> 'f::{comm_monoid_add,linorder} option"
  assumes "mset scores = mset scores'"
  shows "map_sum id map_of (resolve_disputes mexp scores) =
         map_sum id map_of (resolve_disputes mexp scores')"
proof (cases "no_overflow mexp scores \<and> \<not> blank_position mexp scores")
  case False
  then show ?thesis
    using resolve_disputes_cases(1,2) [of mexp scores] resolve_disputes_cases(1,2) [of mexp scores']
      reports_perm(1,3) [OF assms, of mexp]
    by (cases "no_overflow mexp scores") auto
next
  case True
  then obtain w w' where
    w: "resolve_disputes mexp scores = Inr w" "resolve_disputes mexp scores' = Inr w'"
    using resolve_disputes_cases(3) [of mexp scores] resolve_disputes_cases(3) [of mexp scores']
    by (auto simp: reports_perm [OF assms])
  have "map_of w p = Some t \<longleftrightarrow> map_of w' p = Some t" for p t
    by (simp only: resolve_InrD(4) [OF w(1)] resolve_InrD(4) [OF w(2)]
        reports_perm(2) [OF assms] winner_perm [OF assms])
  then have "map_of w = map_of w'" by (intro ext) (metis not_Some_eq)
  with w show ?thesis by simp
qed

theorem resolve_disputes_agreement_witness:
  "let a = (''node-a'', [(10 :: int, [(100 :: int, 3 :: int), (200, 1)])]);
       b = (''node-b'', [(10, [(200, 4), (100, 1)])])
   in map_sum id map_of (resolve_disputes Some [a, b]) = map_sum id map_of (resolve_disputes Some [b, a])
      \<and> resolve_disputes Some [a, b] = Inr [(10, 200)]"
proof -
  let ?a = "(''node-a'', [(10 :: int, [(100 :: int, 3 :: int), (200, 1)])])"
  let ?b = "(''node-b'', [(10 :: int, [(200 :: int, 4 :: int), (100, 1)])])"
  have "mset [?a, ?b] = mset [?b, ?a]" by simp
  moreover have "resolve_disputes Some [?a, ?b] = Inr [(10, 200)]"
    by (simp add: resolve_disputes_def tally_def tally_candidates_def dget_default_def key_less_def)
  ultimately show ?thesis
    using resolve_disputes_agreement [of "[?a, ?b]" "[?b, ?a]" Some] by (simp add: Let_def)
qed

text \<open>Nobody can veto. The winner of a position scores at least every single probability any
  participant reported there, for whichever token, so a candidate somebody is confident in
  only loses to one that is rated at least as high; a product of probabilities would not
  have this property.\<close>

lemma no_veto:
  assumes "resolve_disputes math_exp scores = Inr w" and "map_of w p = Some winner"
    and "(node_id, positions) \<in> set scores" and "(p, cs) \<in> set positions" and "(t, l) \<in> set cs"
  shows "exp l \<le> score math_exp scores p winner"
proof -
  note ok = resolve_InrD(1) [OF assms(1)]
  have win: "is_winner math_exp scores p winner" using assms(2) resolve_InrD(4) [OF assms(1)] by blast
  have some: "math_exp l' = Some (exp l')"
    if "(n, ps) \<in> set scores" "(p', cs') \<in> set ps" "(t', l') \<in> set cs'" for n ps p' cs' t' l'
    using ok that by (force simp: no_overflow_def math_exp_def split: if_splits)
  have mem: "x \<in> set (ballots math_exp scores p t) \<longleftrightarrow>
      (\<exists>n ps cs l. (n, ps) \<in> set scores \<and> (p, cs) \<in> set ps \<and> (t, l) \<in> set cs \<and> x = exp l)" for x
    unfolding in_ballots using some by (metis option.sel)
  have here: "exp l \<in> set (ballots math_exp scores p t)" using mem assms(3-5) by blast
  moreover have "0 \<le> x" if "x \<in> set (ballots math_exp scores p t)" for x
    using that mem by auto
  ultimately have "exp l \<le> score math_exp scores p t"
    by (auto simp: score_def foldl_plus intro: member_le_sum_list)
  moreover have "score math_exp scores p t \<le> score math_exp scores p winner"
  proof -
    have "ballots math_exp scores p t \<noteq> []" using here by auto
    with win have "score math_exp scores p t < score math_exp scores p winner \<or>
        score math_exp scores p t = score math_exp scores p winner" by (auto simp: is_winner_def)
    then show ?thesis by auto
  qed
  ultimately show ?thesis by simp
qed

lemma math_exp_ln: "0 < q \<Longrightarrow> q \<le> 1 \<Longrightarrow> math_exp (ln q) = Some q"
  by (simp add: math_exp_def)

text \<open>The scores of \<open>test_bland_compromise_loses_under_weighted_average\<close> in the repository's tests.\<close>

definition bland_scores :: "real scores" where
  "bland_scores =
     [(''node-a'', [(10, [(100, ln (99/100)), (200, ln (3/1000)), (300, ln (3/10))])]),
      (''node-b'', [(10, [(100, ln (5/1000)), (200, ln (98/100)), (300, ln (3/10))])])]"

lemma bland_resolved: "resolve_disputes math_exp bland_scores = Inr [(10, 100)]"
  by (simp add: resolve_disputes_def tally_def tally_candidates_def bland_scores_def math_exp_ln
      dget_default_def key_less_def)

lemma no_veto_witness:
  "resolve_disputes math_exp bland_scores = Inr [(10, 100)] \<and>
   exp (ln (98/100)) \<le> score math_exp bland_scores 10 100"
proof -
  let ?cs = "[(100, ln (5/1000)), (200, ln (98/100)), (300, ln (3/10 :: real))] :: (int \<times> real) list"
  have "exp (ln (98/100)) \<le> score math_exp bland_scores 10 100"
    by (rule no_veto [OF bland_resolved, of 10 100 "''node-b''" "[(10, ?cs)]" ?cs 200])
       (simp_all add: bland_scores_def)
  with bland_resolved show ?thesis by simp
qed

text \<open>C18: what a sync does to the shared state. Positions nobody proposed on keep their token, and
  none is ever dropped; a proposed position takes the resolved winner if there is one, and
  otherwise, as long as every disputed position was resolved, the one token that was
  proposed for it: the set that \<open>next(iter(tokens))\<close> picks from never holds two.\<close>

theorem merge_consensus_exact:
  assumes "set_order set_iter"
    and "\<forall>p. map_of (detect_disputes commits) p \<noteq> None \<longrightarrow> map_of resolved p \<noteq> None"
    and "merged = merge_consensus set_iter shared_x commits resolved"
  shows "(proposed commits p = {} \<longrightarrow> map_of merged p = map_of shared_x p) \<and>
         (proposed commits p \<noteq> {} \<and> map_of resolved p \<noteq> None \<longrightarrow> map_of merged p = map_of resolved p) \<and>
         (proposed commits p \<noteq> {} \<and> map_of resolved p = None \<longrightarrow>
            (\<exists>token. proposed commits p = {token} \<and> map_of merged p = Some token))"
proof -
  have single: "\<exists>token. proposed commits p = {token}"
    if "proposed commits p \<noteq> {}" "map_of resolved p = None"
  proof -
    have "map_of (detect_disputes commits) p = None" using assms(2) that(2) by blast
    then have "\<not> 1 < card (proposed commits p)" by (simp add: lookup_disputes split: if_splits)
    with that(1) show ?thesis using card_le_1_cases [OF finite_proposed] by blast
  qed
  show ?thesis
  proof (cases "proposed commits p = {} \<or> map_of resolved p \<noteq> None")
    case True
    then show ?thesis by (auto simp: assms(3) merge_lookup)
  next
    case False
    with single obtain t where "proposed commits p = {t}" by blast
    with False show ?thesis
      by (simp add: assms(3) merge_lookup set_order_singleton [OF assms(1)])
  qed
qed

theorem merge_consensus_exact_witness:
  "map_of (merge_consensus sorted_list_of_set [(9, 1)]
     [(''node-a'', [(10, (500, 0 :: int)), (20, (700, 0))]), (''node-b'', [(10, (600, 0)), (20, (700, 0))])]
     [(10, 500)]) 20 = Some 700"
proof -
  let ?c = "[(''node-a'', [(10, (500, 0 :: int)), (20, (700, 0))]), (''node-b'', [(10, (600, 0)), (20, (700, 0))])]"
  have p: "proposed ?c 20 = {700}" by (simp add: proposed_rec)
  have "\<forall>q. map_of (detect_disputes ?c) q \<noteq> None \<longrightarrow> map_of [(10, 500)] q \<noteq> None"
    by (auto simp: detect_disputes_def proposals_by_position_def propose_def dget_default_def split: if_splits)
  from merge_consensus_exact [OF set_order_sorted this refl, where p = 20 and shared_x = "[(9, 1)]"]
  show ?thesis by (simp add: p)
qed

end
