(* ===== verification/Stop_Detection.thy ===== *)
theory Stop_Detection imports Prelude begin

section \<open>Stop-boundary detection\<close>

text \<open>
  \<open>diffusion/stop_detection.py\<close>: \<open>StopConfig\<close>, the state of a \<open>StopDetector\<close>, and its \<open>check\<close>,
  which returns the boundary and the new state. \<open>eos_run_start\<close> is the \<open>while\<close> loop. A check is
  looked at in two steps in the proofs: \<open>candidate\<close> says what boundary the shared state suggests
  (an outer \<open>None\<close> when nothing is committed yet, an inner one when it suggests none), and
  \<open>note_candidate\<close> what the detector makes of it.
\<close>

record stop_config =
  eos_id :: int
  mask_id :: int
  min_gen_length :: int
  stop_run_min :: int
  stop_confirmations :: int

record stop_detector =
  sd_cfg :: stop_config
  stop_pos :: "int option"
  pending_stop_pos :: "int option"
  pending_confirms :: int

definition StopDetector :: "stop_config \<Rightarrow> stop_detector" where
  "StopDetector cfg =
     \<lparr>sd_cfg = cfg, stop_pos = None, pending_stop_pos = None, pending_confirms = 0\<rparr>"

function eos_run_start :: "(int, int) dict \<Rightarrow> int \<Rightarrow> int \<Rightarrow> int \<Rightarrow> int" where
  "eos_run_start shared_x eos gen_start run_start =
     (if run_start > gen_start \<and>
         (case map_of shared_x (run_start - 1) of None \<Rightarrow> False | Some token \<Rightarrow> token = eos)
      then eos_run_start shared_x eos gen_start (run_start - 1)
      else run_start)"
  by pat_completeness auto
termination
  by (relation "measure (\<lambda>(shared_x, eos, gen_start, run_start). nat (run_start - gen_start))") auto

declare eos_run_start.simps [simp del]

definition check :: "stop_detector \<Rightarrow> (int, int) dict \<Rightarrow> int \<Rightarrow> int \<Rightarrow> int option \<times> stop_detector" where
  "check sd shared_x gen_start gen_end =
     (let cfg = sd_cfg sd;
          committed_positions = filter (\<lambda>p. map_of shared_x p \<noteq> None) [gen_start..gen_end - 1]
      in if committed_positions = [] then (stop_pos sd, sd)
      else
        (let frontier = Max (set committed_positions) + 1;
             run_start = eos_run_start shared_x (eos_id cfg) gen_start frontier;
             run_len = frontier - run_start
         in if frontier - gen_start > min_gen_length cfg \<and> run_len \<ge> stop_run_min cfg
         then
           (let candidate_stop = run_start;
                sd1 = (if Some candidate_stop = pending_stop_pos sd
                       then sd\<lparr>pending_confirms := pending_confirms sd + 1\<rparr>
                       else sd\<lparr>pending_stop_pos := Some candidate_stop, pending_confirms := 1\<rparr>);
                sd2 = (if pending_confirms sd1 \<ge> stop_confirmations cfg \<and>
                          (case stop_pos sd1 of None \<Rightarrow> True | Some s \<Rightarrow> candidate_stop < s)
                       then sd1\<lparr>stop_pos := Some candidate_stop\<rparr> else sd1)
            in (stop_pos sd2, sd2))
         else
           (let sd1 = sd\<lparr>pending_stop_pos := None, pending_confirms := 0\<rparr>
            in (stop_pos sd1, sd1))))"

subsection \<open>The frontier and the run before it\<close>

definition committed :: "(int, int) dict \<Rightarrow> int \<Rightarrow> int \<Rightarrow> int set" where
  "committed shared_x gen_start gen_end =
     {p. gen_start \<le> p \<and> p < gen_end \<and> map_of shared_x p \<noteq> None}"

definition frontier :: "(int, int) dict \<Rightarrow> int \<Rightarrow> int \<Rightarrow> int" where
  "frontier shared_x gen_start gen_end = Max (committed shared_x gen_start gen_end) + 1"

lemma set_committed:
  "set (filter (\<lambda>p. map_of shared_x p \<noteq> None) [gen_start..gen_end - 1]) =
     committed shared_x gen_start gen_end"
  by (auto simp: committed_def)

lemma finite_committed: "finite (committed shared_x gen_start gen_end)"
  by (rule finite_subset [of _ "{gen_start..gen_end}"]) (auto simp: committed_def)

lemma frontier_committed:
  assumes "committed shared_x gen_start gen_end \<noteq> {}"
  shows "frontier shared_x gen_start gen_end - 1 \<in> committed shared_x gen_start gen_end"
    and "gen_start < frontier shared_x gen_start gen_end"
    and "p \<in> committed shared_x gen_start gen_end \<Longrightarrow> p < frontier shared_x gen_start gen_end"
proof -
  show c: "frontier shared_x gen_start gen_end - 1 \<in> committed shared_x gen_start gen_end"
    using Max_in [OF finite_committed assms] by (simp add: frontier_def)
  then show "gen_start < frontier shared_x gen_start gen_end" by (simp add: committed_def)
  show "p < frontier shared_x gen_start gen_end" if "p \<in> committed shared_x gen_start gen_end"
    using Max_ge [OF finite_committed that] by (simp add: frontier_def)
qed

lemma eos_run_start_spec:
  assumes "gen_start \<le> f"
  shows "gen_start \<le> eos_run_start x eos gen_start f \<and> eos_run_start x eos gen_start f \<le> f \<and>
         (\<forall>p. eos_run_start x eos gen_start f \<le> p \<and> p < f \<longrightarrow> map_of x p = Some eos) \<and>
         (eos_run_start x eos gen_start f = gen_start \<or>
          map_of x (eos_run_start x eos gen_start f - 1) \<noteq> Some eos)"
  using assms
proof (induction x eos gen_start f rule: eos_run_start.induct)
  case (1 x eos gen_start f)
  show ?case
  proof (cases "f > gen_start \<and> map_of x (f - 1) = Some eos")
    case True
    then have unfold: "eos_run_start x eos gen_start f = eos_run_start x eos gen_start (f - 1)"
      by (simp add: eos_run_start.simps [of x eos gen_start f])
    have "p = f - 1 \<or> p < f - 1" if "p < f" for p using that by linarith
    with "1.IH" True show ?thesis unfolding unfold by fastforce
  next
    case False
    then have "eos_run_start x eos gen_start f = f"
      by (auto simp: eos_run_start.simps [of x eos gen_start f] split: option.splits)
    with False "1.prems" show ?thesis by auto
  qed
qed

lemma eos_run_start_cong:
  "map_of x = map_of y \<Longrightarrow> eos_run_start x eos gs f = eos_run_start y eos gs f"
proof (induction x eos gs f rule: eos_run_start.induct)
  case (1 x eos gs f)
  then show ?case
    by (simp add: eos_run_start.simps [of x eos gs f] eos_run_start.simps [of y eos gs f]
        split: option.splits)
qed

subsection \<open>A check in two steps\<close>

definition candidate ::
  "stop_config \<Rightarrow> (int, int) dict \<Rightarrow> int \<Rightarrow> int \<Rightarrow> int option option" where
  "candidate cfg shared_x gen_start gen_end =
     (if committed shared_x gen_start gen_end = {} then None
      else
        let f = frontier shared_x gen_start gen_end;
            r = eos_run_start shared_x (eos_id cfg) gen_start f
        in if f - gen_start > min_gen_length cfg \<and> f - r \<ge> stop_run_min cfg
           then Some (Some r) else Some None)"

fun note_candidate :: "stop_detector \<Rightarrow> int option option \<Rightarrow> stop_detector" where
  "note_candidate sd None = sd"
| "note_candidate sd (Some None) = sd\<lparr>pending_stop_pos := None, pending_confirms := 0\<rparr>"
| "note_candidate sd (Some (Some c)) =
     (let n = (if pending_stop_pos sd = Some c then pending_confirms sd + 1 else 1)
      in sd\<lparr>pending_stop_pos := Some c, pending_confirms := n,
            stop_pos := (if n \<ge> stop_confirmations (sd_cfg sd) \<and>
                            (case stop_pos sd of None \<Rightarrow> True | Some s \<Rightarrow> c < s)
                         then Some c else stop_pos sd)\<rparr>)"

lemma check_eq:
  "check sd shared_x gen_start gen_end =
     (let sd' = note_candidate sd (candidate (sd_cfg sd) shared_x gen_start gen_end)
      in (stop_pos sd', sd'))"
proof -
  have empty: "filter (\<lambda>p. map_of shared_x p \<noteq> None) [gen_start..gen_end - 1] = [] \<longleftrightarrow>
      committed shared_x gen_start gen_end = {}"
    unfolding set_committed [symmetric] by (rule set_empty [symmetric])
  show ?thesis
    unfolding check_def candidate_def empty frontier_def set_committed Let_def
    by (cases sd) (auto split: option.splits)
qed

lemma note_candidate_cfg [simp]: "sd_cfg (note_candidate sd c) = sd_cfg sd"
  by (cases "(sd, c)" rule: note_candidate.cases) (auto simp: Let_def)

lemma check_cfg [simp]: "sd_cfg (snd (check sd x gs ge)) = sd_cfg sd"
  by (simp add: check_eq Let_def)

lemma candidate_cong:
  assumes "map_of x = map_of y"
  shows "candidate cfg x gs ge = candidate cfg y gs ge"
proof -
  have "committed x gs ge = committed y gs ge" by (simp add: committed_def assms)
  then show ?thesis by (simp add: candidate_def frontier_def eos_run_start_cong [OF assms])
qed

lemma check_cong: "map_of x = map_of y \<Longrightarrow> check sd x gs ge = check sd y gs ge"
  using candidate_cong [of x y] by (simp add: check_eq)

lemma candidate_SomeD:
  assumes "candidate cfg x gs ge = Some (Some s)"
  shows "gs \<le> s \<and> s \<le> frontier x gs ge \<and> frontier x gs ge - 1 \<in> committed x gs ge \<and>
         frontier x gs ge - gs > min_gen_length cfg \<and> frontier x gs ge - s \<ge> stop_run_min cfg \<and>
         (\<forall>p. s \<le> p \<and> p < frontier x gs ge \<longrightarrow> map_of x p = Some (eos_id cfg))"
proof -
  let ?f = "frontier x gs ge"
  have ne: "committed x gs ge \<noteq> {}"
    using assms by (auto simp: candidate_def)
  then have s: "s = eos_run_start x (eos_id cfg) gs ?f"
    and "?f - gs > min_gen_length cfg" "?f - s \<ge> stop_run_min cfg"
    using assms by (auto simp: candidate_def Let_def split: if_splits)
  then show ?thesis
    using frontier_committed(1,2) [OF ne] eos_run_start_spec [of gs ?f x "eos_id cfg"] by simp
qed

text \<open>
  The order on detectors that no check goes against: once there is a boundary there always is
  one, and it never moves to a later position.
\<close>

definition boundary_before :: "stop_detector \<Rightarrow> stop_detector \<Rightarrow> bool" where
  "boundary_before a b \<longleftrightarrow>
     sd_cfg b = sd_cfg a \<and>
     (\<forall>s. stop_pos a = Some s \<longrightarrow> (\<exists>s'. stop_pos b = Some s' \<and> s' \<le> s))"

lemma note_candidate_before: "boundary_before sd (note_candidate sd c)"
  by (cases "(sd, c)" rule: note_candidate.cases)
     (auto simp: boundary_before_def Let_def split: option.splits)

type_synonym check_args = "(int, int) dict \<times> int \<times> int"

definition check_step :: "stop_detector \<Rightarrow> check_args \<Rightarrow> stop_detector" where
  "check_step sd args = (case args of (x, gs, ge) \<Rightarrow> snd (check sd x gs ge))"

lemma check_step_eq:
  "check_step sd (x, gs, ge) = note_candidate sd (candidate (sd_cfg sd) x gs ge)"
  by (simp add: check_step_def check_eq Let_def)

interpretation stop: progress_machine check_step "\<lambda>_. True" boundary_before
proof unfold_locales
  show "boundary_before s u" if "boundary_before s t" "boundary_before t u" for s t u
    using that by (fastforce simp: boundary_before_def)
  show "boundary_before sd (check_step sd args)" for sd args
    by (cases args) (simp add: check_step_eq note_candidate_before)
qed (auto simp: boundary_before_def)

lemma run_check_cfg: "sd_cfg (run_events check_step sd argss) = sd_cfg sd"
  using stop.run_before [of sd argss] by (simp add: boundary_before_def)

subsection \<open>Confirmations\<close>

text \<open>\<open>suggestions\<close> drops the checks that saw nothing committed; \<open>trailing\<close> counts how many of
  the last suggestions are for one boundary.\<close>

definition suggestions :: "stop_config \<Rightarrow> check_args list \<Rightarrow> int option list" where
  "suggestions cfg argss = [c. Some c \<leftarrow> map (\<lambda>(x, gs, ge). candidate cfg x gs ge) argss]"

definition trailing :: "int \<Rightarrow> int option list \<Rightarrow> nat" where
  "trailing c cs = length (takeWhile (\<lambda>d. d = Some c) (rev cs))"

lemma suggestions_snoc:
  "suggestions cfg (argss @ [(x, gs, ge)]) =
     suggestions cfg argss @ (case candidate cfg x gs ge of None \<Rightarrow> [] | Some c \<Rightarrow> [c])"
  by (simp add: suggestions_def split: option.splits)

lemma trailing_snoc:
  "trailing c (cs @ [d]) = (if d = Some c then Suc (trailing c cs) else 0)"
  by (simp add: trailing_def)

text \<open>At some point of the history the last \<open>stop_confirmations\<close> suggestions, at least one, were
  all for \<open>s\<close>.\<close>

definition confirmed :: "stop_config \<Rightarrow> check_args list \<Rightarrow> int \<Rightarrow> bool" where
  "confirmed cfg argss s \<longleftrightarrow>
     (\<exists>k \<le> length argss. 0 < trailing s (suggestions cfg (take k argss)) \<and>
        stop_confirmations cfg \<le> int (trailing s (suggestions cfg (take k argss))))"

lemma confirmed_later: "confirmed cfg argss s \<Longrightarrow> confirmed cfg (argss @ [a]) s"
  unfolding confirmed_def by (metis le_SucI length_append_singleton take_append append_Nil2 diff_is_0_eq take0)

lemma confirmed_now:
  "0 < trailing s (suggestions cfg argss) \<Longrightarrow>
   stop_confirmations cfg \<le> int (trailing s (suggestions cfg argss)) \<Longrightarrow> confirmed cfg argss s"
  unfolding confirmed_def by (intro exI [of _ "length argss"]) simp

definition confirm_inv :: "stop_config \<Rightarrow> check_args list \<Rightarrow> stop_detector \<Rightarrow> bool" where
  "confirm_inv cfg argss sd \<longleftrightarrow>
     sd_cfg sd = cfg \<and>
     (case pending_stop_pos sd of
        None \<Rightarrow> \<forall>c. trailing c (suggestions cfg argss) = 0
      | Some c \<Rightarrow> pending_confirms sd = int (trailing c (suggestions cfg argss)) \<and>
                 (\<forall>d. d \<noteq> c \<longrightarrow> trailing d (suggestions cfg argss) = 0)) \<and>
     (\<forall>s. stop_pos sd = Some s \<longrightarrow> confirmed cfg argss s)"

lemma confirm_inv_step:
  assumes inv: "confirm_inv cfg argss sd"
  shows "confirm_inv cfg (argss @ [(x, gs, ge)]) (note_candidate sd (candidate cfg x gs ge))"
proof (cases "candidate cfg x gs ge")
  case None
  have sug: "suggestions cfg (argss @ [(x, gs, ge)]) = suggestions cfg argss"
    by (simp add: suggestions_snoc None)
  show ?thesis
    using inv unfolding confirm_inv_def sug None note_candidate.simps by (simp add: confirmed_later)
next
  case outer: (Some o')
  let ?as = "argss @ [(x, gs, ge)]"
  have cfg: "sd_cfg sd = cfg" using inv by (simp add: confirm_inv_def)
  have old: "stop_pos sd = Some s \<Longrightarrow> confirmed cfg ?as s" for s
    using inv by (simp add: confirm_inv_def confirmed_later)
  show ?thesis
  proof (cases o')
    case None
    with outer cfg old show ?thesis by (simp add: confirm_inv_def suggestions_snoc trailing_snoc)
  next
    case (Some c)
    let ?n = "if pending_stop_pos sd = Some c then pending_confirms sd + 1 else 1"
    have sug: "suggestions cfg ?as = suggestions cfg argss @ [Some c]"
      by (simp add: suggestions_snoc outer Some)
    have n: "?n = int (trailing c (suggestions cfg ?as))"
      using inv unfolding sug by (auto simp: confirm_inv_def trailing_snoc split: option.splits)
    have new: "stop_confirmations cfg \<le> ?n \<Longrightarrow> confirmed cfg ?as c"
      unfolding n by (rule confirmed_now) (simp_all add: sug trailing_snoc)
    have others: "d \<noteq> c \<Longrightarrow> trailing d (suggestions cfg ?as) = 0" for d
      by (simp add: sug trailing_snoc)
    show ?thesis
      unfolding outer Some confirm_inv_def note_candidate.simps Let_def
      using cfg old new n others by simp
  qed
qed

lemma confirm_inv_run: "confirm_inv cfg argss (run_events check_step (StopDetector cfg) argss)"
proof (induction argss rule: rev_induct)
  case Nil
  then show ?case
    by (simp add: confirm_inv_def StopDetector_def suggestions_def trailing_def)
next
  case (snoc args argss)
  obtain x gs ge where "args = (x, gs, ge)" by (cases args)
  with snoc confirm_inv_step [OF snoc] show ?case
    by (simp add: run_events_append check_step_eq run_check_cfg StopDetector_def)
qed

subsection \<open>Properties\<close>

text \<open>The scan behind a check. Whenever something is committed in the generation range, the
  frontier is one past the last committed position, and the run start found by walking back
  from it begins the longest block of end-of-sequence tokens that ends at the frontier
  without leaving the range.\<close>

lemma eos_run_exact:
  assumes "p \<in> committed x gs ge"
  shows "p < frontier x gs ge \<and> frontier x gs ge - 1 \<in> committed x gs ge \<and>
    (let f = frontier x gs ge; r = eos_run_start x eos gs f
     in gs \<le> r \<and> r \<le> f \<and> (\<forall>q \<in> {r..<f}. map_of x q = Some eos) \<and>
        (r = gs \<or> map_of x (r - 1) \<noteq> Some eos))"
proof -
  have ne: "committed x gs ge \<noteq> {}" using assms by auto
  show ?thesis
    using frontier_committed [OF ne] assms eos_run_start_spec [of gs "frontier x gs ge" x eos]
    by (simp add: Let_def)
qed

lemma eos_run_exact_witness:
  "let x = [(32, 7), (33, 9), (34, 9)] :: (int, int) dict
   in 33 < frontier x 32 40 \<and> map_of x (eos_run_start x 9 32 (frontier x 32 40)) = Some 9"
proof -
  let ?x = "[(32, 7), (33, 9), (34, 9)] :: (int, int) dict"
  have c: "committed ?x 32 40 = {32, 33, 34}" by (auto simp: committed_def)
  then have f: "frontier ?x 32 40 = 35" by (simp add: frontier_def)
  have r: "eos_run_start ?x 9 32 35 = 33" by (simp add: eos_run_start.simps)
  have "33 \<in> committed ?x 32 40" using c by simp
  from eos_run_exact [OF this, of 9] show ?thesis by (simp add: f r)
qed

text \<open>C22: the boundary only ever moves to earlier positions. Over any sequence of checks, whatever
  shared states they see, a boundary once found is never lost and never moves to a later
  position, so frozen content is never reopened.\<close>

theorem boundary_monotone:
  assumes "stop_pos (run_events check_step (StopDetector cfg) argss) = Some s"
  shows "\<exists>s'. stop_pos (run_events check_step (StopDetector cfg) (argss @ later)) = Some s' \<and> s' \<le> s"
  using stop.run_before [of "run_events check_step (StopDetector cfg) argss" later] assms
  by (simp add: run_events_append boundary_before_def)

text \<open>A configuration and a shared state with five end-of-sequence tokens after three others.\<close>

definition example_cfg :: stop_config where
  "example_cfg = \<lparr>eos_id = 9, mask_id = 0, min_gen_length = 5, stop_run_min = 4, stop_confirmations = 2\<rparr>"

definition example_x :: "(int, int) dict" where
  "example_x = [(32, 5), (33, 6), (34, 7), (35, 9), (36, 9), (37, 9), (38, 9), (39, 9)]"

lemma example_committed: "committed example_x 32 50 = {32, 33, 34, 35, 36, 37, 38, 39}"
  by (auto simp: committed_def example_x_def)

lemma example_candidate: "candidate example_cfg example_x 32 50 = Some (Some 35)"
proof -
  have f: "frontier example_x 32 50 = 40" by (simp add: frontier_def example_committed)
  have r: "eos_run_start example_x 9 32 40 = 35"
    by (simp add: eos_run_start.simps example_x_def)
  show ?thesis using f r by (simp add: candidate_def example_committed example_cfg_def)
qed

lemma example_run:
  "stop_pos (run_events check_step (StopDetector example_cfg) [(example_x, 32, 50), (example_x, 32, 50)])
     = Some 35"
  by (simp add: check_step_eq StopDetector_def example_candidate) (simp add: example_cfg_def)

theorem boundary_monotone_witness:
  "\<exists>s'. stop_pos (run_events check_step (StopDetector example_cfg)
     ([(example_x, 32, 50), (example_x, 32, 50)] @ [([], 32, 50)])) = Some s' \<and> s' \<le> 35"
  by (rule boundary_monotone [OF example_run])

text \<open>C21: a boundary is never found by accident. If a detector reports the boundary \<open>s\<close> after a
  sequence of checks, then at some check the last \<open>stop_confirmations\<close> suggestions in a row
  (and at least one) had all been for \<open>s\<close>; and each suggestion for \<open>s\<close> means that the shared
  state held nothing but end-of-sequence tokens from \<open>s\<close> up to the frontier, at least
  \<open>stop_run_min\<close> of them, more than \<open>min_gen_length\<close> positions into the generation.\<close>

theorem boundary_confirmed:
  assumes "stop_pos (run_events check_step (StopDetector cfg) argss) = Some s"
  shows "(\<exists>k \<le> length argss. 0 < trailing s (suggestions cfg (take k argss)) \<and>
            stop_confirmations cfg \<le> int (trailing s (suggestions cfg (take k argss)))) \<and>
         (\<forall>x gs ge. candidate cfg x gs ge = Some (Some s) \<longrightarrow>
            gs \<le> s \<and> stop_run_min cfg \<le> frontier x gs ge - s \<and>
            min_gen_length cfg < frontier x gs ge - gs \<and>
            (\<forall>p \<in> {s..<frontier x gs ge}. map_of x p = Some (eos_id cfg)))"
  using confirm_inv_run [of cfg argss] assms candidate_SomeD
  by (auto simp: confirm_inv_def confirmed_def)

theorem boundary_confirmed_witness:
  "let argss = [(example_x, 32, 50), (example_x, 32, 50)]
   in \<exists>k \<le> length argss. stop_confirmations example_cfg \<le> int (trailing 35 (suggestions example_cfg (take k argss)))"
  using boundary_confirmed [OF example_run] by auto

text \<open>C38: and a stable run is always found. From any state of a detector, \<open>n \<ge> stop_confirmations\<close>
  checks in a row (at least one) that suggest \<open>s\<close> leave it with a boundary at \<open>s\<close> or
  before.\<close>

theorem boundary_triggers:
  assumes "0 < n" and "stop_confirmations (sd_cfg sd) \<le> int n"
    and "candidate (sd_cfg sd) x gs ge = Some (Some s)" and "0 \<le> pending_confirms sd"
  shows "\<exists>s'. stop_pos (run_events check_step sd (replicate n (x, gs, ge))) = Some s' \<and> s' \<le> s"
proof -
  define st where "st i = run_events check_step sd (replicate i (x, gs, ge))" for i
  have st: "st (Suc i) = note_candidate (st i) (Some (Some s))" "sd_cfg (st i) = sd_cfg sd" for i
    using assms(3) run_check_cfg [of sd "replicate i (x, gs, ge)"]
    by (simp_all add: st_def check_step_eq run_events_append replicate_append_same [symmetric]
        del: replicate_append_same)
  have count: "pending_stop_pos (st (Suc i)) = Some s \<and> int (Suc i) \<le> pending_confirms (st (Suc i))" for i
  proof (induction i)
    case 0
    show ?case using st(1) [of 0] assms(4) by (simp add: st_def Let_def)
  next
    case (Suc i)
    then show ?case using st(1) [of "Suc i"] by (simp add: Let_def)
  qed
  from assms(1) obtain i where n: "n = Suc i" by (cases n) auto
  have "stop_confirmations (sd_cfg (st i)) \<le> pending_confirms (note_candidate (st i) (Some (Some s)))"
    using count [of i] assms(2) st [of i] n by simp
  then have "\<exists>s'. stop_pos (note_candidate (st i) (Some (Some s))) = Some s' \<and> s' \<le> s"
    by (cases "stop_pos (st i)") (auto simp: Let_def split: if_splits)
  with st(1) [of i] n show ?thesis by (simp add: st_def)
qed

theorem boundary_triggers_witness:
  "\<exists>s'. stop_pos (run_events check_step (StopDetector example_cfg) (replicate 2 (example_x, 32, 50))) = Some s'
      \<and> s' \<le> 35"
  by (rule boundary_triggers) (simp_all add: StopDetector_def example_candidate, simp_all add: example_cfg_def)

text \<open>Detectors agree without talking. Two detectors with the same configuration that check
  shared states which are equal as dictionaries, however they are ordered inside, report the
  same boundary after every check.\<close>

lemma detectors_agree:
  assumes "list_all2 (\<lambda>(x, gs, ge) (y, gs', ge'). map_of x = map_of y \<and> gs = gs' \<and> ge = ge') as bs"
  shows "run_events check_step (StopDetector cfg) as = run_events check_step (StopDetector cfg) bs"
proof -
  have "run_events check_step sd as = run_events check_step sd bs" for sd
    using assms
  proof (induction arbitrary: sd rule: list_all2_induct)
    case Nil
    then show ?case by simp
  next
    case (Cons a as b bs)
    obtain x gs ge y where "a = (x, gs, ge)" "b = (y, gs, ge)" "map_of x = map_of y"
      using Cons.hyps(1) by (cases a; cases b) auto
    then have "check_step sd a = check_step sd b"
      using candidate_cong [of x y] by (simp add: check_step_eq)
    then show ?case using Cons.IH by simp
  qed
  then show ?thesis .
qed

end
