(* ===== verification/Float64.thy ===== *)
theory Float64 imports Consensus Doubles begin

section \<open>Adding scores in double precision\<close>

text \<open>
  What rounding does to a dispute: \<open>resolve_disputes\<close> of theory \<open>Consensus\<close>, with scores added in the
  type \<open>f64\<close>. Adding two doubles does not depend on their order, adding three does: with two
  participants the sums are the same for both (\<open>pair_sums\<close>), with three they need not be, and a
  dispute may split them (\<open>summation_order_splits\<close>).
\<close>

text \<open>Two participants, each with one ballot or none.\<close>

lemma pair_sums:
  fixes xs ys :: "f64 list"
  assumes "length xs \<le> 1" and "length ys \<le> 1" and "\<forall>x \<in> set xs \<union> set ys. is_double x"
  shows "foldl (+) 0 (xs @ ys) = foldl (+) 0 (ys @ xs)"
  using assms by (cases xs; cases ys) (auto simp: f64_0_plus intro: f64_plus_commute)

text \<open>The double nearest to 1/10 as \<open>math.exp\<close> gives it for the single-precision logarithm of
  the single-precision 0.1, and the one for 0.2, in units of \<open>2 ^ -1074\<close>.\<close>

definition p10 :: f64 where "p10 = F64 (7205759173385493 * 2 ^ 1018)"

definition p20 :: f64 where "p20 = F64 (14411518374219948 * 2 ^ 1018)"

lemma p10_p20_sums:
  "0 + p10 = p10" "0 + p20 = p20"
  "p10 + p20 = F64 (21617277547605440 * 2 ^ 1018)"
  "p20 + p10 = F64 (21617277547605440 * 2 ^ 1018)"
  "p10 + p10 = F64 (14411518346770986 * 2 ^ 1018)"
  "F64 (14411518346770986 * 2 ^ 1018) + p20 = F64 (28823036720990936 * 2 ^ 1018)"
  "F64 (21617277547605440 * 2 ^ 1018) + p10 = F64 (28823036720990932 * 2 ^ 1018)"
proof -
  have lens: "bit_len 7205759173385493 = 53" "bit_len 14411518374219948 = 54"
      "bit_len 14411518346770986 = 54" "bit_len 21617277547605441 = 55"
      "bit_len 28823036720990934 = 55" "bit_len 28823036720990933 = 55"
    using bit_len_eq [of 52 7205759173385493] bit_len_eq [of 53 14411518374219948]
      bit_len_eq [of 53 14411518346770986] bit_len_eq [of 54 21617277547605441]
      bit_len_eq [of 54 28823036720990934] bit_len_eq [of 54 28823036720990933]
    by simp_all
  note add = f64_add [where k = 1018]
  show "0 + p10 = p10" "0 + p20 = p20"
    using add [of 0 7205759173385493 0] add [of 0 14411518374219948 1]
    by (simp_all add: lens round53_54_55 p10_def p20_def zero_f64_def del: power_numeral)
  show "p10 + p20 = F64 (21617277547605440 * 2 ^ 1018)"
    and "p20 + p10 = F64 (21617277547605440 * 2 ^ 1018)"
    using add [of 7205759173385493 14411518374219948 2] add [of 14411518374219948 7205759173385493 2]
    by (simp_all add: lens round53_54_55 p10_def p20_def del: power_numeral)
  show "p10 + p10 = F64 (14411518346770986 * 2 ^ 1018)"
    using add [of 7205759173385493 7205759173385493 1]
    by (simp add: lens round53_54_55 p10_def del: power_numeral)
  show "F64 (14411518346770986 * 2 ^ 1018) + p20 = F64 (28823036720990936 * 2 ^ 1018)"
    using add [of 14411518346770986 14411518374219948 2]
    by (simp add: lens round53_54_55 p20_def del: power_numeral)
  show "F64 (21617277547605440 * 2 ^ 1018) + p10 = F64 (28823036720990932 * 2 ^ 1018)"
    using add [of 21617277547605440 7205759173385493 2]
    by (simp add: lens round53_54_55 p10_def del: power_numeral)
qed

text \<open>C35: in double precision the order of the reports can decide a dispute. Three participants
  \<open>a\<close>, \<open>b\<close>, \<open>c\<close> report on the tokens 3 and 7 at one position, with probabilities (0.1, 0.1),
  (0.1, 0.2) and (0.2, 0.1) for 7 and 3 in some order. Node \<open>a\<close>, which adds in the order
  \<open>a\<close>, \<open>b\<close>, \<open>c\<close>, settles on token 7; node \<open>b\<close>, which puts its own report first and then
  received \<open>c\<close>'s and \<open>a\<close>'s, settles on token 3, though all three hold the same reports.\<close>

theorem summation_order_splits:
  assumes "mexp l10 = Some p10" and "mexp l20 = Some p20"
    and "a = (''node-a'', [(pos, [(7, l10), (3, l10)])])"
    and "b = (''node-b'', [(pos, [(7, l10), (3, l20)])])"
    and "c = (''node-c'', [(pos, [(7, l20), (3, l10)])])"
  shows "resolve_disputes mexp [a, b, c] = Inr [(pos, 7)] \<and>
         resolve_disputes mexp [b, c, a] = Inr [(pos, 3)]"
proof -
  have less: "F64 (28823036720990932 * 2 ^ 1018) < F64 (28823036720990936 * 2 ^ 1018)"
    "\<not> F64 (28823036720990936 * 2 ^ 1018) < F64 (28823036720990932 * 2 ^ 1018)"
    by (simp_all add: less_f64_def)
  show ?thesis
    by (simp add: assms resolve_disputes_def tally_def tally_candidates_def dget_default_def
        p10_p20_sums key_less_def less del: power_numeral)
qed

theorem summation_order_splits_witness:
  "let a = (''node-a'', [(0, [(7, 10), (3, 10)])]);
       b = (''node-b'', [(0, [(7, 10), (3, 20)])]);
       c = (''node-c'', [(0, [(7, 20), (3, 10)])]);
       mexp = (\<lambda>l::nat. if l = 10 then Some p10 else if l = 20 then Some p20 else None)
   in resolve_disputes mexp [a, b, c] = Inr [(0, 7)] \<and> resolve_disputes mexp [b, c, a] = Inr [(0, 3)]"
proof -
  let ?mexp = "\<lambda>l::nat. if l = 10 then Some p10 else if l = 20 then Some p20 else None"
  have "?mexp 10 = Some p10" "?mexp 20 = Some p20" by simp_all
  from summation_order_splits [where mexp = ?mexp and pos = 0, OF this refl refl refl]
  show ?thesis by simp
qed

end
