(* ===== verification/Local_Step.thy ===== *)
theory Local_Step imports Doubles begin

section \<open>The denoising step of one node\<close>

text \<open>
  \<open>diffusion/local_step.py\<close>, on tensors of batch size one, the only shape
  \<open>GenerationRunner.run_round\<close> uses: \<open>x\<close> is one row of tokens, a list, and the loops over \<open>j\<close>
  run once. Element-wise operations, masks and slices are written out. The neural network
  and three operations of PyTorch are parameters: \<open>model\<close> (the logits at every position),
  and in the record \<open>torch\<close> the functions \<open>softmax\<close>, \<open>argmax\<close> and \<open>topk\<close>, with \<open>torch_ok\<close>
  for what their documentation says (which of several equal elements \<open>argmax\<close> and \<open>topk\<close>
  pick is left open there, and so here). \<open>noise\<close> is the tensor \<open>torch.rand_like\<close> draws, its
  entries strictly between 0 and 1. Probabilities are real numbers; a confidence is an
  \<open>xreal\<close>, a real or \<open>-inf\<close>.

  The main results: a step commits only masked positions of the current block, as many as
  the schedule asks for, as long as no frozen boundary lies before the block's end
  (\<open>transfer_exact\<close>); the block's last step commits all that is left (\<open>last_step_completes\<close>);
  with a boundary inside the block the count on line 133 includes positions that are no
  candidates, and the step overwrites something that is not one (\<open>frozen_block_overflows\<close>).
\<close>

subsection \<open>Confidences\<close>

datatype xreal = NegInf | Fin real

fun xreal_le :: "xreal \<Rightarrow> xreal \<Rightarrow> bool" where
  "xreal_le NegInf _ = True"
| "xreal_le (Fin _) NegInf = False"
| "xreal_le (Fin a) (Fin b) = (a \<le> b)"

instantiation xreal :: linorder
begin

definition less_eq_xreal :: "xreal \<Rightarrow> xreal \<Rightarrow> bool" where
  "a \<le> b \<longleftrightarrow> xreal_le a b"

definition less_xreal :: "xreal \<Rightarrow> xreal \<Rightarrow> bool" where
  "a < b \<longleftrightarrow> xreal_le a b \<and> \<not> xreal_le b a"

instance
proof
  fix a b c :: xreal
  show "a < b \<longleftrightarrow> a \<le> b \<and> \<not> b \<le> a" by (simp add: less_eq_xreal_def less_xreal_def)
  show "a \<le> a" by (cases a) (simp_all add: less_eq_xreal_def)
  show "a \<le> b \<Longrightarrow> b \<le> c \<Longrightarrow> a \<le> c"
    by (cases a; cases b; cases c) (simp_all add: less_eq_xreal_def)
  show "a \<le> b \<Longrightarrow> b \<le> a \<Longrightarrow> a = b"
    by (cases a; cases b) (simp_all add: less_eq_xreal_def)
  show "a \<le> b \<or> b \<le> a"
    by (cases a; cases b) (auto simp: less_eq_xreal_def)
qed

end

lemma xreal_simps [simp]:
  "NegInf \<le> a" "NegInf < Fin r" "\<not> Fin r \<le> NegInf" "\<not> Fin r < NegInf"
  "Fin r \<le> Fin s \<longleftrightarrow> r \<le> s" "Fin r < Fin s \<longleftrightarrow> r < s" "\<not> a < NegInf"
  by (cases a; auto simp: less_eq_xreal_def less_xreal_def)+

fun xminus :: "xreal \<Rightarrow> real \<Rightarrow> xreal" where
  "xminus NegInf _ = NegInf"
| "xminus (Fin a) r = Fin (a - r)"

subsection \<open>What comes from outside\<close>

record torch =
  softmax :: "real list \<Rightarrow> real list"
  argmax :: "real list \<Rightarrow> nat"
  topk :: "xreal list \<Rightarrow> nat \<Rightarrow> nat list"

definition topk_spec :: "'a::linorder list \<Rightarrow> nat \<Rightarrow> nat list \<Rightarrow> bool" where
  "topk_spec v k idx \<longleftrightarrow> distinct idx \<and> length idx = k \<and> set idx \<subseteq> {..<length v} \<and>
     (\<forall>i \<in> set idx. \<forall>j < length v. j \<notin> set idx \<longrightarrow> v ! j \<le> v ! i)"

definition torch_ok :: "torch \<Rightarrow> bool" where
  "torch_ok tc \<longleftrightarrow> (\<forall>v. length (softmax tc v) = length v) \<and>
     (\<forall>v. v \<noteq> [] \<longrightarrow> argmax tc v < length v) \<and>
     (\<forall>v k. k \<le> length v \<longrightarrow> topk_spec v k (topk tc v k))"

subsection \<open>The step\<close>

record step_config =
  sc_mask_id :: int
  sc_eos_id :: int
  sc_temperature :: real
  sc_eos_margin_threshold :: real
  sc_remask_conf_threshold :: real
  sc_remask_min_age :: int
  sc_remask_max_frac :: real
  sc_remask_reserve_frac :: real

definition add_gumbel_noise :: "real list list \<Rightarrow> real \<Rightarrow> real list list \<Rightarrow> real list list" where
  "add_gumbel_noise logits temperature noise =
     (if temperature = 0 then logits
      else map2 (map2 (\<lambda>l u. exp l / (- ln u) powr temperature)) logits noise)"

text \<open>\<open>round(r)\<close>, half to even, and \<open>int(r)\<close>, towards zero. The fractions of the configuration are
  doubles, and \<open>float_mul\<close> multiplies them with a count as Python does.\<close>

definition py_round :: "real \<Rightarrow> int" where
  "py_round r = (let f = \<lfloor>r\<rfloor>; d = r - of_int f in
     if d < 1 / 2 \<or> d = 1 / 2 \<and> even f then f else f + 1)"

definition py_trunc :: "real \<Rightarrow> int" where
  "py_trunc r = (if 0 \<le> r then \<lfloor>r\<rfloor> else - \<lfloor>- r\<rfloor>)"

text \<open>\<open>torch.gather(p, -1, x.unsqueeze(-1))\<close> raises for an index outside the last axis;
  \<open>p[..., i]\<close> takes negative indices from the end.\<close>

definition gather :: "real list list \<Rightarrow> int list \<Rightarrow> real list result" where
  "gather p x = mapM (\<lambda>(row, t).
     if 0 \<le> t \<and> t < int (length row) then Inr (row ! nat t) else Inl RuntimeError) (zip p x)"

definition col_index :: "'a list \<Rightarrow> int \<Rightarrow> nat result" where
  "col_index row i =
     (if - int (length row) \<le> i \<and> i < int (length row)
      then Inr (nat (if i < 0 then i + int (length row) else i)) else Inl IndexError)"

definition clamped_log :: "real \<Rightarrow> real" where
  "clamped_log r = ln (max r (1 / 10 ^ 12))"

definition eos_margin :: "int \<Rightarrow> real list \<Rightarrow> real result" where
  "eos_margin eos row =
     rbind (col_index row eos) (\<lambda>e.
       let best_non_eos_prob = Max (set (row[e := 0]))
       in Inr (clamped_log (row ! e) - clamped_log best_non_eos_prob))"

text \<open>The positions before a boundary that may not be there.\<close>

definition before_frozen :: "nat option \<Rightarrow> nat \<Rightarrow> bool" where
  "before_frozen frozen_from i = (case frozen_from of None \<Rightarrow> True | Some f \<Rightarrow> i < f)"

definition remask_row ::
  "torch \<Rightarrow> step_config \<Rightarrow> bool list \<Rightarrow> int list \<Rightarrow> real list \<Rightarrow> nat \<Rightarrow> nat \<Rightarrow> nat option \<Rightarrow> bool list" where
  "remask_row tc cfg mask_index age conf_current block_start block_end frozen_from =
     (let n = length mask_index;
          eligible = map (\<lambda>i. \<not> mask_index ! i \<and> age ! i \<ge> sc_remask_min_age cfg \<and>
                           \<not> i < block_start \<and> \<not> block_end \<le> i \<and> before_frozen frozen_from i) [0..<n];
          low_conf = map (\<lambda>i. eligible ! i \<and> conf_current ! i < sc_remask_conf_threshold cfg) [0..<n];
          idx = filter (\<lambda>i. low_conf ! i) [0..<n];
          cap = max 1 (py_trunc (float_mul (sc_remask_max_frac cfg) (int (length (filter id eligible)))));
          idx' = (if int (length idx) > cap
                  then map (\<lambda>w. idx ! w) (topk tc (map (\<lambda>i. Fin (- (conf_current ! i))) idx) (nat cap))
                  else idx)
      in map (\<lambda>i. i \<in> set idx') [0..<n])"

definition masked_conf ::
  "bool list \<Rightarrow> real list \<Rightarrow> bool list \<Rightarrow> nat \<Rightarrow> nat \<Rightarrow> nat option \<Rightarrow> xreal list" where
  "masked_conf mask_index conf_new eos_not_trusted block_start block_end frozen_from =
     map (\<lambda>i.
       let c0 = (if mask_index ! i then Fin (conf_new ! i) else NegInf);
           c1 = (if i < block_start then NegInf else c0);
           c2 = (if block_end \<le> i then NegInf else c1);
           c3 = (if before_frozen frozen_from i then c2 else NegInf)
       in if mask_index ! i \<and> eos_not_trusted ! i then xminus c3 100 else c3) [0..<length mask_index]"

definition transfer_row ::
  "torch \<Rightarrow> int \<Rightarrow> bool list \<Rightarrow> xreal list \<Rightarrow> nat \<Rightarrow> nat \<Rightarrow> bool list result" where
  "transfer_row tc steps_remaining mask_index conf_new_masked block_start block_end =
     (let n = length mask_index;
          remaining = int (length (filter (\<lambda>i. mask_index ! i) [block_start..<min block_end n]))
      in if steps_remaining = 0 then Inl ZeroDivisionError
         else
           (let k = min (- ((- remaining) div steps_remaining)) remaining
            in if k > 0
               then (let idx = topk tc conf_new_masked (nat k)
                     in Inr (map (\<lambda>i. i \<in> set idx) [0..<n]))
               else Inr (replicate n False)))"

text \<open>The result of a step, in the order of the returned tuple.\<close>

record step_result =
  sr_x :: "int list"
  sr_age :: "int list"
  sr_x0 :: "int list"
  sr_p :: "real list list"
  sr_conf_new :: "real list"
  sr_transfer :: "bool list"
  sr_remask :: "bool list"

definition local_step ::
  "torch \<Rightarrow> (int list \<Rightarrow> real list list) \<Rightarrow> real list list \<Rightarrow> int list \<Rightarrow> int list \<Rightarrow> int
   \<Rightarrow> nat \<Rightarrow> nat \<Rightarrow> int \<Rightarrow> step_config \<Rightarrow> nat option \<Rightarrow> step_result result" where
  "local_step tc model noise x age steps_remaining block_start block_end steps_per_block cfg frozen_from =
     (let n = length x;
          mask_index = map (\<lambda>t. t = sc_mask_id cfg) x;
          logits = model x;
          p = map (softmax tc) logits
      in rbind (gather p x) (\<lambda>conf_current.
         let x0 = map (\<lambda>row. int (argmax tc row)) (add_gumbel_noise logits (sc_temperature cfg) noise)
         in rbind (gather p x0) (\<lambda>conf_new.
         rbind (mapM (eos_margin (sc_eos_id cfg)) p) (\<lambda>margins.
         let eos_not_trusted = map2 (\<lambda>t m. t = sc_eos_id cfg \<and> m < sc_eos_margin_threshold cfg) x0 margins;
             reserve_steps = max 1 (py_round (float_mul (sc_remask_reserve_frac cfg) steps_per_block));
             remask = (if steps_remaining > reserve_steps
                       then remask_row tc cfg mask_index age conf_current block_start block_end frozen_from
                       else replicate n False);
             conf_new_masked = masked_conf mask_index conf_new eos_not_trusted block_start block_end frozen_from
         in rbind (transfer_row tc steps_remaining mask_index conf_new_masked block_start block_end) (\<lambda>transfer.
         let x1 = map (\<lambda>i. if transfer ! i then x0 ! i else if remask ! i then sc_mask_id cfg else x ! i) [0..<n];
             age1 = map (\<lambda>i. if transfer ! i \<or> remask ! i then 0
                              else if \<not> mask_index ! i then age ! i + 1 else age ! i) [0..<n]
         in Inr \<lparr>sr_x = x1, sr_age = age1, sr_x0 = x0, sr_p = p, sr_conf_new = conf_new,
                 sr_transfer = transfer, sr_remask = remask\<rparr>)))))"

subsection \<open>What a step picks\<close>

text \<open>The positions a step may commit, and how many it commits.\<close>

definition block_masks :: "int list \<Rightarrow> int \<Rightarrow> nat \<Rightarrow> nat \<Rightarrow> nat set" where
  "block_masks x m block_start block_end =
     {i. i < length x \<and> x ! i = m \<and> block_start \<le> i \<and> i < block_end}"

definition quota :: "int \<Rightarrow> int \<Rightarrow> int" where
  "quota remaining steps_remaining = min (- ((- remaining) div steps_remaining)) remaining"

lemma finite_block_masks [simp]: "finite (block_masks x m bs be)"
  by (rule finite_subset [of _ "{..<length x}"]) (auto simp: block_masks_def)

lemma remaining_eq:
  "length (filter (\<lambda>i. map (\<lambda>t. t = m) x ! i) [bs..<min be (length x)]) = card (block_masks x m bs be)"
proof -
  have "set (filter (\<lambda>i. map (\<lambda>t. t = m) x ! i) [bs..<min be (length x)]) = block_masks x m bs be"
    by (auto simp: block_masks_def)
  moreover have "distinct (filter (\<lambda>i. map (\<lambda>t. t = m) x ! i) [bs..<min be (length x)])" by simp
  ultimately show ?thesis by (metis distinct_card)
qed

lemma quota_bounds:
  assumes "0 < s" and "0 \<le> r"
  shows "0 \<le> quota r s" and "quota r s \<le> r" and "0 < r \<Longrightarrow> 0 < quota r s"
    and "r \<le> s * quota r s"
proof -
  have "s * ((- r) div s) + (- r) mod s = - r" by simp
  then have ceil: "r \<le> s * - ((- r) div s)" "s * (- ((- r) div s)) < r + s"
    using pos_mod_sign [OF assms(1), of "- r"] pos_mod_bound [OF assms(1), of "- r"]
    unfolding mult_minus_right by linarith+
  then have nn: "0 \<le> - ((- r) div s)"
    using assms by (smt (verit) div_nonpos_pos_le0)
  have "- ((- r) div s) \<le> r"
  proof (rule ccontr)
    assume "\<not> ?thesis"
    then have "s * (r + 1) \<le> s * (- ((- r) div s))" using assms(1) by (intro mult_left_mono) auto
    with ceil(2) have "s * (r + 1) < r + s" by simp
    then have "(s - 1) * r < 0" by (simp add: algebra_simps)
    with assms show False by (simp add: mult_less_0_iff)
  qed
  then have eq: "quota r s = - ((- r) div s)" by (simp add: quota_def)
  show "0 \<le> quota r s" "r \<le> s * quota r s" using nn ceil(1) by (simp_all add: eq)
  show "quota r s \<le> r" by (simp add: quota_def)
  show "0 < r \<Longrightarrow> 0 < quota r s"
    using assms(1) by (simp add: eq div_neg_pos_less0)
qed

lemma quota_1 [simp]: "quota r 1 = r"
  by (simp add: quota_def)

text \<open>Any top \<open>k\<close> of a list with at least \<open>k\<close> finite entries is finite throughout; with fewer, it
  holds all of them and something else.\<close>

lemma topk_finite:
  assumes "topk_spec v k idx" and "k \<le> card {i. i < length v \<and> v ! i \<noteq> NegInf}"
  shows "set idx \<subseteq> {i. i < length v \<and> v ! i \<noteq> NegInf}"
proof (rule ccontr)
  let ?F = "{i. i < length v \<and> v ! i \<noteq> NegInf}"
  assume "\<not> ?thesis"
  then obtain i where i: "i \<in> set idx" "i < length v" "v ! i = NegInf"
    using assms(1) by (auto simp: topk_spec_def)
  have "j \<in> set idx" if "j \<in> ?F" for j
  proof (rule ccontr)
    assume "j \<notin> set idx"
    with assms(1) i that have "v ! j \<le> NegInf" unfolding topk_spec_def by fastforce
    with that show False by (cases "v ! j") simp_all
  qed
  with i have "insert i ?F \<subseteq> set idx" by auto
  then have "card (insert i ?F) \<le> card (set idx)" by (rule card_mono [rotated]) simp
  moreover have "card (set idx) = k" using assms(1) by (simp add: topk_spec_def distinct_card)
  ultimately show False using i assms(2) by simp
qed

lemma topk_overflows:
  assumes "topk_spec v k idx" and "card F < k" and "finite F"
  shows "\<exists>i \<in> set idx. i \<notin> F"
proof (rule ccontr)
  assume "\<not> ?thesis"
  then have "card (set idx) \<le> card F" using assms(3) by (intro card_mono) auto
  moreover have "card (set idx) = k" using assms(1) by (simp add: topk_spec_def distinct_card)
  ultimately show False using assms(2) by simp
qed

lemma masked_conf_nth:
  assumes "i < length x"
  shows "masked_conf (map (\<lambda>t. t = m) x) conf ent bs be ff ! i \<noteq> NegInf \<longleftrightarrow>
    i \<in> block_masks x m bs be \<and> before_frozen ff i"
  using assms by (auto simp: masked_conf_def Let_def block_masks_def)

lemma length_masked_conf [simp]:
  "length (masked_conf mi conf ent bs be ff) = length mi"
  by (simp add: masked_conf_def)

lemma mapM_length: "mapM f xs = Inr ys \<Longrightarrow> length ys = length xs"
  by (rule mapM_Inr_length)

text \<open>The parts of a completed step.\<close>

lemma local_step_parts:
  assumes "local_step tc model noise x age s bs be spb cfg ff = Inr r" and "length (model x) = length x"
  shows "\<exists>ent conf_current.
      transfer_row tc s (map (\<lambda>t. t = sc_mask_id cfg) x)
        (masked_conf (map (\<lambda>t. t = sc_mask_id cfg) x) (sr_conf_new r) ent bs be ff) bs be =
        Inr (sr_transfer r) \<and>
      gather (sr_p r) x = Inr conf_current \<and> length conf_current = length x \<and>
      sr_remask r = (if s > max 1 (py_round (float_mul (sc_remask_reserve_frac cfg) spb))
        then remask_row tc cfg (map (\<lambda>t. t = sc_mask_id cfg) x) age conf_current bs be ff
        else replicate (length x) False)"
    and "sr_x r = map (\<lambda>i. if sr_transfer r ! i then sr_x0 r ! i
        else if sr_remask r ! i then sc_mask_id cfg else x ! i) [0..<length x]"
    and "sr_age r = map (\<lambda>i. if sr_transfer r ! i \<or> sr_remask r ! i then 0
        else if x ! i \<noteq> sc_mask_id cfg then age ! i + 1 else age ! i) [0..<length x]"
    and "sr_x0 r = map (\<lambda>row. int (argmax tc row)) (add_gumbel_noise (model x) (sc_temperature cfg) noise)"
    and "sr_p r = map (softmax tc) (model x)"
    and "gather (sr_p r) (sr_x0 r) = Inr (sr_conf_new r)"
proof -
  let ?mi = "map (\<lambda>t. t = sc_mask_id cfg) x"
  let ?p = "map (softmax tc) (model x)"
  let ?x0 = "map (\<lambda>row. int (argmax tc row)) (add_gumbel_noise (model x) (sc_temperature cfg) noise)"
  obtain conf_current conf_new margins transfer where
    cur: "gather ?p x = Inr conf_current" and new: "gather ?p ?x0 = Inr conf_new"
    and tr: "transfer_row tc s ?mi (masked_conf ?mi conf_new
        (map2 (\<lambda>t m. t = sc_eos_id cfg \<and> m < sc_eos_margin_threshold cfg) ?x0 margins) bs be ff) bs be =
        Inr transfer"
    and r: "r = (let remask = (if s > max 1 (py_round (float_mul (sc_remask_reserve_frac cfg) spb))
          then remask_row tc cfg ?mi age conf_current bs be ff else replicate (length x) False)
        in \<lparr>sr_x = map (\<lambda>i. if transfer ! i then ?x0 ! i else if remask ! i then sc_mask_id cfg else x ! i) [0..<length x],
            sr_age = map (\<lambda>i. if transfer ! i \<or> remask ! i then 0
                              else if \<not> ?mi ! i then age ! i + 1 else age ! i) [0..<length x],
            sr_x0 = ?x0, sr_p = ?p, sr_conf_new = conf_new, sr_transfer = transfer, sr_remask = remask\<rparr>)"
    using assms(1) unfolding local_step_def Let_def rbind_eq_Inr by blast
  have "length conf_current = length x"
    using cur assms(2) by (auto simp: gather_def dest!: mapM_length)
  then show "\<exists>ent conf_current.
      transfer_row tc s (map (\<lambda>t. t = sc_mask_id cfg) x)
        (masked_conf (map (\<lambda>t. t = sc_mask_id cfg) x) (sr_conf_new r) ent bs be ff) bs be =
        Inr (sr_transfer r) \<and>
      gather (sr_p r) x = Inr conf_current \<and> length conf_current = length x \<and>
      sr_remask r = (if s > max 1 (py_round (float_mul (sc_remask_reserve_frac cfg) spb))
        then remask_row tc cfg (map (\<lambda>t. t = sc_mask_id cfg) x) age conf_current bs be ff
        else replicate (length x) False)"
    using tr cur by (auto simp: r Let_def)
  show "sr_x r = map (\<lambda>i. if sr_transfer r ! i then sr_x0 r ! i
        else if sr_remask r ! i then sc_mask_id cfg else x ! i) [0..<length x]"
    and "sr_age r = map (\<lambda>i. if sr_transfer r ! i \<or> sr_remask r ! i then 0
        else if x ! i \<noteq> sc_mask_id cfg then age ! i + 1 else age ! i) [0..<length x]"
    and "sr_x0 r = ?x0" and "sr_p r = ?p" and "gather (sr_p r) (sr_x0 r) = Inr (sr_conf_new r)"
    by (simp_all add: r Let_def new)
qed

lemma transfer_row_eq:
  "transfer_row tc s (map (\<lambda>t. t = m) x) v bs be =
     (if s = 0 then Inl ZeroDivisionError
      else if quota (int (card (block_masks x m bs be))) s > 0
      then Inr (map (\<lambda>i. i \<in> set (topk tc v (nat (quota (int (card (block_masks x m bs be))) s)))) [0..<length x])
      else Inr (replicate (length x) False))"
  unfolding transfer_row_def Let_def length_map remaining_eq quota_def by simp

lemma transfer_row_Inr:
  assumes "transfer_row tc s mi v bs be = Inr tr" and "length v = length mi"
    and "mi = map (\<lambda>t. t = m) x" and "torch_ok tc" and "0 < s"
  shows "length tr = length x \<and>
    (\<exists>idx. topk_spec v (nat (quota (int (card (block_masks x m bs be))) s)) idx \<and>
       {i. i < length x \<and> tr ! i} = set idx)"
proof -
  let ?r = "int (card (block_masks x m bs be))"
  let ?k = "nat (quota ?r s)"
  have le: "?k \<le> length v"
  proof -
    have "card (block_masks x m bs be) \<le> card {..<length x}"
      by (rule card_mono) (auto simp: block_masks_def)
    then show ?thesis using quota_bounds(2) [OF assms(5), of ?r] assms(2,3) by simp
  qed
  show ?thesis
  proof (cases "0 < quota ?r s")
    case True
    then have tr: "tr = map (\<lambda>i. i \<in> set (topk tc v ?k)) [0..<length x]"
      using assms(1,3,5) by (simp add: transfer_row_eq)
    have spec: "topk_spec v ?k (topk tc v ?k)" using assms(4) le by (simp add: torch_ok_def)
    then have "set (topk tc v ?k) \<subseteq> {..<length x}" using assms(2,3) by (simp add: topk_spec_def)
    then show ?thesis using spec tr by (intro conjI exI [of _ "topk tc v ?k"]) auto
  next
    case False
    then have "tr = replicate (length x) False"
      using assms(1,3,5) by (simp add: transfer_row_eq)
    with False show ?thesis by (intro conjI exI [of _ "[]"]) (auto simp: topk_spec_def)
  qed
qed

lemma remask_row_spec:
  assumes "torch_ok tc" and "length conf = length mi"
    and rm_def: "rm = remask_row tc cfg mi age conf bs be ff"
    and el_def: "el = {i. i < length mi \<and> \<not> mi ! i \<and> sc_remask_min_age cfg \<le> age ! i \<and>
     bs \<le> i \<and> i < be \<and> before_frozen ff i}"
  shows "length rm = length mi"
    and "{i. i < length mi \<and> rm ! i} \<subseteq> {i \<in> el. conf ! i < sc_remask_conf_threshold cfg}"
    and "int (card {i. i < length mi \<and> rm ! i}) \<le> max 1 (py_trunc (float_mul (sc_remask_max_frac cfg) (int (card el))))"
proof -
  define eligible where "eligible = map (\<lambda>i. \<not> mi ! i \<and> age ! i \<ge> sc_remask_min_age cfg \<and>
      \<not> i < bs \<and> \<not> be \<le> i \<and> before_frozen ff i) [0..<length mi]"
  define idx where "idx = filter (\<lambda>i. map (\<lambda>i. eligible ! i \<and> conf ! i < sc_remask_conf_threshold cfg)
      [0..<length mi] ! i) [0..<length mi]"
  define cap where "cap = max 1 (py_trunc (float_mul (sc_remask_max_frac cfg) (int (length (filter id eligible)))))"
  define worst where "worst = topk tc (map (\<lambda>i. Fin (- (conf ! i))) idx) (nat cap)"
  define idx' where "idx' = (if int (length idx) > cap then map (\<lambda>w. idx ! w) worst else idx)"
  have rm: "rm = map (\<lambda>i. i \<in> set idx') [0..<length mi]"
    unfolding rm_def remask_row_def Let_def idx'_def worst_def idx_def cap_def eligible_def by (rule refl)
  have len_el: "length (filter id eligible) = card el"
  proof -
    have "length (filter id eligible) = card {i. i < length eligible \<and> id (eligible ! i)}"
      by (rule length_filter_conv_card)
    moreover have "{i. i < length eligible \<and> id (eligible ! i)} = el"
      by (auto simp: eligible_def el_def)
    ultimately show ?thesis by simp
  qed
  have set_idx: "set idx = {i \<in> el. conf ! i < sc_remask_conf_threshold cfg}"
    by (auto simp: idx_def eligible_def el_def)
  have dist: "distinct idx" by (simp add: idx_def)
  have worst: "topk_spec (map (\<lambda>i. Fin (- (conf ! i))) idx) (nat cap) worst" if "int (length idx) > cap"
    using assms(1) that by (simp add: torch_ok_def worst_def)
  have "set worst \<subseteq> {..<length idx}" if "int (length idx) > cap"
    using worst [OF that] by (simp add: topk_spec_def)
  then have sub: "set idx' \<subseteq> set idx"
    by (auto simp: idx'_def intro!: nth_mem)
  have "length idx' \<le> nat cap"
    using worst by (auto simp: idx'_def topk_spec_def)
  then have card: "int (card (set idx')) \<le> cap"
    using card_length [of idx'] by (simp add: cap_def)
  have rm_set: "{i. i < length mi \<and> rm ! i} = set idx'"
    using sub set_idx by (auto simp: rm el_def)
  show "length rm = length mi" by (simp add: rm)
  show "{i. i < length mi \<and> rm ! i} \<subseteq> {i \<in> el. conf ! i < sc_remask_conf_threshold cfg}"
    using rm_set sub set_idx by simp
  show "int (card {i. i < length mi \<and> rm ! i}) \<le> max 1 (py_trunc (float_mul (sc_remask_max_frac cfg) (int (card el))))"
    using card by (simp add: rm_set cap_def len_el)
qed

text \<open>What is common to every completed step.\<close>

lemma step_picks:
  assumes "local_step tc model noise x age s bs be spb cfg ff = Inr r"
    and "torch_ok tc" and "length (model x) = length x" and "0 < s"
  shows "\<exists>v idx. topk_spec v (nat (quota (int (card (block_masks x (sc_mask_id cfg) bs be))) s)) idx \<and>
      {i. i < length x \<and> sr_transfer r ! i} = set idx \<and> length v = length x \<and>
      {i. i < length v \<and> v ! i \<noteq> NegInf} =
        {i \<in> block_masks x (sc_mask_id cfg) bs be. before_frozen ff i}"
    and "{i. i < length x \<and> sr_remask r ! i} \<subseteq>
      {i. i < length x \<and> x ! i \<noteq> sc_mask_id cfg \<and> bs \<le> i \<and> i < be \<and> before_frozen ff i}"
proof -
  let ?mi = "map (\<lambda>t. t = sc_mask_id cfg) x"
  obtain ent cur where tr: "transfer_row tc s ?mi (masked_conf ?mi (sr_conf_new r) ent bs be ff) bs be = Inr (sr_transfer r)"
    and len: "length cur = length x"
    and rem: "sr_remask r = (if s > max 1 (py_round (float_mul (sc_remask_reserve_frac cfg) spb))
        then remask_row tc cfg ?mi age cur bs be ff else replicate (length x) False)"
    using local_step_parts(1) [OF assms(1,3)] by blast
  let ?v = "masked_conf ?mi (sr_conf_new r) ent bs be ff"
  have "{i. i < length ?v \<and> ?v ! i \<noteq> NegInf} =
      {i \<in> block_masks x (sc_mask_id cfg) bs be. before_frozen ff i}"
  proof (rule set_eqI)
    fix i
    show "i \<in> {i. i < length ?v \<and> ?v ! i \<noteq> NegInf} \<longleftrightarrow>
        i \<in> {i \<in> block_masks x (sc_mask_id cfg) bs be. before_frozen ff i}"
      by (cases "i < length x") (simp_all add: masked_conf_nth, simp add: block_masks_def)
  qed
  with transfer_row_Inr [OF tr _ refl assms(2,4)] show "\<exists>v idx.
      topk_spec v (nat (quota (int (card (block_masks x (sc_mask_id cfg) bs be))) s)) idx \<and>
      {i. i < length x \<and> sr_transfer r ! i} = set idx \<and> length v = length x \<and>
      {i. i < length v \<and> v ! i \<noteq> NegInf} =
        {i \<in> block_masks x (sc_mask_id cfg) bs be. before_frozen ff i}"
    by (intro exI [of _ ?v]) auto
  show "{i. i < length x \<and> sr_remask r ! i} \<subseteq>
      {i. i < length x \<and> x ! i \<noteq> sc_mask_id cfg \<and> bs \<le> i \<and> i < be \<and> before_frozen ff i}"
    using remask_row_spec(2) [OF assms(2) _ refl refl, of cur ?mi cfg age bs be ff] len
    by (auto simp: rem split: if_splits)
qed

lemma step_commits:
  assumes "local_step tc model noise x age s bs be spb cfg ff = Inr r"
    and "torch_ok tc" and "length (model x) = length x" and "0 < s"
    and "\<forall>i \<in> block_masks x (sc_mask_id cfg) bs be. before_frozen ff i"
  shows "{i. i < length x \<and> sr_transfer r ! i} \<subseteq> block_masks x (sc_mask_id cfg) bs be \<and>
    int (card {i. i < length x \<and> sr_transfer r ! i}) =
      quota (int (card (block_masks x (sc_mask_id cfg) bs be))) s \<and>
    (\<forall>i < length x. i < bs \<or> be \<le> i \<longrightarrow> sr_x r ! i = x ! i)"
proof -
  let ?M = "block_masks x (sc_mask_id cfg) bs be"
  let ?k = "quota (int (card ?M)) s"
  obtain v idx where top: "topk_spec v (nat ?k) idx"
    and idx: "{i. i < length x \<and> sr_transfer r ! i} = set idx"
    and v: "{i. i < length v \<and> v ! i \<noteq> NegInf} = {i \<in> ?M. before_frozen ff i}"
    using step_picks(1) [OF assms(1-4)] by blast
  have "{i \<in> ?M. before_frozen ff i} = ?M" using assms(5) by auto
  moreover have "nat ?k \<le> card ?M" using quota_bounds(2) [OF assms(4), of "int (card ?M)"] by simp
  ultimately have sub: "set idx \<subseteq> ?M" using topk_finite [OF top] v by simp
  have card: "int (card (set idx)) = ?k"
    using top quota_bounds(1) [OF assms(4), of "int (card ?M)"] by (simp add: topk_spec_def distinct_card)
  have "sr_x r ! i = x ! i" if "i < length x" "i < bs \<or> be \<le> i" for i
  proof -
    have "\<not> sr_transfer r ! i" using sub idx that by (auto simp: block_masks_def)
    moreover have "\<not> sr_remask r ! i" using step_picks(2) [OF assms(1-4)] that by auto
    ultimately show ?thesis using that local_step_parts(2) [OF assms(1,3)] by simp
  qed
  with sub card show ?thesis by (simp add: idx)
qed

lemma last_step_commits:
  assumes "local_step tc model noise x age 1 bs be spb cfg ff = Inr r"
    and "torch_ok tc" and "length (model x) = length x"
    and "\<forall>i \<in> block_masks x (sc_mask_id cfg) bs be. before_frozen ff i"
  shows "{i. i < length x \<and> sr_transfer r ! i} = block_masks x (sc_mask_id cfg) bs be \<and>
    (\<forall>i < length x. \<not> sr_remask r ! i \<and>
       sr_x r ! i = (if i \<in> block_masks x (sc_mask_id cfg) bs be then sr_x0 r ! i else x ! i))"
proof -
  let ?M = "block_masks x (sc_mask_id cfg) bs be"
  let ?T = "{i. i < length x \<and> sr_transfer r ! i}"
  obtain v idx where top: "topk_spec v (nat (quota (int (card ?M)) 1)) idx" and idx: "?T = set idx"
    and v: "{i. i < length v \<and> v ! i \<noteq> NegInf} = {i \<in> ?M. before_frozen ff i}"
    using step_picks(1) [OF assms(1-3) zero_less_one] by blast
  have k: "nat (quota (int (card ?M)) 1) = card ?M" by simp
  have "{i \<in> ?M. before_frozen ff i} = ?M" using assms(4) by auto
  with topk_finite [OF top] v k have "set idx \<subseteq> ?M" by simp
  moreover have "card (set idx) = card ?M" using top k by (simp add: topk_spec_def distinct_card)
  ultimately have T: "?T = ?M" using idx by (simp add: card_subset_eq)
  have "sr_remask r = replicate (length x) False" using local_step_parts(1) [OF assms(1,3)] by auto
  with T show ?thesis using local_step_parts(2) [OF assms(1,3)] by (auto simp: block_masks_def)
qed

lemma step_row_lengths:
  assumes "local_step tc model noise x age s bs be spb cfg ff = Inr r"
    and "torch_ok tc" and "length (model x) = length x" and "0 < s"
  shows "length (sr_transfer r) = length x" and "length (sr_x r) = length x"
proof -
  obtain ent cur where "transfer_row tc s (map (\<lambda>t. t = sc_mask_id cfg) x)
      (masked_conf (map (\<lambda>t. t = sc_mask_id cfg) x) (sr_conf_new r) ent bs be ff) bs be = Inr (sr_transfer r)"
    using local_step_parts(1) [OF assms(1,3)] by blast
  then show "length (sr_transfer r) = length x"
    using transfer_row_Inr [OF _ _ refl assms(2,4)] by simp
  show "length (sr_x r) = length x" by (simp add: local_step_parts(2) [OF assms(1,3)])
qed

lemma topk_reaches:
  assumes "topk_spec v k idx" and "card {i. i < length v \<and> v ! i \<noteq> NegInf} \<le> k"
  shows "{i. i < length v \<and> v ! i \<noteq> NegInf} \<subseteq> set idx"
proof (rule ccontr)
  let ?F = "{i. i < length v \<and> v ! i \<noteq> NegInf}"
  assume "\<not> ?thesis"
  then obtain j where j: "j \<in> ?F" "j \<notin> set idx" by blast
  have "i \<in> ?F" if "i \<in> set idx" for i
  proof -
    have "i < length v" "v ! j \<le> v ! i"
      using assms(1) that j by (auto simp: topk_spec_def)
    with j(1) show ?thesis by (cases "v ! j") auto
  qed
  then have "set idx \<subset> ?F" using j by blast
  then have "card (set idx) < card ?F" by (intro psubset_card_mono) auto
  with assms show False by (simp add: topk_spec_def distinct_card)
qed

lemma last_step_reaches:
  assumes "local_step tc model noise x age 1 bs be spb cfg ff = Inr r"
    and "torch_ok tc" and "length (model x) = length x"
    and "i \<in> block_masks x (sc_mask_id cfg) bs be" and "before_frozen ff i"
  shows "sr_transfer r ! i"
proof -
  let ?M = "block_masks x (sc_mask_id cfg) bs be"
  obtain v idx where top: "topk_spec v (nat (quota (int (card ?M)) 1)) idx"
    and idx: "{i. i < length x \<and> sr_transfer r ! i} = set idx"
    and v: "{i. i < length v \<and> v ! i \<noteq> NegInf} = {i \<in> ?M. before_frozen ff i}"
    using step_picks(1) [OF assms(1-3) zero_less_one] by blast
  have "card {i \<in> ?M. before_frozen ff i} \<le> card ?M" by (intro card_mono) auto
  with topk_reaches [OF top] v have "{i \<in> ?M. before_frozen ff i} \<subseteq> set idx" by simp
  with assms(4,5) idx show ?thesis by blast
qed

lemma step_settles:
  assumes "local_step tc model noise x age s bs be spb cfg ff = Inr r"
    and "torch_ok tc" and "length (model x) = length x" and "0 < s"
    and "i < length x" and "sr_x r ! i \<noteq> sc_mask_id cfg"
  shows "x ! i \<noteq> sc_mask_id cfg \<or> sr_transfer r ! i"
  using assms(5,6) local_step_parts(2) [OF assms(1,3)] by (auto split: if_splits)

subsection \<open>A concrete PyTorch\<close>

text \<open>An \<open>argmax\<close> and a \<open>topk\<close> that keep to the documentation, to evaluate steps with: of equal
  elements both take the first.\<close>

definition first_argmax :: "real list \<Rightarrow> nat" where
  "first_argmax v = hd (filter (\<lambda>i. v ! i = Max (set v)) [0..<length v])"

definition stable_topk :: "xreal list \<Rightarrow> nat \<Rightarrow> nat list" where
  "stable_topk v k = drop (length v - k) (sort_key (\<lambda>i. v ! i) (rev [0..<length v]))"

definition plain_torch :: torch where
  "plain_torch = \<lparr>softmax = (\<lambda>v. v), argmax = first_argmax, topk = stable_topk\<rparr>"

lemma stable_topk_spec:
  assumes "k \<le> length v"
  shows "topk_spec v k (stable_topk v k)"
proof -
  let ?ys = "sort_key (\<lambda>i. v ! i) (rev [0..<length v])"
  let ?a = "take (length v - k) ?ys" and ?b = "drop (length v - k) ?ys"
  have split: "?a @ ?b = ?ys" by (rule append_take_drop_id)
  have dist: "distinct (?a @ ?b)" unfolding split by simp
  have all: "set ?a \<union> set ?b = {..<length v}"
    unfolding set_append [symmetric] split by auto
  have "sorted (map (\<lambda>i. v ! i) (?a @ ?b))" unfolding split by (rule sorted_sort_key)
  then have "\<forall>x \<in> set (map (\<lambda>i. v ! i) ?a). \<forall>y \<in> set (map (\<lambda>i. v ! i) ?b). x \<le> y"
    unfolding map_append sorted_append by blast
  then have "\<forall>j \<in> set ?a. \<forall>i \<in> set ?b. v ! j \<le> v ! i" by simp
  then show ?thesis
    using dist all assms unfolding topk_spec_def stable_topk_def by auto
qed

lemma plain_torch_ok: "torch_ok plain_torch"
proof -
  have "first_argmax v < length v" if "v \<noteq> []" for v
  proof -
    have "Max (set v) \<in> set v" using that by simp
    then have "filter (\<lambda>i. v ! i = Max (set v)) [0..<length v] \<noteq> []"
      by (auto simp: filter_empty_conv in_set_conv_nth)
    from hd_in_set [OF this] show ?thesis by (auto simp: first_argmax_def)
  qed
  then show ?thesis by (simp add: torch_ok_def plain_torch_def stable_topk_spec)
qed

text \<open>A vocabulary of three: 0 ends the text, 1 is the mask, 2 is a word.\<close>

definition example_step_cfg :: step_config where
  "example_step_cfg =
     \<lparr>sc_mask_id = 1, sc_eos_id = 0, sc_temperature = 0, sc_eos_margin_threshold = 0,
      sc_remask_conf_threshold = 1 / 2, sc_remask_min_age = 1, sc_remask_max_frac = 1 / 2,
      sc_remask_reserve_frac = 0\<rparr>"

definition example_model :: "int list \<Rightarrow> real list list" where
  "example_model x = [[1 / 10, 3 / 5, 3 / 10], [1 / 10, 1 / 5, 7 / 10], [1 / 5, 1 / 5, 3 / 5]]"

lemma example_argmax:
  "first_argmax [1 / 10, 3 / 5, 3 / 10] = 1"
  "first_argmax [1 / 10, 1 / 5, 7 / 10] = 2"
  "first_argmax [1 / 5, 1 / 5, 3 / 5] = 2"
  by (simp_all add: first_argmax_def upt_rec)

lemmas example_defs = local_step_def example_step_cfg_def example_model_def plain_torch_def
  add_gumbel_noise_def gather_def example_argmax eos_margin_def col_index_def transfer_row_def
  masked_conf_def stable_topk_def before_frozen_def py_round_def Let_def

lemma example_masks: "block_masks [2, 1, 1] (sc_mask_id example_step_cfg) 1 3 = {1, 2}"
  by (auto simp: block_masks_def example_step_cfg_def less_Suc_eq numeral_eq_Suc)

lemma example_first_run:
  "\<exists>r. local_step plain_torch example_model [] [2, 1, 1] [0, 0, 0] 2 1 3 4 example_step_cfg None = Inr r"
  by (simp add: example_defs)

lemma example_last_run:
  "\<exists>r. local_step plain_torch example_model [] [2, 1, 1] [0, 0, 0] 1 1 3 4 example_step_cfg None = Inr r"
  by (simp add: example_defs)

lemma example_frozen_run:
  "\<exists>r. local_step plain_torch example_model [] [2, 1, 1] [0, 0, 0] 1 1 3 4 example_step_cfg (Some 1) = Inr r \<and>
     sr_transfer r ! 0 \<and> sr_x r ! 0 = 1"
  by (simp add: example_defs upt_rec)

subsection \<open>Properties\<close>

text \<open>C7: a step commits exactly what the schedule asks for. As long as no mask of the block lies at
  or past the frozen boundary, a step commits only masked positions of its block, namely
  \<open>ceil (remaining / steps_remaining)\<close> of them, and every position outside the block
  (prompt, finished blocks, future blocks) keeps its token: the guarantee that the comment on
  \<open>remaining\<close> asks for.\<close>

theorem transfer_exact:
  assumes "local_step tc model noise x age s bs be spb cfg ff = Inr r"
    and "torch_ok tc" and "length (model x) = length x" and "0 < s"
    and "\<forall>i \<in> block_masks x (sc_mask_id cfg) bs be. before_frozen ff i"
  shows "{i. i < length x \<and> sr_transfer r ! i} \<subseteq> block_masks x (sc_mask_id cfg) bs be \<and>
    int (card {i. i < length x \<and> sr_transfer r ! i}) =
      quota (int (card (block_masks x (sc_mask_id cfg) bs be))) s \<and>
    (\<forall>i < length x. i < bs \<or> be \<le> i \<longrightarrow> sr_x r ! i = x ! i)"
  using assms by (rule step_commits)

theorem transfer_exact_witness:
  "\<exists>r. local_step plain_torch example_model [] [2, 1, 1] [0, 0, 0] 2 1 3 4 example_step_cfg None = Inr r \<and>
       card {i. i < 3 \<and> sr_transfer r ! i} = 1 \<and> sr_x r ! 0 = 2"
proof -
  obtain r where run: "local_step plain_torch example_model [] [2, 1, 1] [0, 0, 0] 2 1 3 4 example_step_cfg None = Inr r"
    using example_first_run by blast
  note example_masks
  with transfer_exact [OF run plain_torch_ok] run show ?thesis
    by (auto simp: example_model_def before_frozen_def quota_def numeral_eq_Suc)
qed

text \<open>C23: a block is finished when its steps are, unless a boundary cuts it. On the last step of a
  block, if no mask of the block lies at or past the frozen boundary, every masked position of
  the block is committed with the node's own prediction, nothing is reopened, and all other
  positions keep their tokens. Without that condition this is false (\<open>frozen_block_overflows\<close>).\<close>

theorem last_step_completes:
  assumes "local_step tc model noise x age 1 bs be spb cfg ff = Inr r"
    and "torch_ok tc" and "length (model x) = length x"
    and "\<forall>i \<in> block_masks x (sc_mask_id cfg) bs be. before_frozen ff i"
  shows "{i. i < length x \<and> sr_transfer r ! i} = block_masks x (sc_mask_id cfg) bs be \<and>
    (\<forall>i < length x. \<not> sr_remask r ! i \<and>
       sr_x r ! i = (if i \<in> block_masks x (sc_mask_id cfg) bs be then sr_x0 r ! i else x ! i))"
  using assms by (rule last_step_commits)

theorem last_step_completes_witness:
  "\<exists>r. local_step plain_torch example_model [] [2, 1, 1] [0, 0, 0] 1 1 3 4 example_step_cfg None = Inr r \<and>
       sr_x r = [2, 2, 2]"
proof -
  obtain r where run: "local_step plain_torch example_model [] [2, 1, 1] [0, 0, 0] 1 1 3 4 example_step_cfg None = Inr r"
    using example_last_run by blast
  have x0: "sr_x0 r = [1, 2, 2]" and len: "length (sr_x r) = 3"
    using local_step_parts(2,4) [OF run]
    by (simp_all add: example_model_def plain_torch_def example_argmax add_gumbel_noise_def example_step_cfg_def)
  from last_step_completes [OF run plain_torch_ok]
  have "\<forall>i < 3. sr_x r ! i = (if i \<in> block_masks [2, 1, 1] 1 1 3 then [1, 2, 2] ! i else [2, 1, 1] ! i)"
    by (simp add: x0 example_model_def before_frozen_def example_step_cfg_def)
  then have "sr_x r ! 0 = 2" "sr_x r ! 1 = 2" "sr_x r ! 2 = 2"
    by (simp_all add: block_masks_def numeral_eq_Suc)
  with len have "sr_x r = [2, 2, 2]"
    by (auto simp: list_eq_iff_nth_eq less_Suc_eq numeral_eq_Suc)
  with run show ?thesis by blast
qed

text \<open>C36: what may be reopened. A position is remasked only if it is settled, lies in the block and
  before the frozen boundary, is old enough, and its current token's probability is below the
  threshold. At most \<open>max(1, int(remask_max_frac * n))\<close> of the \<open>n\<close> eligible positions are, with the
  product taken in double precision: one position may always be reopened, however small the
  fraction. In the reserved last steps of a block, \<open>max(1, round(remask_reserve_frac * steps))\<close> of
  them, none is.\<close>

theorem remask_bounded:
  assumes "local_step tc model noise x age s bs be spb cfg ff = Inr r"
    and "torch_ok tc" and "length (model x) = length x"
    and "el = {i. i < length x \<and> x ! i \<noteq> sc_mask_id cfg \<and> sc_remask_min_age cfg \<le> age ! i \<and>
            bs \<le> i \<and> i < be \<and> before_frozen ff i}"
    and "R = {i. i < length x \<and> sr_remask r ! i}"
  shows "R \<subseteq> {i \<in> el. (softmax tc (model x ! i)) ! nat (x ! i) < sc_remask_conf_threshold cfg} \<and>
    int (card R) \<le> max 1 (py_trunc (float_mul (sc_remask_max_frac cfg) (int (card el)))) \<and>
    (s \<le> max 1 (py_round (float_mul (sc_remask_reserve_frac cfg) spb)) \<longrightarrow> R = {})"
proof -
  let ?mi = "map (\<lambda>t. t = sc_mask_id cfg) x"
  obtain cur where cur: "gather (sr_p r) x = Inr cur" and len: "length cur = length ?mi"
    and rem: "sr_remask r = (if s > max 1 (py_round (float_mul (sc_remask_reserve_frac cfg) spb))
        then remask_row tc cfg ?mi age cur bs be ff else replicate (length x) False)"
    using local_step_parts(1) [OF assms(1,3)] by auto
  have conf: "cur ! i = (softmax tc (model x ! i)) ! nat (x ! i)" if "i < length x" for i
    using cur that assms(3) local_step_parts(5) [OF assms(1,3)]
    by (auto simp: gather_def mapM_eq_Inr_iff list_all2_conv_all_nth split: if_splits)
  have el: "el = {i. i < length ?mi \<and> \<not> ?mi ! i \<and> sc_remask_min_age cfg \<le> age ! i \<and>
      bs \<le> i \<and> i < be \<and> before_frozen ff i}"
    using assms(4) by auto
  note spec = remask_row_spec [OF assms(2) len refl el]
  show ?thesis
  proof (cases "s > max 1 (py_round (float_mul (sc_remask_reserve_frac cfg) spb))")
    case True
    then have R: "R = {i. i < length ?mi \<and> remask_row tc cfg ?mi age cur bs be ff ! i}"
      by (simp add: assms(5) rem)
    have "i < length x" if "i \<in> el" for i using that assms(4) by simp
    with conf spec(2,3) R True show ?thesis by auto
  next
    case False
    then have "R = {}" by (auto simp: assms(5) rem)
    then show ?thesis by simp
  qed
qed

text \<open>Two settled positions of the block are old and doubtful, half of them may be reopened, and three
  steps are left: the less probable one is.\<close>

definition doubtful_model :: "int list \<Rightarrow> real list list" where
  "doubtful_model x =
     [[1 / 10, 1 / 5, 7 / 10], [1 / 10, 1 / 2, 2 / 5], [1 / 10, 3 / 5, 3 / 10], [1 / 10, 1 / 5, 7 / 10]]"

lemma doubtful_row:
  "remask_row plain_torch example_step_cfg [False, False, False, True] [0, 1, 1, 0] [7 / 10, 2 / 5, 3 / 10, 1 / 5] 1 4 None =
     [False, False, True, False]"
proof -
  have half: "float_mul (1 / 2) 2 = 1" using float_mul_half [of 2] by simp
  have pick: "stable_topk [Fin (- (2 / 5)), Fin (- (3 / 10))] (Suc 0) = [1]"
    by (simp add: stable_topk_def upt_rec)
  have idx: "[0..<4] = [0, 1, 2, 3 :: nat]" by (simp add: upt_rec)
  have len: "length [False, False, False, True] = 4" "topk plain_torch = stable_topk"
    by (simp_all add: plain_torch_def)
  show ?thesis
    unfolding remask_row_def len idx Let_def
    by (simp add: example_step_cfg_def pick before_frozen_def py_trunc_def half)
qed

lemma doubtful_run:
  "\<exists>r. local_step plain_torch doubtful_model [] [2, 2, 2, 1] [0, 1, 1, 0] 3 1 4 4 example_step_cfg None = Inr r"
proof -
  have am: "first_argmax [1 / 10, 1 / 2, 2 / 5] = 1" by (simp add: first_argmax_def upt_rec)
  show ?thesis by (simp add: example_defs doubtful_model_def am)
qed

theorem remask_bounded_witness:
  "\<exists>r. local_step plain_torch doubtful_model [] [2, 2, 2, 1] [0, 1, 1, 0] 3 1 4 4 example_step_cfg None = Inr r \<and>
       {i. i < 4 \<and> sr_remask r ! i} = {2} \<and>
       {i. i < 4 \<and> sr_remask r ! i} \<subseteq> {1, 2} \<and> card {i. i < 4 \<and> sr_remask r ! i} \<le> 1"
proof -
  let ?x = "[2, 2, 2, 1] :: int list" and ?age = "[0, 1, 1, 0] :: int list"
  obtain r where run: "local_step plain_torch doubtful_model [] ?x ?age 3 1 4 4 example_step_cfg None = Inr r"
    using doubtful_run by blast
  have len: "length (doubtful_model ?x) = length ?x" by (simp add: doubtful_model_def)
  have none: "py_round (float_mul (sc_remask_reserve_frac example_step_cfg) 4) = 0"
    and cur: "gather (sr_p r) ?x = Inr [7 / 10, 2 / 5, 3 / 10, 1 / 5]"
    using local_step_parts(5) [OF run len]
    by (simp_all add: example_step_cfg_def py_round_def gather_def doubtful_model_def plain_torch_def)
  have masks: "map (\<lambda>t. t = sc_mask_id example_step_cfg) ?x = [False, False, False, True]"
    by (simp add: example_step_cfg_def)
  have rm: "sr_remask r = [False, False, True, False]"
    using local_step_parts(1) [OF run len] cur doubtful_row unfolding none masks by auto
  have el: "{1, 2} = {i. i < length ?x \<and> ?x ! i \<noteq> sc_mask_id example_step_cfg \<and>
      sc_remask_min_age example_step_cfg \<le> ?age ! i \<and> 1 \<le> i \<and> i < 4 \<and> before_frozen None i}"
    by (auto simp: example_step_cfg_def before_frozen_def less_Suc_eq numeral_eq_Suc)
  have "py_trunc (float_mul (sc_remask_max_frac example_step_cfg) 2) = 1"
    using float_mul_half [of 2] by (simp add: example_step_cfg_def py_trunc_def)
  moreover have "int (card {1, 2 :: nat}) = 2" "length ?x = 4" by simp_all
  note bounded = remask_bounded [OF run plain_torch_ok len el refl, unfolded this]
  ultimately have "int (card {i. i < 4 \<and> sr_remask r ! i}) \<le> 1" by simp
  moreover have "{i. i < 4 \<and> sr_remask r ! i} \<subseteq> {1, 2}" using bounded by blast
  moreover have "{i. i < 4 \<and> sr_remask r ! i} = {2}" by (auto simp: rm less_Suc_eq numeral_eq_Suc)
  ultimately show ?thesis using run by auto
qed

text \<open>C19: a frozen boundary inside the block breaks the guarantee. If fewer masked positions of the
  block lie before the boundary than the schedule asks for (their count includes the masks
  past the boundary), the step commits some position that is no candidate: not masked, or not
  in the block, or at or past the boundary. It gets this node's prediction, whatever
  \<open>topk\<close> does with ties.\<close>

theorem frozen_block_overflows:
  assumes "local_step tc model noise x age s bs be spb cfg ff = Inr r"
    and "torch_ok tc" and "length (model x) = length x" and "0 < s"
    and "int (card {i \<in> block_masks x (sc_mask_id cfg) bs be. before_frozen ff i})
           < quota (int (card (block_masks x (sc_mask_id cfg) bs be))) s"
  shows "\<exists>i < length x. sr_transfer r ! i \<and> sr_x r ! i = sr_x0 r ! i \<and>
    \<not> (x ! i = sc_mask_id cfg \<and> bs \<le> i \<and> i < be \<and> before_frozen ff i)"
proof -
  let ?M = "block_masks x (sc_mask_id cfg) bs be"
  let ?F = "{i \<in> ?M. before_frozen ff i}"
  from step_picks(1) [OF assms(1-4)] obtain v :: "xreal list" and idx where top: "topk_spec v (nat (quota (int (card ?M)) s)) idx"
    and idx: "{i. i < length x \<and> sr_transfer r ! i} = set idx"
    by blast
  have "card ?F < nat (quota (int (card ?M)) s)" using assms(5) by simp
  from topk_overflows [OF top this] obtain i where i: "i \<in> set idx" "i \<notin> ?F" by auto
  then have hit: "i < length x" "sr_transfer r ! i" using idx by auto
  then have "sr_x r ! i = sr_x0 r ! i" using local_step_parts(2) [OF assms(1,3)] by simp
  with hit i(2) show ?thesis unfolding block_masks_def by blast
qed

theorem frozen_block_overflows_witness:
  "\<exists>r. local_step plain_torch example_model [] [2, 1, 1] [0, 0, 0] 1 1 3 4 example_step_cfg (Some 1) = Inr r \<and>
       sr_transfer r ! 0 \<and> sr_x r ! 0 = 1 \<and>
       (\<exists>i < 3. sr_transfer r ! i \<and> \<not> ([2, 1, 1 :: int] ! i = 1 \<and> 1 \<le> i \<and> i < 3 \<and> i < (1::nat)))"
proof -
  obtain r where run: "local_step plain_torch example_model [] [2, 1, 1] [0, 0, 0] 1 1 3 4 example_step_cfg (Some 1) = Inr r"
    and hit: "sr_transfer r ! 0" "sr_x r ! 0 = 1"
    using example_frozen_run by blast
  have none: "{i \<in> block_masks [2, 1, 1] (sc_mask_id example_step_cfg) 1 3. before_frozen (Some 1) i} = {}"
    by (auto simp: block_masks_def before_frozen_def)
  have "int (card {i \<in> block_masks [2, 1, 1] (sc_mask_id example_step_cfg) 1 3. before_frozen (Some 1) i})
      < quota (int (card (block_masks [2, 1, 1] (sc_mask_id example_step_cfg) 1 3))) 1"
    by (subst none, simp only: example_masks) simp
  from frozen_block_overflows [OF run plain_torch_ok _ zero_less_one this] run hit show ?thesis
    by (auto simp: example_model_def before_frozen_def example_step_cfg_def numeral_3_eq_3)
qed

end
