(* ===== verification/Swarm.thy ===== *)
theory Swarm imports Transport Peers Rounds begin

section \<open>The swarm node\<close>

text \<open>
  \<open>node/swarm.py\<close>: the class \<open>SwarmNode\<close>. Its fields are the record, with the world outside
  the repository (theory \<open>Transport\<close>) as one more component, so that every method takes a
  node and returns a node. A method that may raise also returns a \<open>result\<close>, next to the node
  as it was when the exception left the method.

  \<open>collect_until\<close> and \<open>wait_for_round\<close> poll in a loop that need not end: they are
  \<open>partial_function (option)\<close>, where \<open>None\<close> stands for not returning. \<open>collect_returns\<close> and
  \<open>wait_returns\<close> are the termination theorems.

  The inbox provides the contract \<open>mailbox\<close>: what is filed under a key stays there, whatever
  else is filed, until that key is dropped.
\<close>

type_synonym inbox_key = "string \<times> pyval \<times> pyval"

type_synonym inbox = "(inbox_key, (string, payload) dict) dict"

record swarm_node =
  sn_id :: string
  sn_transport :: transport
  sn_world :: world
  sn_peers :: peer_table
  sn_round :: round_manager
  sn_inbox :: inbox

definition SwarmNode :: "world \<Rightarrow> string \<Rightarrow> relay list \<Rightarrow> swarm_node result" where
  "SwarmNode w self_id relays =
     rbind (Transport relays) (\<lambda>tr.
       Inr \<lparr>sn_id = self_id, sn_transport = tr, sn_world = w,
            sn_peers = PeerTable self_id PEER_TIMEOUT, sn_round = RoundManager self_id,
            sn_inbox = []\<rparr>)"

text \<open>\<open>time.time()\<close> called by a method.\<close>

definition read_clock :: "swarm_node \<Rightarrow> real \<times> swarm_node" where
  "read_clock sn = (fst (time_time (sn_world sn)), sn\<lparr>sn_world := snd (time_time (sn_world sn))\<rparr>)"

text \<open>The inbox: \<open>setdefault(key, {})[node_id] = payload\<close>, \<open>get(key, {})\<close> and \<open>pop(key, None)\<close>.\<close>

definition inbox_file :: "inbox_key \<Rightarrow> string \<Rightarrow> payload \<Rightarrow> inbox \<Rightarrow> inbox" where
  "inbox_file key node_id payload ib =
     dset key (dset node_id payload (dget_default ib key [])) ib"

definition inbox_bucket :: "inbox \<Rightarrow> inbox_key \<Rightarrow> (string, payload) dict" where
  "inbox_bucket ib key = dget_default ib key []"

definition inbox_drop :: "inbox_key \<Rightarrow> inbox \<Rightarrow> inbox" where
  "inbox_drop key ib = dpop key ib"

definition payload_key :: "string \<Rightarrow> payload \<Rightarrow> inbox_key" where
  "payload_key msg_type payload =
     (msg_type, pay_get payload ''round_id'', pay_get payload ''sync_seq'')"

fun key_hashable :: "inbox_key \<Rightarrow> bool" where
  "key_hashable (msg_type, rid, seq) = (hashable rid \<and> hashable seq)"

text \<open>The two halves of \<open>_dispatch\<close>: what a message says of its sender, then what it is.\<close>

definition note_sender :: "swarm_node \<Rightarrow> string \<Rightarrow> string \<Rightarrow> real \<Rightarrow> swarm_node" where
  "note_sender sn node_id msg_type receive_ts =
     (if node_id \<noteq> sn_id sn then
        let sn1 = sn\<lparr>sn_round := note_leader_activity (sn_round sn) node_id receive_ts\<rparr> in
        if msg_type \<in> {HEARTBEAT, HELLO}
        then sn1\<lparr>sn_peers := mark_alive (sn_peers sn1) node_id (Some receive_ts) receive_ts\<rparr>
        else if msg_type = BYE then sn1\<lparr>sn_peers := mark_gone (sn_peers sn1) node_id\<rparr>
        else sn1
      else sn)"

definition dispatch :: "swarm_node \<Rightarrow> envelope \<Rightarrow> envelope result \<times> swarm_node" where
  "dispatch sn env =
     (let node_id = e_node_id env; msg_type = e_type env;
          (receive_ts, sn0) = read_clock sn;
          sn1 = note_sender sn0 node_id msg_type receive_ts
      in if msg_type = GEN_START then
           (case on_gen_start (sn_round sn1) env (Some receive_ts) receive_ts of
              Inl e \<Rightarrow> (Inl e, sn1)
            | Inr rm \<Rightarrow> (Inr env, sn1\<lparr>sn_round := rm\<rparr>))
         else if msg_type = GEN_DONE then
           (Inr env, sn1\<lparr>sn_round := on_gen_done (sn_round sn1) env\<rparr>)
         else if msg_type \<in> {COMMIT, DISPUTE_SCORE} then
           (let payload = e_payload env; key = payload_key msg_type payload
            in if key_hashable key
               then (Inr env, sn1\<lparr>sn_inbox := inbox_file key node_id payload (sn_inbox sn1)\<rparr>)
               else (Inl TypeError, sn1))
         else (Inr env, sn1))"

definition pump_once :: "swarm_node \<Rightarrow> int \<Rightarrow> envelope option result \<times> swarm_node" where
  "pump_once sn timeout_ms =
     (case poll_recv (sn_world sn) timeout_ms of
        (Inl e, w) \<Rightarrow> (Inl e, sn\<lparr>sn_world := w\<rparr>)
      | (Inr None, w) \<Rightarrow> (Inr None, sn\<lparr>sn_world := w\<rparr>)
      | (Inr (Some env), w) \<Rightarrow>
          pbind (dispatch (sn\<lparr>sn_world := w\<rparr>) env) (\<lambda>env sn'. (Inr (Some env), sn')))"

text \<open>The body of the loop after \<open>pump_once\<close>, for a message: the two \<open>continue\<close>s and the two
  assignments.\<close>

definition collect_take ::
  "inbox_key \<Rightarrow> envelope \<Rightarrow> string set \<times> (string, payload) dict \<Rightarrow> string set \<times> (string, payload) dict" where
  "collect_take key env acc =
     (let (remaining, received) = acc; payload = e_payload env in
      if payload_key (e_type env) payload \<noteq> key then acc
      else if e_node_id env \<notin> remaining \<and> e_node_id env \<notin> set (keys received) then acc
      else (remaining - {e_node_id env}, dset (e_node_id env) payload received))"

partial_function (option) collect_loop ::
  "inbox_key \<Rightarrow> real \<Rightarrow> string set \<times> (string, payload) dict \<Rightarrow> swarm_node
   \<Rightarrow> ((string, payload) dict result \<times> swarm_node) option" where
  "collect_loop key deadline acc sn =
     (if fst acc = {} then Some (Inr (snd acc), sn)
      else (case read_clock sn of (now, sn1) \<Rightarrow>
        if now < deadline then
          (case pump_once sn1 100 of
             (Inl e, sn2) \<Rightarrow> Some (Inl e, sn2)
           | (Inr None, sn2) \<Rightarrow> collect_loop key deadline acc sn2
           | (Inr (Some env), sn2) \<Rightarrow> collect_loop key deadline (collect_take key env acc) sn2)
        else Some (Inr (snd acc), sn1)))"

definition collect_until ::
  "swarm_node \<Rightarrow> string \<Rightarrow> pyval \<Rightarrow> int \<Rightarrow> string set \<Rightarrow> real
   \<Rightarrow> ((string, payload) dict result \<times> swarm_node) option" where
  "collect_until sn msg_type rid sync_seq expected_from timeout =
     (let key = (msg_type, rid, PInt sync_seq) in
      if \<not> key_hashable key then Some (Inl TypeError, sn)
      else
        let received = filter (\<lambda>(k, v). k \<in> expected_from) (inbox_bucket (sn_inbox sn) key);
            remaining = expected_from - set (keys received);
            (now, sn1) = read_clock sn;
            deadline = now + timeout
        in case collect_loop key deadline (remaining, received) sn1 of
             None \<Rightarrow> None
           | Some (Inl e, sn2) \<Rightarrow> Some (Inl e, sn2)
           | Some (Inr received, sn2) \<Rightarrow>
               Some (Inr received, sn2\<lparr>sn_inbox := inbox_drop key (sn_inbox sn2)\<rparr>))"

definition publish_msg :: "swarm_node \<Rightarrow> string \<Rightarrow> payload option \<Rightarrow> unit result \<times> swarm_node" where
  "publish_msg sn msg_type payload =
     (case publish (sn_world sn) (sn_id sn) msg_type payload of
        (r, w) \<Rightarrow> (r, sn\<lparr>sn_world := w\<rparr>))"

definition send_heartbeat :: "swarm_node \<Rightarrow> unit result \<times> swarm_node" where
  "send_heartbeat sn = publish_msg sn HEARTBEAT None"

text \<open>\<open>hex\<close> is the random identifier \<open>start_round\<close> draws.\<close>

definition start_round_as_leader ::
  "swarm_node \<Rightarrow> string list \<Rightarrow> pyval \<Rightarrow> pyval \<Rightarrow> string \<Rightarrow> round_state result \<times> swarm_node" where
  "start_round_as_leader sn ps prmpt gcfg hex =
     (if active_round (sn_round sn) \<noteq> None then (Inl AssertionError, sn)
      else
        let (t1, sn1) = read_clock sn; (t2, sn2) = read_clock sn1;
            (state, rm) = start_round (sn_round sn2) ps prmpt gcfg hex t1 t2;
            sn3 = sn2\<lparr>sn_round := rm\<rparr>
        in pbind (publish_msg sn3 GEN_START (Some
             [(''round_id'', round_id state),
              (''participants'', PList (map PStr (participants state))),
              (''prompt'', prmpt), (''gen_config'', gcfg)]))
             (\<lambda>_ sn4. (Inr state, sn4)))"

partial_function (option) wait_loop ::
  "real option \<Rightarrow> swarm_node \<Rightarrow> (round_state option result \<times> swarm_node) option" where
  "wait_loop deadline sn =
     (case active_round (sn_round sn) of
        Some rs \<Rightarrow> Some (Inr (Some rs), sn)
      | None \<Rightarrow>
          (case (case deadline of None \<Rightarrow> (False, sn)
                 | Some d \<Rightarrow> (case read_clock sn of (now, sn1) \<Rightarrow> (now > d, sn1))) of
             (late, sn1) \<Rightarrow>
               if late then Some (Inr None, sn1)
               else (case pump_once sn1 200 of
                       (Inl e, sn2) \<Rightarrow> Some (Inl e, sn2)
                     | (Inr _, sn2) \<Rightarrow> wait_loop deadline sn2)))"

definition wait_for_round ::
  "swarm_node \<Rightarrow> real option \<Rightarrow> (round_state option result \<times> swarm_node) option" where
  "wait_for_round sn timeout =
     (case timeout of
        None \<Rightarrow> wait_loop None sn
      | Some t \<Rightarrow> (case read_clock sn of (now, sn1) \<Rightarrow> wait_loop (Some (now + t)) sn1))"

definition close_node :: "swarm_node \<Rightarrow> swarm_node" where
  "close_node sn = sn\<lparr>sn_transport := close (sn_transport sn)\<rparr>"

subsection \<open>The interface of the inbox\<close>

text \<open>
  A mailbox holds, for each key and sender, at most one message: filing replaces it, dropping
  a key forgets everything under it, and neither touches anything else. The lemmas say what
  is found after a sequence of filings.
\<close>

locale mailbox =
  fixes empty :: 'b
    and put :: "'k \<Rightarrow> 'n \<Rightarrow> 'p \<Rightarrow> 'b \<Rightarrow> 'b"
    and look :: "'b \<Rightarrow> 'k \<Rightarrow> 'n \<Rightarrow> 'p option"
    and drop_key :: "'k \<Rightarrow> 'b \<Rightarrow> 'b"
  assumes look_empty: "look empty k n = None"
    and look_file: "look (put k n p b) k' n' = (if k' = k \<and> n' = n then Some p else look b k' n')"
    and look_drop: "look (drop_key k b) k' n' = (if k' = k then None else look b k' n')"
begin

lemma look_untouched:
  "\<forall>(k', n', p) \<in> set ms. (k', n') \<noteq> (k, n) \<Longrightarrow>
   look (fold (\<lambda>(k, n, p). put k n p) ms b) k n = look b k n"
  by (induction ms arbitrary: b) (auto simp: look_file)

lemma look_kept:
  "look b k n \<noteq> None \<Longrightarrow> look (fold (\<lambda>(k, n, p). put k n p) ms b) k n \<noteq> None"
proof (induction ms arbitrary: b)
  case (Cons m ms)
  obtain k' n' p where "m = (k', n', p)" by (cases m)
  then show ?case using Cons.IH [of "put k' n' p b"] Cons.prems by (simp add: look_file)
qed simp

lemma look_source:
  "look (fold (\<lambda>(k, n, p). put k n p) ms b) k n = Some p \<Longrightarrow>
   look b k n = Some p \<or> (k, n, p) \<in> set ms"
  by (induction ms arbitrary: b) (fastforce simp: look_file split: if_splits)+

lemma look_filed:
  "\<forall>(k', n', p') \<in> set ms. (k', n') \<noteq> (k, n) \<Longrightarrow>
   look (fold (\<lambda>(k, n, p). put k n p) ((k, n, p) # ms) b) k n = Some p"
  by (simp add: look_untouched look_file)

end

definition inbox_look :: "inbox \<Rightarrow> inbox_key \<Rightarrow> string \<Rightarrow> payload option" where
  "inbox_look ib key node_id = map_of (inbox_bucket ib key) node_id"

interpretation mail: mailbox "[]" inbox_file inbox_look inbox_drop
  by unfold_locales
    (auto simp: inbox_look_def inbox_bucket_def inbox_file_def inbox_drop_def dget_default_def
       split: option.splits)

text \<open>The inbox is a dictionary of dictionaries, and what lies under a key carries that key.\<close>

definition inbox_ok :: "inbox \<Rightarrow> bool" where
  "inbox_ok ib \<longleftrightarrow> (\<forall>key. dict_ok (inbox_bucket ib key) \<and>
     (\<forall>n p. inbox_look ib key n = Some p \<longrightarrow> payload_key (fst key) p = key))"

lemma inbox_bucket_file:
  "inbox_bucket (inbox_file key n p ib) key' =
     (if key' = key then dset n p (inbox_bucket ib key) else inbox_bucket ib key')"
  by (simp add: inbox_bucket_def inbox_file_def dget_default_def)

lemma inbox_bucket_drop:
  "inbox_bucket (inbox_drop key ib) key' = (if key' = key then [] else inbox_bucket ib key')"
  by (simp add: inbox_bucket_def inbox_drop_def dget_default_def)

lemma inbox_ok_steps:
  "inbox_ok []"
  "inbox_ok ib \<Longrightarrow> payload_key (fst key) p = key \<Longrightarrow> inbox_ok (inbox_file key n p ib)"
  "inbox_ok ib \<Longrightarrow> inbox_ok (inbox_drop key ib)"
  by (auto simp: inbox_ok_def mail.look_empty mail.look_file mail.look_drop inbox_bucket_file
      inbox_bucket_drop split: if_splits) (simp_all add: inbox_bucket_def dget_default_def)

lemma payload_key_fst [simp]: "payload_key (fst (payload_key m p)) p = payload_key m p"
  by (simp add: payload_key_def)

subsection \<open>What one message does\<close>

text \<open>What a message puts into the inbox.\<close>

definition filings :: "envelope \<Rightarrow> (inbox_key \<times> string \<times> payload) list" where
  "filings env =
     (let key = payload_key (e_type env) (e_payload env) in
      if e_type env \<in> {COMMIT, DISPUTE_SCORE} \<and> key_hashable key
      then [(key, e_node_id env, e_payload env)] else [])"

lemma read_clock_fields [simp]:
  "fst (read_clock sn) = w_clock (sn_world sn) (w_clock_i (sn_world sn))"
  "sn_id (snd (read_clock sn)) = sn_id sn"
  "sn_transport (snd (read_clock sn)) = sn_transport sn"
  "sn_peers (snd (read_clock sn)) = sn_peers sn"
  "sn_round (snd (read_clock sn)) = sn_round sn"
  "sn_inbox (snd (read_clock sn)) = sn_inbox sn"
  "sn_world (snd (read_clock sn)) = snd (time_time (sn_world sn))"
  by (simp_all add: read_clock_def)

lemma note_sender_fields [simp]:
  "sn_id (note_sender sn n m t) = sn_id sn"
  "sn_transport (note_sender sn n m t) = sn_transport sn"
  "sn_world (note_sender sn n m t) = sn_world sn"
  "sn_inbox (note_sender sn n m t) = sn_inbox sn"
  by (simp_all add: note_sender_def Let_def)

lemma dispatch_fields [simp]:
  "sn_id (snd (dispatch sn env)) = sn_id sn"
  "sn_transport (snd (dispatch sn env)) = sn_transport sn"
  "sn_world (snd (dispatch sn env)) = snd (time_time (sn_world sn))"
  by (simp_all add: dispatch_def Let_def split: prod.splits sum.splits)
    (metis note_sender_fields read_clock_fields prod.sel)+

lemma msg_types_distinct [simp]:
  "GEN_START \<noteq> COMMIT" "GEN_START \<noteq> DISPUTE_SCORE" "GEN_DONE \<noteq> COMMIT" "GEN_DONE \<noteq> DISPUTE_SCORE"
  "GEN_DONE \<noteq> GEN_START" "COMMIT \<noteq> DISPUTE_SCORE" "COMMIT \<noteq> GEN_START" "COMMIT \<noteq> GEN_DONE"
  "DISPUTE_SCORE \<noteq> GEN_START" "DISPUTE_SCORE \<noteq> GEN_DONE" "DISPUTE_SCORE \<noteq> COMMIT" "GEN_START \<noteq> GEN_DONE"
  "HEARTBEAT \<noteq> BYE" "HELLO \<noteq> BYE" "BYE \<noteq> HELLO" "BYE \<noteq> HEARTBEAT"
  "HEARTBEAT \<noteq> COMMIT" "HELLO \<noteq> COMMIT" "BYE \<noteq> COMMIT" "HEARTBEAT \<noteq> DISPUTE_SCORE"
  "HELLO \<noteq> DISPUTE_SCORE" "BYE \<noteq> DISPUTE_SCORE" "HEARTBEAT \<noteq> GEN_START" "HELLO \<noteq> GEN_START"
  "BYE \<noteq> GEN_START" "HEARTBEAT \<noteq> GEN_DONE" "HELLO \<noteq> GEN_DONE" "BYE \<noteq> GEN_DONE"
  "COMMIT \<noteq> HEARTBEAT" "COMMIT \<noteq> HELLO" "COMMIT \<noteq> BYE" "GEN_START \<noteq> HEARTBEAT" "GEN_START \<noteq> HELLO"
  "GEN_START \<noteq> BYE"
  by (simp_all add: msg_type_defs)

lemma dispatch_inbox:
  "sn_inbox (snd (dispatch sn env)) = fold (\<lambda>(k, n, p). inbox_file k n p) (filings env) (sn_inbox sn)"
  by (auto simp: dispatch_def note_sender_def read_clock_def time_time_def filings_def Let_def
      split: sum.splits)

lemma dispatch_peers:
  "sn_peers (snd (dispatch sn env)) =
     (let t = w_clock (sn_world sn) (w_clock_i (sn_world sn)) in
      if e_node_id env = sn_id sn then sn_peers sn
      else if e_type env \<in> {HEARTBEAT, HELLO} then mark_alive (sn_peers sn) (e_node_id env) (Some t) t
      else if e_type env = BYE then mark_gone (sn_peers sn) (e_node_id env)
      else sn_peers sn)"
  by (auto simp: dispatch_def note_sender_def read_clock_def time_time_def Let_def split: sum.splits)

text \<open>What a message does to the round manager, in terms of its events.\<close>

definition round_events :: "string \<Rightarrow> real \<Rightarrow> envelope \<Rightarrow> round_event list" where
  "round_events self t env =
     (if e_node_id env \<noteq> self then [LeaderActivity (e_node_id env) t] else []) @
     (if e_type env = GEN_START then [GenStartMsg env (Some t) t]
      else if e_type env = GEN_DONE then [GenDoneMsg env] else [])"

lemma dispatch_round:
  "sn_round (snd (dispatch sn env)) =
     run_events round_step (sn_round sn)
       (round_events (sn_id sn) (w_clock (sn_world sn) (w_clock_i (sn_world sn))) env)"
  by (auto simp: dispatch_def note_sender_def read_clock_def time_time_def round_events_def Let_def
      split: sum.splits)

lemma poll_recv_world:
  "snd (poll_recv w t) = w\<lparr>w_poll_i := Suc (w_poll_i w)\<rparr>"
  by (simp add: poll_recv_def Let_def split: option.splits)

text \<open>\<open>pump_once\<close> delivers at most one message, and only by \<open>dispatch\<close>.\<close>

lemma pump_cases:
  obtains (idle) "snd (pump_once sn t) = sn\<lparr>sn_world := snd (poll_recv (sn_world sn) t)\<rparr>"
      "\<And>env. fst (pump_once sn t) \<noteq> Inr (Some env)"
  | (message) env where "fst (poll_recv (sn_world sn) t) = Inr (Some env)"
      "snd (pump_once sn t) = snd (dispatch (sn\<lparr>sn_world := snd (poll_recv (sn_world sn) t)\<rparr>) env)"
      "fst (pump_once sn t) =
         rbind (fst (dispatch (sn\<lparr>sn_world := snd (poll_recv (sn_world sn) t)\<rparr>) env)) (\<lambda>e. Inr (Some e))"
proof -
  consider (e) e w where "poll_recv (sn_world sn) t = (Inl e, w)"
    | (n) w where "poll_recv (sn_world sn) t = (Inr None, w)"
    | (m) env w where "poll_recv (sn_world sn) t = (Inr (Some env), w)"
    by (metis not_None_eq obj_sumE surj_pair)
  then show thesis
  proof cases
    case e
    show thesis by (rule idle) (simp_all add: pump_once_def e)
  next
    case n
    show thesis by (rule idle) (simp_all add: pump_once_def n)
  next
    case m
    show thesis
      by (rule message [of env]) (auto simp: pump_once_def m pbind_def split: sum.splits prod.splits)
  qed
qed

lemma dispatch_Inr: "fst (dispatch sn env) = Inr e \<Longrightarrow> e = env"
  by (auto simp: dispatch_def Let_def split: prod.splits sum.splits if_splits)

lemma pump_once_fields [simp]:
  "sn_id (snd (pump_once sn t)) = sn_id sn"
  "sn_transport (snd (pump_once sn t)) = sn_transport sn"
  "w_codec (sn_world (snd (pump_once sn t))) = w_codec (sn_world sn)"
  "w_clock (sn_world (snd (pump_once sn t))) = w_clock (sn_world sn)"
  "w_polls (sn_world (snd (pump_once sn t))) = w_polls (sn_world sn)"
  "w_poll_i (sn_world (snd (pump_once sn t))) = Suc (w_poll_i (sn_world sn))"
  "w_sent (sn_world (snd (pump_once sn t))) = w_sent (sn_world sn)"
  by (cases sn t rule: pump_cases; simp)+

lemma pump_once_clock: "w_clock_i (sn_world sn) \<le> w_clock_i (sn_world (snd (pump_once sn t)))"
  by (cases sn t rule: pump_cases) simp_all

subsection \<open>The two waiting loops\<close>

text \<open>
  A rule for facts about a returning \<open>collect_loop\<close>: what holds at its start and is kept by a
  clock reading and by a delivered or missing message holds at its end; and the loop ends by
  itself only when nobody is missing or the clock has reached the deadline.
\<close>

lemma collect_loop_rule:
  assumes "collect_loop key d acc sn = Some (r, sn')" and "P acc sn"
    and "\<And>acc sn. P acc sn \<Longrightarrow> P acc (snd (read_clock sn))"
    and "\<And>acc sn. P acc sn \<Longrightarrow>
           (case fst (pump_once sn 100) of
              Inr (Some env) \<Rightarrow> P (collect_take key env acc) (snd (pump_once sn 100))
            | _ \<Rightarrow> P acc (snd (pump_once sn 100)))"
  shows "\<exists>acc'. P acc' sn' \<and>
    (\<forall>received. r = Inr received \<longrightarrow> received = snd acc' \<and>
       (fst acc' = {} \<or> d \<le> w_clock (sn_world sn') (w_clock_i (sn_world sn') - 1)))"
  using assms
proof (induction key d acc sn "(r, sn')" arbitrary: r sn' rule: collect_loop.raw_induct [rotated, consumes 1, case_names 1])
  case (1 loop key d acc sn)
  note IH = 1(1) [OF _ _ 1(4) 1(5)]
  show ?case
  proof (cases "fst acc = {} \<or> \<not> fst (read_clock sn) < d")
    case True
    then have "sn' = (if fst acc = {} then sn else snd (read_clock sn)) \<and> r = Inr (snd acc)"
      using 1(2) by (auto simp: case_prod_unfold split: if_splits)
    with True 1(3) 1(4) [OF 1(3)] show ?thesis
      by (intro exI [of _ acc]) auto
  next
    case False
    define sn1 where "sn1 = snd (read_clock sn)"
    obtain r2 sn2 where pump: "pump_once sn1 100 = (r2, sn2)" by (cases "pump_once sn1 100")
    have P1: "P acc sn1" using 1(4) [OF 1(3)] by (simp add: sn1_def)
    from 1(5) [OF P1] pump have P2:
      "case r2 of Inr (Some env) \<Rightarrow> P (collect_take key env acc) sn2 | _ \<Rightarrow> P acc sn2"
      by (auto split: sum.splits option.splits)
    have unf: "(case r2 of Inl e \<Rightarrow> Some (Inl e, sn2) | Inr None \<Rightarrow> loop key d acc sn2
        | Inr (Some env) \<Rightarrow> loop key d (collect_take key env acc) sn2) = Some (r, sn')"
      using 1(2) False pump
      by (auto simp: case_prod_unfold sn1_def split: sum.splits option.splits)
    show ?thesis
    proof (cases r2)
      case (Inl e)
      with unf P2 show ?thesis by (intro exI [of _ acc]) auto
    next
      case (Inr eo)
      then show ?thesis
        using unf P2 IH by (cases eo) auto
    qed
  qed
qed

lemma collect_loop_keeps:
  assumes "collect_loop key d acc sn = Some (r, sn')" and "P sn"
    and "\<And>sn. P sn \<Longrightarrow> P (snd (read_clock sn))"
    and "\<And>sn. P sn \<Longrightarrow> P (snd (pump_once sn 100))"
  shows "P sn'"
proof -
  have "case fst (pump_once s 100) of Inr (Some env) \<Rightarrow> P (snd (pump_once s 100))
      | _ \<Rightarrow> P (snd (pump_once s 100))" if "P s" for s
    using assms(4) [OF that] by (simp split: sum.splits option.splits)
  from collect_loop_rule [where P = "\<lambda>_. P", OF assms(1-3) this] show ?thesis by blast
qed

lemma collect_loop_returns:
  assumes "\<forall>m\<ge>n. d \<le> w_clock (sn_world sn) m"
  shows "\<exists>y. collect_loop key d acc sn = Some y"
  using assms
proof (induction "n - w_clock_i (sn_world sn)" arbitrary: acc sn rule: less_induct)
  case less
  show ?case
  proof (cases "fst acc = {} \<or> \<not> fst (read_clock sn) < d")
    case True
    then show ?thesis
      by (subst collect_loop.simps) (auto simp: case_prod_unfold)
  next
    case False
    define sn1 where "sn1 = snd (read_clock sn)"
    obtain r2 sn2 where pump: "pump_once sn1 100 = (r2, sn2)" by (cases "pump_once sn1 100")
    have sn2: "sn2 = snd (pump_once sn1 100)" using pump by simp
    have "w_clock_i (sn_world sn) < n"
      using False less.prems by (metis linorder_not_less read_clock_fields(1))
    moreover have "w_clock_i (sn_world sn) < w_clock_i (sn_world sn2)"
      using pump_once_clock [of sn1 100] by (simp add: sn2 sn1_def)
    ultimately have "n - w_clock_i (sn_world sn2) < n - w_clock_i (sn_world sn)" by simp
    moreover have "w_clock (sn_world sn2) = w_clock (sn_world sn)" by (simp add: sn2 sn1_def)
    ultimately have "\<exists>y. collect_loop key d acc' sn2 = Some y" for acc'
      using less by simp
    then show ?thesis
      using False pump
      by (subst collect_loop.simps) (auto simp: case_prod_unfold sn1_def split: sum.splits option.splits)
  qed
qed

lemma wait_loop_returns:
  assumes "\<forall>m\<ge>n. d + 1 \<le> w_clock (sn_world sn) m"
  shows "\<exists>y. wait_loop (Some d) sn = Some y"
  using assms
proof (induction "n - w_clock_i (sn_world sn)" arbitrary: sn rule: less_induct)
  case less
  show ?case
  proof (cases "active_round (sn_round sn) = None \<and> \<not> fst (read_clock sn) > d")
    case False
    then show ?thesis
      by (subst wait_loop.simps) (auto simp: case_prod_unfold split: option.splits)
  next
    case True
    define sn1 where "sn1 = snd (read_clock sn)"
    obtain r2 sn2 where pump: "pump_once sn1 200 = (r2, sn2)" by (cases "pump_once sn1 200")
    have sn2: "sn2 = snd (pump_once sn1 200)" using pump by simp
    have "w_clock_i (sn_world sn) < n"
    proof (rule ccontr)
      assume "\<not> ?thesis"
      with less.prems have "d + 1 \<le> fst (read_clock sn)" by simp
      with True show False by simp
    qed
    moreover have "w_clock_i (sn_world sn) < w_clock_i (sn_world sn2)"
      using pump_once_clock [of sn1 200] by (simp add: sn2 sn1_def)
    ultimately have "n - w_clock_i (sn_world sn2) < n - w_clock_i (sn_world sn)" by simp
    moreover have "w_clock (sn_world sn2) = w_clock (sn_world sn)" by (simp add: sn2 sn1_def)
    ultimately have "\<exists>y. wait_loop (Some d) sn2 = Some y"
      using less by simp
    then show ?thesis
      using True pump
      by (subst wait_loop.simps) (auto simp: case_prod_unfold sn1_def split: sum.splits option.splits)
  qed
qed

lemma wait_loop_rule:
  assumes "wait_loop d sn = Some (r, sn')" and "P sn"
    and "\<And>sn. P sn \<Longrightarrow> P (snd (read_clock sn))"
    and "\<And>sn. P sn \<Longrightarrow> P (snd (pump_once sn 200))"
  shows "P sn' \<and> (\<forall>rs. r = Inr rs \<longrightarrow> rs = active_round (sn_round sn') \<and> (d = None \<longrightarrow> rs \<noteq> None))"
  using assms
proof (induction d sn "(r, sn')" arbitrary: r sn' rule: wait_loop.raw_induct [rotated, consumes 1, case_names 1])
  case (1 loop d sn)
  note IH = 1(1) [OF _ _ 1(4) 1(5)]
  show ?case
  proof (cases "active_round (sn_round sn) = None \<and> (\<forall>t. d = Some t \<longrightarrow> \<not> fst (read_clock sn) > t)")
    case False
    with 1(2,3) 1(4) [OF 1(3)] show ?thesis
      by (auto simp: case_prod_unfold split: option.splits if_splits)
  next
    case True
    define sn1 where "sn1 = (if d = None then sn else snd (read_clock sn))"
    obtain r2 sn2 where pump: "pump_once sn1 200 = (r2, sn2)" by (cases "pump_once sn1 200")
    have "P sn1" using 1(4) [OF 1(3)] 1(3) by (simp add: sn1_def)
    from 1(5) [OF this] pump have P2: "P sn2" by simp
    have unf: "(case r2 of Inl e \<Rightarrow> Some (Inl e, sn2) | Inr _ \<Rightarrow> loop d sn2) = Some (r, sn')"
      using 1(2) True pump by (cases r2) (auto simp: case_prod_unfold sn1_def split: option.splits)
    show ?thesis
    proof (cases r2)
      case (Inl e)
      with unf P2 show ?thesis by auto
    next
      case (Inr eo)
      then show ?thesis using unf IH [OF _ P2] by auto
    qed
  qed
qed

subsection \<open>The node as a machine\<close>

text \<open>
  Every call on a node that changes it is an event; the heartbeat thread's only effect is
  \<open>Beat\<close>, which may come anywhere. A wait that does not return has no effect to speak of.
  \<open>swarm_before\<close> says what no call undoes: the node's identity, what it sent, the rounds it
  has seen.
\<close>

datatype swarm_event =
    Pump int
  | Beat
  | Lead "string list" pyval pyval string
  | CheckLeader
  | Publish string "payload option"
  | Collect string pyval int "string set" real
  | AwaitRound "real option"

fun swarm_step :: "swarm_node \<Rightarrow> swarm_event \<Rightarrow> swarm_node" where
  "swarm_step sn (Pump t) = snd (pump_once sn t)"
| "swarm_step sn Beat = snd (send_heartbeat sn)"
| "swarm_step sn (Lead ps prmpt gcfg hex) = snd (start_round_as_leader sn ps prmpt gcfg hex)"
| "swarm_step sn CheckLeader =
     (case read_clock sn of (now, sn1) \<Rightarrow>
        sn1\<lparr>sn_round := snd (check_leader_timeout (sn_round sn1) None now)\<rparr>)"
| "swarm_step sn (Publish m p) = snd (publish_msg sn m p)"
| "swarm_step sn (Collect m rid sync ex t) =
     (case collect_until sn m rid sync ex t of None \<Rightarrow> sn | Some (_, sn') \<Rightarrow> sn')"
| "swarm_step sn (AwaitRound t) =
     (case wait_for_round sn t of None \<Rightarrow> sn | Some (_, sn') \<Rightarrow> sn')"

definition swarm_ok :: "swarm_node \<Rightarrow> bool" where
  "swarm_ok sn \<longleftrightarrow> peers_ok (sn_peers sn) \<and> rm_ok (sn_round sn) \<and> inbox_ok (sn_inbox sn) \<and>
     pt_self_id (sn_peers sn) = sn_id sn \<and> pt_timeout (sn_peers sn) = PEER_TIMEOUT \<and>
     rm_self_id (sn_round sn) = sn_id sn"

definition swarm_before :: "swarm_node \<Rightarrow> swarm_node \<Rightarrow> bool" where
  "swarm_before s t \<longleftrightarrow> sn_id t = sn_id s \<and> heap_before (sn_round s) (sn_round t) \<and>
     (\<exists>sent. w_sent (sn_world t) = w_sent (sn_world s) @ sent) \<and>
     w_clock_i (sn_world s) \<le> w_clock_i (sn_world t) \<and>
     w_poll_i (sn_world s) \<le> w_poll_i (sn_world t)"

lemma swarm_before_refl: "swarm_before s s"
  by (simp add: swarm_before_def heap_before_refl)

lemma swarm_before_trans: "swarm_before s t \<Longrightarrow> swarm_before t u \<Longrightarrow> swarm_before s u"
  by (auto simp: swarm_before_def intro: heap_before_trans)

lemma swarm_ok_init: "SwarmNode w n relays = Inr sn \<Longrightarrow> swarm_ok sn"
  by (auto simp: SwarmNode_def rbind_eq_Inr swarm_ok_def peers_ok_init rm_ok_init inbox_ok_steps)
    (simp_all add: PeerTable_def RoundManager_def)

lemma inbox_ok_filings:
  "inbox_ok ib \<Longrightarrow> inbox_ok (fold (\<lambda>(k, n, p). inbox_file k n p) (filings env) ib)"
  by (simp add: filings_def Let_def inbox_ok_steps)

lemma swarm_ok_dispatch: "swarm_ok sn \<Longrightarrow> swarm_ok (snd (dispatch sn env))"
proof -
  let ?t = "w_clock (sn_world sn) (w_clock_i (sn_world sn))"
  assume ok: "swarm_ok sn"
  have "rm_self_id (run_events round_step rm es) = rm_self_id rm" if "rm_ok rm" for rm es
    using rounds.run_before [OF that] by (simp add: heap_before_def)
  with ok show ?thesis
    unfolding swarm_ok_def dispatch_round dispatch_inbox
    by (auto simp: dispatch_peers Let_def peers_ok_steps rounds.run_inv inbox_ok_filings)
qed

lemma swarm_before_dispatch: "swarm_ok sn \<Longrightarrow> swarm_before sn (snd (dispatch sn env))"
  by (auto simp: swarm_before_def dispatch_round swarm_ok_def intro: rounds.run_before)

lemma swarm_world_only:
  "swarm_ok sn \<Longrightarrow> swarm_ok (sn\<lparr>sn_world := w\<rparr>)"
  by (simp add: swarm_ok_def)

lemma swarm_pump:
  assumes "swarm_ok sn"
  shows "swarm_ok (snd (pump_once sn t)) \<and> swarm_before sn (snd (pump_once sn t))"
proof (cases sn t rule: pump_cases)
  case idle
  with assms show ?thesis
    by (simp add: swarm_world_only swarm_before_def heap_before_refl)
next
  case (message env)
  let ?s = "sn\<lparr>sn_world := snd (poll_recv (sn_world sn) t)\<rparr>"
  have ok: "swarm_ok ?s" by (rule swarm_world_only) (rule assms)
  have "swarm_before sn ?s" by (simp add: swarm_before_def heap_before_refl)
  from swarm_before_trans [OF this swarm_before_dispatch [OF ok]] swarm_ok_dispatch [OF ok]
  show ?thesis by (simp add: message)
qed

lemma swarm_clock:
  "swarm_ok sn \<Longrightarrow> swarm_ok (snd (read_clock sn)) \<and> swarm_before sn (snd (read_clock sn))"
  by (simp add: swarm_ok_def swarm_before_def heap_before_refl)

lemma swarm_publish:
  "swarm_ok sn \<Longrightarrow> swarm_ok (snd (publish_msg sn m p)) \<and> swarm_before sn (snd (publish_msg sn m p))"
  by (auto simp: publish_msg_def publish_def time_time_def swarm_ok_def swarm_before_def
      heap_before_refl split: sum.splits prod.splits)

lemma swarm_collect:
  assumes "swarm_ok sn" and "collect_until sn m rid sync ex t = Some (r, sn')"
  shows "swarm_ok sn' \<and> swarm_before sn sn'"
proof -
  have loop: "swarm_ok s' \<and> swarm_before sn s'"
    if "collect_loop key d acc s = Some (r', s')" "swarm_ok s" "swarm_before sn s" for key d acc s r' s'
    using collect_loop_keeps [where P = "\<lambda>s. swarm_ok s \<and> swarm_before sn s", OF that(1)]
      that(2,3) swarm_pump swarm_clock swarm_before_trans by blast
  have drop: "swarm_ok (s\<lparr>sn_inbox := inbox_drop key (sn_inbox s)\<rparr>) \<and>
      swarm_before sn (s\<lparr>sn_inbox := inbox_drop key (sn_inbox s)\<rparr>)"
    if "swarm_ok s \<and> swarm_before sn s" for s key
    using that by (simp add: swarm_ok_def swarm_before_def inbox_ok_steps)
  note start = swarm_clock [OF assms(1)]
  show ?thesis
    using assms swarm_before_refl [of sn] loop [OF _ conjunct1 [OF start] conjunct2 [OF start]] drop
    by (auto simp: collect_until_def Let_def case_prod_unfold split: if_splits option.splits sum.splits)
qed

lemma swarm_wait:
  assumes "swarm_ok sn" and "wait_for_round sn t = Some (r, sn')"
  shows "swarm_ok sn' \<and> swarm_before sn sn'"
proof -
  have loop: "swarm_ok s' \<and> swarm_before sn s'"
    if "wait_loop d s = Some (r', s')" "swarm_ok s" "swarm_before sn s" for d s r' s'
    using wait_loop_rule [where P = "\<lambda>s. swarm_ok s \<and> swarm_before sn s", OF that(1)]
      that(2,3) swarm_pump swarm_clock swarm_before_trans by blast
  then show ?thesis
    using assms swarm_before_refl [of sn] swarm_clock [OF assms(1)]
    by (auto simp: wait_for_round_def case_prod_unfold split: option.splits)
qed

lemma pbind_Inr: "fst x = Inr v \<Longrightarrow> pbind x f = f v (snd x)"
  by (cases x) auto

lemma pbind_keeps: "snd (pbind x (\<lambda>_ s. (Inr c, s))) = snd x"
  by (cases x; cases "fst x") auto

lemma swarm_lead:
  assumes "swarm_ok sn"
  shows "swarm_ok (snd (start_round_as_leader sn ps prmpt gcfg hex)) \<and>
         swarm_before sn (snd (start_round_as_leader sn ps prmpt gcfg hex))"
proof (cases "active_round (sn_round sn)")
  case (Some rs)
  with assms show ?thesis by (simp add: start_round_as_leader_def swarm_before_refl)
next
  case None
  let ?t = "\<lambda>i. w_clock (sn_world sn) (w_clock_i (sn_world sn) + i)"
  let ?ev = "StartRound ps prmpt gcfg hex (?t 0) (?t 1)"
  let ?rm = "round_step (sn_round sn) ?ev"
  let ?sn = "sn\<lparr>sn_world := snd (time_time (snd (time_time (sn_world sn)))), sn_round := ?rm\<rparr>"
  obtain m p where eq: "snd (start_round_as_leader sn ps prmpt gcfg hex) = snd (publish_msg ?sn m p)"
    using None
    by (auto simp: start_round_as_leader_def read_clock_def time_time_def Let_def case_prod_unfold
        pbind_keeps)
  have rm: "rm_ok (sn_round sn)" using assms by (simp add: swarm_ok_def)
  have "swarm_ok ?sn"
    using assms round_step_ok [OF rm, of ?ev] round_step_before [OF rm, of ?ev]
    by (simp add: swarm_ok_def heap_before_def)
  moreover have "swarm_before sn ?sn"
    using round_step_before [OF rm, of ?ev] by (simp add: swarm_before_def)
  ultimately show ?thesis
    unfolding eq using swarm_publish swarm_before_trans by blast
qed

lemma swarm_check:
  assumes "swarm_ok sn"
  shows "swarm_ok (swarm_step sn CheckLeader) \<and> swarm_before sn (swarm_step sn CheckLeader)"
proof -
  let ?now = "w_clock (sn_world sn) (w_clock_i (sn_world sn))"
  have rm: "rm_ok (sn_round sn)" using assms by (simp add: swarm_ok_def)
  from assms round_step_ok [OF rm, of "CheckTimeout None ?now"]
    round_step_before [OF rm, of "CheckTimeout None ?now"]
  show ?thesis
    by (simp add: swarm_ok_def swarm_before_def heap_before_def case_prod_unfold)
qed

lemma swarm_step_contract:
  assumes "swarm_ok sn"
  shows "swarm_ok (swarm_step sn ev) \<and> swarm_before sn (swarm_step sn ev)"
proof (cases ev)
  case CheckLeader
  with assms show ?thesis using swarm_check by blast
next
  case (Collect m rid sync ex t)
  with assms show ?thesis
    using swarm_collect [OF assms] swarm_before_refl by (simp split: option.split prod.split)
next
  case (AwaitRound t)
  with assms show ?thesis
    using swarm_wait [OF assms] swarm_before_refl by (simp split: option.split prod.split)
qed (simp_all add: assms send_heartbeat_def swarm_pump swarm_publish swarm_lead)

interpretation swarm: progress_machine swarm_step swarm_ok swarm_before
  by unfold_locales (use swarm_step_contract swarm_before_refl swarm_before_trans in blast)+

lemma collect_until_returns:
  assumes "clock_advances (sn_world sn)"
  shows "\<exists>r sn'. collect_until sn msg_type rid sync_seq expected timeout = Some (r, sn')"
proof -
  obtain n where "\<forall>m\<ge>n. fst (read_clock sn) + timeout \<le> w_clock (sn_world sn) m"
    using assms unfolding clock_advances_def by blast
  then have "\<forall>m\<ge>n. fst (read_clock sn) + timeout \<le> w_clock (sn_world (snd (read_clock sn))) m"
    by simp
  then have "\<exists>r s. collect_loop key (fst (read_clock sn) + timeout) acc (snd (read_clock sn)) = Some (r, s)"
    for key acc
    using collect_loop_returns by (metis surj_pair)
  then obtain r s where "collect_loop (msg_type, rid, PInt sync_seq) (fst (read_clock sn) + timeout)
      (let r = filter (\<lambda>(k, v). k \<in> expected) (inbox_bucket (sn_inbox sn) (msg_type, rid, PInt sync_seq))
       in (expected - set (keys r), r)) (snd (read_clock sn)) = Some (r, s)" by blast
  then show ?thesis
    by (cases r) (auto simp: collect_until_def Let_def case_prod_unfold)
qed

lemma wait_for_round_returns:
  assumes "clock_advances (sn_world sn)"
  shows "\<exists>r sn'. wait_for_round sn (Some t) = Some (r, sn')"
proof -
  obtain n where "\<forall>m\<ge>n. fst (read_clock sn) + t + 1 \<le> w_clock (sn_world sn) m"
    using assms unfolding clock_advances_def by blast
  then have "\<forall>m\<ge>n. fst (read_clock sn) + t + 1 \<le> w_clock (sn_world (snd (read_clock sn))) m" by simp
  from wait_loop_returns [OF this] show ?thesis
    by (simp add: wait_for_round_def case_prod_unfold)
qed

subsection \<open>What a collection returns\<close>

lemma collect_until_expected:
  assumes "collect_until sn m rid sync ex t = Some (Inr received, sn')"
  shows "set (keys received) \<subseteq> ex"
proof -
  have "set (keys rec) \<subseteq> ex"
    if run: "collect_loop key d acc s = Some (Inr rec, s')"
      and start: "fst acc \<subseteq> ex" "set (keys (snd acc)) \<subseteq> ex"
    for key d acc s rec s'
  proof -
    let ?P = "\<lambda>acc s. fst acc \<subseteq> ex \<and> set (keys (snd acc)) \<subseteq> ex"
    have take: "?P (collect_take key env acc) s" if "?P acc s" for env acc and s :: swarm_node
      using that by (cases acc) (simp add: collect_take_def Let_def, blast)
    have pump: "case fst (pump_once s 100) of Inr (Some env) \<Rightarrow> ?P (collect_take key env acc) (snd (pump_once s 100))
          | _ \<Rightarrow> ?P acc (snd (pump_once s 100))" if "?P acc s" for acc s
      using take [OF that] that by (simp split: sum.splits option.splits)
    show ?thesis
      using collect_loop_rule [where P = ?P, OF run _ _ pump] start by auto
  qed
  note loop = this
  obtain key d acc s s' where "collect_loop key d acc s = Some (Inr received, s')"
    and "fst acc \<subseteq> ex \<and> set (keys (snd acc)) \<subseteq> ex"
    using assms by (auto simp: collect_until_def Let_def case_prod_unfold split: if_splits option.splits sum.splits)
      fastforce
  then show ?thesis using loop by blast
qed

text \<open>
  The invariant of \<open>collect_loop\<close>: what was received is what lies in the inbox under the key,
  from the expected senders, and who is missing is the rest of them.
\<close>

definition collecting ::
  "inbox_key \<Rightarrow> string set \<Rightarrow> string set \<times> (string, payload) dict \<Rightarrow> swarm_node \<Rightarrow> bool" where
  "collecting key ex acc sn \<longleftrightarrow> inbox_ok (sn_inbox sn) \<and> dict_ok (snd acc) \<and>
     map_of (snd acc) = (map_of (inbox_bucket (sn_inbox sn) key)) |` ex \<and>
     fst acc = ex - set (keys (snd acc))"

lemma filings_cases:
  "filings env = [] \<or>
   filings env = [(payload_key (e_type env) (e_payload env), e_node_id env, e_payload env)]"
  by (simp add: filings_def Let_def)

lemma dispatch_error_no_filing: "fst (dispatch sn env) = Inl e \<Longrightarrow> filings env = []"
  by (auto simp: dispatch_def filings_def Let_def split: prod.splits sum.splits if_splits)

lemma collecting_start:
  assumes "inbox_ok (sn_inbox sn)"
  shows "collecting key ex (let r = filter (\<lambda>(k, v). k \<in> ex) (inbox_bucket (sn_inbox sn) key)
    in (ex - set (keys r), r)) sn"
proof -
  have ok: "dict_ok (inbox_bucket (sn_inbox sn) key)" using assms unfolding inbox_ok_def by blast
  have "map_of (filter (\<lambda>(k, v). k \<in> ex) d) = (map_of d) |` ex" for d :: "(string, payload) dict"
    by (induction d) (auto simp: restrict_map_def fun_eq_iff)
  with assms ok show ?thesis
    by (simp add: collecting_def Let_def distinct_map_filter)
qed

lemma collecting_file:
  assumes "collecting key ex acc sn" and "payload_key (e_type env) (e_payload env) = key"
  shows "map_of (snd (collect_take key env acc)) =
      (map_of (dset (e_node_id env) (e_payload env) (inbox_bucket (sn_inbox sn) key))) |` ex"
    and "fst (collect_take key env acc) = ex - set (keys (snd (collect_take key env acc)))"
    and "dict_ok (snd (collect_take key env acc))"
proof -
  obtain rem rec where acc: "acc = (rem, rec)" by (cases acc)
  have dom: "fst ` set rec = dom (map_of (inbox_bucket (sn_inbox sn) key)) \<inter> ex"
    using assms(1) by (simp add: collecting_def acc dom_map_of_conv_image_fst [symmetric] dom_restrict)
  then have "e_node_id env \<notin> rem \<and> e_node_id env \<notin> fst ` set rec \<longleftrightarrow> e_node_id env \<notin> ex"
    using assms(1) by (auto simp: collecting_def acc)
  with assms show "map_of (snd (collect_take key env acc)) =
      (map_of (dset (e_node_id env) (e_payload env) (inbox_bucket (sn_inbox sn) key))) |` ex"
    and "fst (collect_take key env acc) = ex - set (keys (snd (collect_take key env acc)))"
    and "dict_ok (snd (collect_take key env acc))"
    by (auto simp: collect_take_def collecting_def acc Let_def restrict_map_def fun_eq_iff)
qed

lemma collecting_pump:
  assumes "collecting key ex acc sn" and "fst key \<in> {COMMIT, DISPUTE_SCORE}" and "key_hashable key"
  shows "case fst (pump_once sn t) of
           Inr (Some env) \<Rightarrow> collecting key ex (collect_take key env acc) (snd (pump_once sn t))
         | _ \<Rightarrow> collecting key ex acc (snd (pump_once sn t))"
proof (cases sn t rule: pump_cases)
  case idle
  have "collecting key ex acc (snd (pump_once sn t))"
    using assms(1) by (simp add: idle(1) collecting_def)
  then show ?thesis using idle(2) by (simp split: sum.split option.split)
next
  case (message env)
  let ?s = "sn\<lparr>sn_world := snd (poll_recv (sn_world sn) t)\<rparr>"
  have inbox: "sn_inbox (snd (pump_once sn t)) =
      fold (\<lambda>(k, n, p). inbox_file k n p) (filings env) (sn_inbox sn)"
    by (simp add: message(2) dispatch_inbox)
  have ok: "inbox_ok (sn_inbox (snd (pump_once sn t)))"
    using assms(1) by (simp add: inbox inbox_ok_filings collecting_def)
  have other: "collecting key ex acc (snd (pump_once sn t))"
    if "filings env = [] \<or> payload_key (e_type env) (e_payload env) \<noteq> key"
  proof -
    have "inbox_bucket (sn_inbox (snd (pump_once sn t))) key = inbox_bucket (sn_inbox sn) key"
      using that filings_cases [of env] by (auto simp: inbox inbox_bucket_file)
    with assms(1) ok show ?thesis by (simp add: collecting_def)
  qed
  show ?thesis
  proof (cases "fst (dispatch ?s env)")
    case (Inl e)
    then show ?thesis using other [OF disjI1 [OF dispatch_error_no_filing]] by (simp add: message(3))
  next
    case (Inr e)
    then have e: "e = env" by (rule dispatch_Inr)
    show ?thesis
    proof (cases "payload_key (e_type env) (e_payload env) = key")
      case False
      with other Inr show ?thesis by (simp add: message(3) e collect_take_def Let_def)
    next
      case True
      with assms(2,3) have "filings env = [(key, e_node_id env, e_payload env)]"
        by (auto simp: filings_def Let_def payload_key_def)
      with collecting_file [OF assms(1) True] ok Inr show ?thesis
        by (simp add: message(3) e collecting_def inbox inbox_bucket_file)
    qed
  qed
qed

lemma collecting_clock:
  "collecting key ex acc sn \<Longrightarrow> collecting key ex acc (snd (read_clock sn))"
  by (simp add: collecting_def)

subsection \<open>Properties\<close>

text \<open>A node that nobody has written to yet, in a world whose clock shows its reading's number.\<close>

definition quiet_node :: "string \<Rightarrow> codec \<Rightarrow> swarm_node" where
  "quiet_node n cd =
     \<lparr>sn_id = n, sn_transport = \<lparr>tr_pub = [], tr_sub = [], tr_subscribe = [], tr_open = True\<rparr>,
      sn_world = \<lparr>w_codec = cd, w_clock = real, w_clock_i = 0, w_polls = (\<lambda>_ _. None),
                  w_poll_i = 0, w_sent = []\<rparr>,
      sn_peers = PeerTable n PEER_TIMEOUT, sn_round = RoundManager n, sn_inbox = []\<rparr>"

lemma quiet_node_fields [simp]:
  "sn_id (quiet_node n cd) = n"
  "sn_peers (quiet_node n cd) = PeerTable n PEER_TIMEOUT"
  "sn_round (quiet_node n cd) = RoundManager n"
  "sn_inbox (quiet_node n cd) = []"
  "w_codec (sn_world (quiet_node n cd)) = cd"
  "w_clock (sn_world (quiet_node n cd)) = real"
  "w_clock_i (sn_world (quiet_node n cd)) = 0"
  "w_poll_i (sn_world (quiet_node n cd)) = 0"
  "w_polls (sn_world (quiet_node n cd)) i t = None"
  "w_sent (sn_world (quiet_node n cd)) = []"
  by (simp_all add: quiet_node_def)

lemma quiet_node_ok: "swarm_ok (quiet_node n cd)"
  by (simp add: swarm_ok_def peers_ok_init rm_ok_init inbox_ok_steps)
    (simp add: PeerTable_def RoundManager_def)

lemma clock_advances_quiet: "clock_advances (sn_world (quiet_node n cd))"
proof -
  have "\<exists>n. \<forall>m\<ge>n. d \<le> real m" for d
    using real_arch_simple [of d] by (meson le_trans of_nat_le_iff order_trans)
  then show ?thesis by (simp add: clock_advances_def)
qed

text \<open>What \<open>collect_until\<close> returns is what the loop collected, and it reads the clock.\<close>

lemma collect_until_collecting:
  assumes "collect_until sn m rid q ex timeout = Some (Inr received, sn')" and "swarm_ok sn" and "m \<in> {COMMIT, DISPUTE_SCORE}"
  obtains sn1 rest where "sn' = sn1\<lparr>sn_inbox := inbox_drop (m, rid, PInt q) (sn_inbox sn1)\<rparr>"
    and "collecting (m, rid, PInt q) ex (rest, received) sn1"
    and "rest = {} \<or> w_clock (sn_world sn) (w_clock_i (sn_world sn)) + timeout \<le> w_clock (sn_world sn') (w_clock_i (sn_world sn') - 1)"
    and "w_clock_i (sn_world sn) < w_clock_i (sn_world sn')"
proof -
  let ?key = "(m, rid, PInt q)"
  let ?r = "filter (\<lambda>(k, v). k \<in> ex) (inbox_bucket (sn_inbox sn) ?key)"
  let ?d = "fst (read_clock sn) + timeout"
  from assms(1) obtain sn1 where hash: "key_hashable ?key"
    and loop: "collect_loop ?key ?d (ex - set (keys ?r), ?r) (snd (read_clock sn)) = Some (Inr received, sn1)"
    and sn': "sn' = sn1\<lparr>sn_inbox := inbox_drop ?key (sn_inbox sn1)\<rparr>"
    by (auto simp: collect_until_def Let_def case_prod_unfold split: if_splits option.splits sum.splits)
  have "inbox_ok (sn_inbox sn)" using assms(2) by (simp add: swarm_ok_def)
  from collecting_start [OF this, of ?key ex]
  have start: "collecting ?key ex (ex - set (keys ?r), ?r) (snd (read_clock sn))"
    by (simp add: collecting_clock Let_def)
  obtain acc where "collecting ?key ex acc sn1" "received = snd acc"
    "fst acc = {} \<or> ?d \<le> w_clock (sn_world sn1) (w_clock_i (sn_world sn1) - 1)"
    using collect_loop_rule [where P = "collecting ?key ex", OF loop start collecting_clock
        collecting_pump] assms(3) hash by auto
  moreover have "w_clock_i (sn_world sn) < w_clock_i (sn_world sn1)"
    using collect_loop_keeps [where P = "\<lambda>s. w_clock_i (sn_world sn) < w_clock_i (sn_world s)", OF loop] pump_once_clock
    by (simp add: less_SucI order_less_le_trans)
  ultimately show thesis by (intro that [OF sn', of "fst acc"]) (simp_all add: sn')
qed

text \<open>C6: \<open>collect_until\<close> returns exactly what was reported. The result holds, for each expected
  sender, the payload that lies in the inbox under (type, round, sync) at the moment of
  returning, whether it came before the call or during it, and nothing else: no message of
  another sync or round, and none from outside the expected set. The bucket is then dropped.
  The call gives up on somebody only after the timeout has passed.\<close>

theorem collect_until_exact:
  assumes "collect_until sn msg_type rid sync_seq expected timeout = Some (Inr received, sn')"
    and "swarm_ok sn" and "msg_type \<in> {COMMIT, DISPUTE_SCORE}"
  shows "\<exists>sn1. sn' = sn1\<lparr>sn_inbox := inbox_drop (msg_type, rid, PInt sync_seq) (sn_inbox sn1)\<rparr> \<and>
    (\<forall>n. map_of received n =
       (if n \<in> expected then inbox_look (sn_inbox sn1) (msg_type, rid, PInt sync_seq) n else None)) \<and>
    (\<forall>n p. map_of received n = Some p \<longrightarrow>
       pay_get p ''round_id'' = rid \<and> pay_get p ''sync_seq'' = PInt sync_seq) \<and>
    (set (keys received) = expected \<or>
     w_clock (sn_world sn) (w_clock_i (sn_world sn)) + timeout
       \<le> w_clock (sn_world sn') (w_clock_i (sn_world sn') - 1))"
proof -
  let ?key = "(msg_type, rid, PInt sync_seq)"
  obtain sn1 rest where sn': "sn' = sn1\<lparr>sn_inbox := inbox_drop ?key (sn_inbox sn1)\<rparr>"
    and acc: "collecting ?key expected (rest, received) sn1"
    and late: "rest = {} \<or> w_clock (sn_world sn) (w_clock_i (sn_world sn)) + timeout
      \<le> w_clock (sn_world sn') (w_clock_i (sn_world sn') - 1)"
    by (rule collect_until_collecting [OF assms])
  have lookup: "map_of received n =
      (if n \<in> expected then inbox_look (sn_inbox sn1) ?key n else None)" for n
    using acc by (simp add: collecting_def inbox_look_def restrict_map_def)
  moreover have "pay_get p ''round_id'' = rid \<and> pay_get p ''sync_seq'' = PInt sync_seq"
    if "map_of received n = Some p" for n p
  proof -
    have "inbox_look (sn_inbox sn1) ?key n = Some p" using lookup [of n] that by (simp split: if_splits)
    then have "payload_key (fst ?key) p = ?key"
      using acc unfolding collecting_def inbox_ok_def by blast
    then show ?thesis by (simp add: payload_key_def)
  qed
  moreover have "set (keys received) \<subseteq> expected"
    using lookup by (force simp: dom_map_of_conv_image_fst [symmetric] split: if_splits)
  ultimately show ?thesis
    using acc late sn' by (intro exI [of _ sn1]) (auto simp: collecting_def)
qed

theorem collect_until_exact_witness:
  "let sn = (quiet_node ''node-a'' (table_codec []))\<lparr>sn_inbox :=
       inbox_file (COMMIT, PStr ''r'', PInt 1) ''node-b'' [(''round_id'', PStr ''r''), (''sync_seq'', PInt 1)] []\<rparr>
   in \<exists>received sn'. collect_until sn COMMIT (PStr ''r'') 1 {''node-b''} 45 = Some (Inr received, sn') \<and>
        set (keys received) = {''node-b''}"
proof -
  let ?p = "[(''round_id'', PStr ''r''), (''sync_seq'', PInt 1)]"
  let ?key = "(COMMIT, PStr ''r'', PInt 1)"
  let ?sn = "(quiet_node ''node-a'' (table_codec []))\<lparr>sn_inbox := inbox_file ?key ''node-b'' ?p []\<rparr>"
  let ?sn1 = "snd (read_clock ?sn)"
  let ?sn' = "?sn1\<lparr>sn_inbox := inbox_drop ?key (sn_inbox ?sn1)\<rparr>"
  have run: "collect_until ?sn COMMIT (PStr ''r'') 1 {''node-b''} 45 = Some (Inr [(''node-b'', ?p)], ?sn')"
    by (simp add: collect_until_def Let_def case_prod_unfold inbox_file_def inbox_bucket_def
        dget_default_def collect_loop.simps)
  have "swarm_ok ?sn"
    using quiet_node_ok [of "''node-a''" "table_codec []"]
    by (simp add: swarm_ok_def inbox_ok_steps payload_key_def pay_get_def)
  from collect_until_exact [OF run this] run show ?thesis by auto
qed

text \<open>C29: every wait ends. If the clock passes every instant for good, \<open>collect_until\<close> returns, and so
  does \<open>wait_for_round\<close> with a timeout (with a result or with the exception of a malformed
  message), whatever arrives or does not arrive.\<close>

theorem collect_returns:
  assumes "clock_advances (sn_world sn)"
  shows "(\<exists>r sn'. collect_until sn msg_type rid sync_seq expected timeout = Some (r, sn')) \<and>
         (\<exists>r sn'. wait_for_round sn (Some t) = Some (r, sn'))"
  using collect_until_returns [OF assms] wait_for_round_returns [OF assms] by blast

theorem collect_returns_witness:
  "\<exists>r sn'. collect_until (quiet_node ''node-a'' (table_codec [])) COMMIT (PStr ''r'') 1 {''node-b''} 45 =
     Some (r, sn')"
  using collect_returns [OF clock_advances_quiet] by blast

text \<open>C11: an early report is not lost. A \<open>COMMIT\<close> or \<open>DISPUTE_SCORE\<close> that a node reads before
  it has reached that sync, followed by any messages at all except a newer one from the same
  sender for the same sync, is what \<open>collect_until\<close> later returns for its sender, at once and
  without touching the socket.\<close>

theorem early_report_collected:
  assumes "swarm_ok sn" and "e_type env \<in> {COMMIT, DISPUTE_SCORE}"
    and "payload_key (e_type env) (e_payload env) = (e_type env, rid, PInt sync_seq)" and "hashable rid"
    and "\<forall>e \<in> set later. e_node_id e = e_node_id env \<longrightarrow>
           payload_key (e_type e) (e_payload e) \<noteq> (e_type env, rid, PInt sync_seq)"
    and "sn1 = fold (\<lambda>e s. snd (dispatch s e)) (env # later) sn"
  shows "\<exists>sn2. collect_until sn1 (e_type env) rid sync_seq {e_node_id env} timeout =
           Some (Inr [(e_node_id env, e_payload env)], sn2) \<and>
         w_poll_i (sn_world sn2) = w_poll_i (sn_world sn1)"
proof -
  let ?key = "(e_type env, rid, PInt sync_seq)"
  let ?n = "e_node_id env"
  have inbox: "sn_inbox (fold (\<lambda>e s. snd (dispatch s e)) es s) =
      fold (\<lambda>(k, n, p). inbox_file k n p) (concat (map filings es)) (sn_inbox s)" for es s
    by (induction es arbitrary: s) (simp_all add: dispatch_inbox)
  have ok1: "swarm_ok (fold (\<lambda>e s. snd (dispatch s e)) es s)" if "swarm_ok s" for es s
    using that by (induction es arbitrary: s) (simp_all add: swarm_ok_dispatch)
  have first: "filings env = [(?key, ?n, e_payload env)]"
    using assms(2,3,4) by (simp add: filings_def Let_def)
  have rest: "\<forall>(k, n, p) \<in> set (concat (map filings later)). (k, n) \<noteq> (?key, ?n)"
  proof (intro ballI, clarify)
    fix k1 k2 k3 n p assume "(?key, ?n, p) \<in> set (concat (map filings later))"
    then obtain e where "e \<in> set later" "(?key, ?n, p) \<in> set (filings e)" by auto
    then show False using assms(5) filings_cases [of e] by auto
  qed
  have "inbox_look (sn_inbox sn1) ?key ?n = Some (e_payload env)"
    unfolding assms(6) inbox using mail.look_filed [OF rest] by (simp add: first)
  moreover have "dict_ok (inbox_bucket (sn_inbox sn1) ?key)"
    using ok1 [OF assms(1), of "env # later"] unfolding assms(6) swarm_ok_def inbox_ok_def by blast
  moreover have "filter (\<lambda>(k, v). k \<in> {n}) d = [(n, p)]"
    if "map_of d n = Some p" "dict_ok d" for d :: "(string, payload) dict" and n p
    using that by (induction d) (auto split: if_splits simp: filter_empty_conv image_iff)
  ultimately have "filter (\<lambda>(k, v). k \<in> {?n}) (inbox_bucket (sn_inbox sn1) ?key) = [(?n, e_payload env)]"
    by (simp only: inbox_look_def)
  then show ?thesis
    using assms(4) by (simp add: collect_until_def Let_def case_prod_unfold collect_loop.simps)
qed

theorem early_report_collected_witness:
  "let p = [(''round_id'', PStr ''r''), (''sync_seq'', PInt 1)];
       early = \<lparr>e_type = COMMIT, e_node_id = ''node-b'', e_ts = 5, e_payload = p\<rparr>;
       beat = \<lparr>e_type = HEARTBEAT, e_node_id = ''node-b'', e_ts = 6, e_payload = []\<rparr>;
       sn1 = fold (\<lambda>e s. snd (dispatch s e)) [early, beat] (quiet_node ''node-a'' (table_codec []))
   in \<exists>sn2. collect_until sn1 COMMIT (PStr ''r'') 1 {''node-b''} 45 = Some (Inr [(''node-b'', p)], sn2)"
proof -
  let ?p = "[(''round_id'', PStr ''r''), (''sync_seq'', PInt 1)]"
  let ?early = "\<lparr>e_type = COMMIT, e_node_id = ''node-b'', e_ts = 5, e_payload = ?p\<rparr>"
  let ?beat = "\<lparr>e_type = HEARTBEAT, e_node_id = ''node-b'', e_ts = 6, e_payload = []\<rparr>"
  have "\<exists>sn2. collect_until (fold (\<lambda>e s. snd (dispatch s e)) [?early, ?beat] (quiet_node ''node-a'' (table_codec [])))
      (e_type ?early) (PStr ''r'') 1 {e_node_id ?early} 45 = Some (Inr [(e_node_id ?early, e_payload ?early)], sn2) \<and>
      w_poll_i (sn_world sn2) = w_poll_i (sn_world
        (fold (\<lambda>e s. snd (dispatch s e)) [?early, ?beat] (quiet_node ''node-a'' (table_codec []))))"
    by (rule early_report_collected [OF quiet_node_ok _ _ _ _ refl])
      (simp_all add: payload_key_def pay_get_def)
  then show ?thesis unfolding Let_def envelope.simps by blast
qed

text \<open>C28: liveness goes by the time of reading. When a node reads a \<open>HEARTBEAT\<close> or \<open>HELLO\<close> of
  another node at time \<open>t\<close>, that node counts as alive until exactly \<open>t + PEER_TIMEOUT\<close>, and if
  it leads the active round, the round is failed by \<open>check_leader_timeout\<close> exactly after
  \<open>t + ROUND_LEADER_TIMEOUT\<close>. The time stamp in the message plays no part, however old.\<close>

theorem liveness_by_receive_time:
  assumes "swarm_ok sn" and "e_node_id env \<noteq> sn_id sn" and "e_type env \<in> {HEARTBEAT, HELLO}"
    and "t = w_clock (sn_world sn) (w_clock_i (sn_world sn))" and "sn' = snd (dispatch sn env)"
  shows "(e_node_id env \<in> set (alive_peers (sn_peers sn') (Some now) clock) \<longleftrightarrow> now - t \<le> PEER_TIMEOUT) \<and>
    (\<forall>rs. active_round (sn_round sn) = Some rs \<and> leader_id rs = e_node_id env \<longrightarrow>
       (fst (check_leader_timeout (sn_round sn') (Some now) clock) \<longleftrightarrow> now - t > ROUND_LEADER_TIMEOUT)) \<and>
    snd (dispatch sn (env\<lparr>e_ts := ts\<rparr>)) = sn'"
proof -
  have ok: "peers_ok (sn_peers sn)" "rm_ok (sn_round sn)" "pt_self_id (sn_peers sn) = sn_id sn"
    "pt_timeout (sn_peers sn) = PEER_TIMEOUT" "rm_self_id (sn_round sn) = sn_id sn"
    using assms(1) by (simp_all add: swarm_ok_def)
  have type: "e_type env \<noteq> GEN_START" "e_type env \<noteq> GEN_DONE" using assms(3) by auto
  have peers: "sn_peers sn' = mark_alive (sn_peers sn) (e_node_id env) (Some t) t"
    using assms(2-5) by (auto simp: dispatch_peers Let_def)
  have round: "sn_round sn' = note_leader_activity (sn_round sn) (e_node_id env) t"
    using assms(2,4,5) type by (simp add: dispatch_round round_events_def)
  have same: "snd (dispatch sn (env\<lparr>e_ts := ts\<rparr>)) = sn'"
    using assms(3,5) type by (auto simp: dispatch_def Let_def split: prod.splits)
  have alive: "e_node_id env \<in> set (alive_peers (sn_peers sn') (Some now) clock) \<longleftrightarrow> now - t \<le> PEER_TIMEOUT"
    using assms(2) ok by (simp add: peers alive_iff peers_ok_steps)
  have "fst (check_leader_timeout (sn_round sn') (Some now) clock) \<longleftrightarrow> now - t > ROUND_LEADER_TIMEOUT"
    if "active_round (sn_round sn) = Some rs" "leader_id rs = e_node_id env" for rs
    using that ok assms(2) rm_ok_active [OF ok(2) that(1)]
    by (simp add: round note_leader_activity_def check_leader_timeout_def active_round_mutate)
  with alive same show ?thesis by blast
qed

theorem liveness_by_receive_time_witness:
  "let beat = \<lparr>e_type = HEARTBEAT, e_node_id = ''node-b'', e_ts = -1000, e_payload = []\<rparr>;
       sn' = snd (dispatch (quiet_node ''node-a'' (table_codec [])) beat)
   in ''node-b'' \<in> set (alive_peers (sn_peers sn') (Some 6) 0) \<and>
      ''node-b'' \<notin> set (alive_peers (sn_peers sn') (Some 7) 0)"
proof -
  let ?beat = "\<lparr>e_type = HEARTBEAT, e_node_id = ''node-b'', e_ts = -1000, e_payload = []\<rparr>"
  have "e_node_id ?beat \<noteq> sn_id (quiet_node ''node-a'' (table_codec []))" "e_type ?beat \<in> {HEARTBEAT, HELLO}"
    by simp_all
  note live = liveness_by_receive_time [OF quiet_node_ok this refl refl, where clock = 0]
  show ?thesis using live [of 6] live [of 7] by (simp add: PEER_TIMEOUT_def)
qed

text \<open>A departure is not final. A copy of an old \<open>HEARTBEAT\<close> that is read after the sender's
  \<open>BYE\<close> (from a slower relay, say) makes the departed node alive again for the whole
  \<open>PEER_TIMEOUT\<close>: duplicates are harmless only while they keep their order.\<close>

lemma late_copy_resurrects:
  assumes "swarm_ok sn" and "e_type bye = BYE" and "e_type beat = HEARTBEAT"
    and "e_node_id bye = n" and "e_node_id beat = n" and "n \<noteq> sn_id sn"
    and "sn1 = snd (dispatch sn bye)" and "sn2 = snd (dispatch sn1 beat)"
    and "t = w_clock (sn_world sn1) (w_clock_i (sn_world sn1))"
  shows "n \<notin> set (alive_peers (sn_peers sn1) (Some now) clock) \<and>
         (n \<in> set (alive_peers (sn_peers sn2) (Some now) clock) \<longleftrightarrow> now - t \<le> PEER_TIMEOUT)"
proof -
  have ok1: "swarm_ok sn1" using assms(1,7) by (simp add: swarm_ok_dispatch)
  have "sn_peers sn1 = mark_gone (sn_peers sn) n"
    using assms(2,4,6,7) by (simp add: dispatch_peers Let_def)
  moreover have "sn_peers sn2 = mark_alive (sn_peers sn1) n (Some t) t"
    using assms(3,5,6,7,8,9) by (simp add: dispatch_peers Let_def)
  ultimately show ?thesis
    using assms(1,6) ok1
    by (auto simp: swarm_ok_def alive_iff peers_ok_steps)
qed

lemma late_copy_resurrects_witness:
  "let bye = \<lparr>e_type = BYE, e_node_id = ''node-b'', e_ts = 5, e_payload = []\<rparr>;
       beat = \<lparr>e_type = HEARTBEAT, e_node_id = ''node-b'', e_ts = 4, e_payload = []\<rparr>;
       sn1 = snd (dispatch (quiet_node ''node-a'' (table_codec [])) bye);
       sn2 = snd (dispatch sn1 beat)
   in ''node-b'' \<notin> set (alive_peers (sn_peers sn1) (Some 2) 0) \<and>
      ''node-b'' \<in> set (alive_peers (sn_peers sn2) (Some 2) 0)"
proof -
  let ?bye = "\<lparr>e_type = BYE, e_node_id = ''node-b'', e_ts = 5, e_payload = []\<rparr>"
  let ?beat = "\<lparr>e_type = HEARTBEAT, e_node_id = ''node-b'', e_ts = 4, e_payload = []\<rparr>"
  have "e_type ?bye = BYE" "e_type ?beat = HEARTBEAT" "e_node_id ?bye = ''node-b''"
    "e_node_id ?beat = ''node-b''" "''node-b'' \<noteq> sn_id (quiet_node ''node-a'' (table_codec []))"
    by simp_all
  from late_copy_resurrects [OF quiet_node_ok this refl refl refl, of 2 0]
  show ?thesis by (simp add: Let_def PEER_TIMEOUT_def)
qed

text \<open>C16: no call replaces a running round. After a message, a heartbeat, a publication, a leader
  check or even an attempt to lead a new round, a node with an active round has the same one
  (same id, leader, participants, prompt, configuration) or none. Starting a round while one
  is active raises and changes nothing.\<close>

theorem node_no_handover:
  assumes "swarm_ok sn" and "active_round (sn_round sn) = Some rs"
    and "ev \<in> {Pump t, Beat, Lead ps prmpt gcfg hex, CheckLeader, Publish m p}"
  shows "(case active_round (sn_round (swarm_step sn ev)) of
            None \<Rightarrow> True | Some rs' \<Rightarrow> round_identity rs' = round_identity rs) \<and>
         start_round_as_leader sn ps prmpt gcfg hex = (Inl AssertionError, sn)"
proof -
  have rm: "rm_ok (sn_round sn)" using assms(1) by (simp add: swarm_ok_def)
  define same where "same = (\<lambda>r. case r of
      None \<Rightarrow> True | Some rs' \<Rightarrow> round_identity rs' = round_identity rs)"
  have step: "same (active_round (round_step r e))"
    if "rm_ok r" "active_round r = Some r1" "round_identity r1 = round_identity rs"
      "\<not> (\<exists>ps p g hex t1 t2. e = StartRound ps p g hex t1 t2)" for r r1 e
    using round_step_same [OF that(1,2,4)] that(3) by (auto simp: same_def)
  have deliver: "same (active_round (sn_round (snd (dispatch s env))))"
    if s: "sn_round s = sn_round sn" for s env
  proof -
    let ?t = "w_clock (sn_world s) (w_clock_i (sn_world s))"
    let ?r1 = "round_step (sn_round sn) (LeaderActivity (e_node_id env) ?t)"
    obtain rs1 where rs1: "active_round ?r1 = Some rs1" "round_identity rs1 = round_identity rs"
      using leader_activity_same [OF rm assms(2)] by blast
    show ?thesis
      using step [OF round_step_ok [OF rm] rs1] step [OF rm assms(2) refl]
        assms(2) rs1
      by (auto simp: dispatch_round round_events_def s same_def simp del: round_step.simps)
  qed
  have pump: "same (active_round (sn_round (snd (pump_once sn t))))"
    using deliver [of "sn\<lparr>sn_world := snd (poll_recv (sn_world sn) t)\<rparr>"] assms(2)
    by (cases sn t rule: pump_cases) (simp_all add: same_def)
  have check: "same (active_round (sn_round (swarm_step sn CheckLeader)))"
    using step [OF rm assms(2) refl, of "CheckTimeout None (fst (read_clock sn))"]
    by (simp add: case_prod_unfold)
  have lead: "start_round_as_leader sn ps prmpt gcfg hex = (Inl AssertionError, sn)"
    using assms(2) by (simp add: start_round_as_leader_def)
  have "same (active_round (sn_round (swarm_step sn ev)))"
    using assms(2,3) pump check lead
    by (auto simp: same_def send_heartbeat_def publish_msg_def case_prod_unfold simp del: swarm_step.simps(4))
  with lead show ?thesis by (simp add: same_def)
qed

theorem node_no_handover_witness:
  "let sn = (quiet_node ''node-b'' (table_codec []))\<lparr>sn_round := set_new_round example_round (RoundManager ''node-b'')\<rparr>
   in start_round_as_leader sn [''node-b''] PNone PNone ''00000000'' = (Inl AssertionError, sn)"
proof -
  let ?sn = "(quiet_node ''node-b'' (table_codec []))\<lparr>sn_round := set_new_round example_round (RoundManager ''node-b'')\<rparr>"
  have "swarm_ok ?sn"
    using quiet_node_ok [of "''node-b''" "table_codec []"] example_round_ok
    by (simp add: swarm_ok_def) (simp add: set_new_round_def)
  moreover have "active_round (sn_round ?sn) = Some example_round" by simp
  ultimately show ?thesis
    using node_no_handover [of ?sn example_round Beat 0 "[''node-b'']" PNone PNone "''00000000''" "''x''" None]
    by simp
qed

text \<open>C14: a started round is the same round everywhere. When a node starts a round as the leader and
  another node with no active round reads the announcement next, \<open>wait_for_round\<close> gives the
  follower a round with the same id, leader, participants, prompt and configuration; the
  initiator leads it and the follower does not.\<close>

theorem round_reaches_followers:
  assumes "start_round_as_leader ldr ps prmpt gcfg hex = (Inr state, ldr')"
    and "codec_ok (w_codec (sn_world ldr))" and "w_codec (sn_world fol) = w_codec (sn_world ldr)"
    and "swarm_ok ldr" and "swarm_ok fol" and "sn_id fol \<noteq> sn_id ldr"
    and "active_round (sn_round fol) = None"
    and "w_polls (sn_world fol) (w_poll_i (sn_world fol)) 200 = Some (last (w_sent (sn_world ldr')))"
  shows "\<exists>rs fol'. wait_for_round fol None = Some (Inr (Some rs), fol') \<and>
    (round_id rs, leader_id rs, participants rs, prompt rs, gen_config rs) =
    (round_id state, sn_id ldr, participants state, prmpt, gcfg) \<and>
    participants state = sort ps \<and>
    is_round_leader (sn_round ldr') \<and> \<not> is_round_leader (sn_round fol')"
proof -
  let ?now = "w_clock (sn_world fol) (w_clock_i (sn_world fol))"
  define pl where "pl = [(''round_id'', round_id state), (''participants'', PList (map PStr (sort ps))),
      (''prompt'', prmpt), (''gen_config'', gcfg)]"
  obtain w t1 t2 where state: "state = fst (start_round (sn_round ldr) ps prmpt gcfg hex t1 t2)"
    and pub: "publish w (sn_id ldr) GEN_START (Some pl) = (Inr (), sn_world ldr')"
    and w: "w_codec w = w_codec (sn_world ldr)"
    and rm: "sn_round ldr' = snd (start_round (sn_round ldr) ps prmpt gcfg hex t1 t2)"
    using assms(1)
    by (auto simp: start_round_as_leader_def read_clock_def time_time_def Let_def pbind_def
        publish_msg_def pl_def start_round_def split: if_splits sum.splits prod.splits)
  let ?env = "\<lparr>e_type = GEN_START, e_node_id = sn_id ldr, e_ts = w_clock w (w_clock_i w), e_payload = pl\<rparr>"
  let ?s = "fol\<lparr>sn_world := (sn_world fol)\<lparr>w_poll_i := Suc (w_poll_i (sn_world fol))\<rparr>\<rparr>"
  let ?rs = "\<lparr>round_id = round_id state, leader_id = sn_id ldr, participants = sort ps, prompt = prmpt,
     gen_config = gcfg, started_at = ?now, last_leader_seen = ?now, status = Active\<rparr>"
  have poll: "poll_recv (sn_world fol) 200 = (Inr (Some ?env), sn_world ?s)"
    using poll_of_published [OF _ _ pub assms(8)] assms(2,3) w by simp
  have "on_gen_start (sn_round fol) ?env (Some ?now) ?now = Inr (set_new_round ?rs (sn_round fol))"
    using assms(7)
    by (simp add: on_gen_start_def pay_item_def sorted_strs_def pl_def sorted_sort_id Let_def)
  then have disp: "fst (dispatch ?s ?env) = Inr ?env"
    and fin: "sn_round (snd (dispatch ?s ?env)) = set_new_round ?rs (sn_round fol)"
    using assms(6,7)
    by (auto simp: dispatch_def note_sender_def note_leader_activity_def read_clock_def time_time_def Let_def)
  have pump: "pump_once fol 200 = (Inr (Some ?env), snd (dispatch ?s ?env))"
    unfolding pump_once_def poll prod.case sum.case option.case by (simp add: pbind_Inr [OF disp])
  have wait: "wait_for_round fol None = Some (Inr (Some ?rs), snd (dispatch ?s ?env))"
    using assms(7) pump fin
    by (simp add: wait_for_round_def wait_loop.simps [of None fol] wait_loop.simps [of None "snd (dispatch ?s ?env)"])
  have "rm_self_id (sn_round ldr) = sn_id ldr" "rm_self_id (sn_round fol) = sn_id fol"
    using assms(4,5) by (simp_all add: swarm_ok_def)
  then show ?thesis
    using wait state rm fin assms(6)
    by (intro exI [of _ ?rs] exI [of _ "snd (dispatch ?s ?env)"])
      (auto simp: start_round_def Let_def is_round_leader_def set_new_round_def active_round_def)
qed

theorem round_reaches_followers_witness:
  "let pl = [(''round_id'', PStr ''node-a:01234567''), (''participants'', PList [PStr ''node-a'', PStr ''node-b'']),
             (''prompt'', PStr ''hi''), (''gen_config'', PDict [])];
       cd = table_codec [(''body'', \<lparr>e_type = GEN_START, e_node_id = ''node-a'', e_ts = 2, e_payload = pl\<rparr>)];
       fol = (quiet_node ''node-b'' cd)\<lparr>sn_world :=
         (sn_world (quiet_node ''node-b'' cd))\<lparr>w_polls := (\<lambda>_ _. Some (''node-a'', ''body''))\<rparr>\<rparr>
   in \<exists>rs fol'. wait_for_round fol None = Some (Inr (Some rs), fol') \<and>
        round_id rs = PStr ''node-a:01234567'' \<and> leader_id rs = ''node-a''"
proof -
  let ?pl = "[(''round_id'', PStr ''node-a:01234567''), (''participants'', PList [PStr ''node-a'', PStr ''node-b'']),
             (''prompt'', PStr ''hi''), (''gen_config'', PDict [])]"
  let ?env = "\<lparr>e_type = GEN_START, e_node_id = ''node-a'', e_ts = 2, e_payload = ?pl\<rparr>"
  let ?cd = "table_codec [(''body'', ?env)]"
  let ?ldr = "quiet_node ''node-a'' ?cd"
  let ?fol = "(quiet_node ''node-b'' ?cd)\<lparr>sn_world :=
         (sn_world (quiet_node ''node-b'' ?cd))\<lparr>w_polls := (\<lambda>_ _. Some (''node-a'', ''body''))\<rparr>\<rparr>"
  let ?start = "start_round_as_leader ?ldr [''node-b'', ''node-a''] (PStr ''hi'') (PDict []) ''0123456789abcdef''"
  have run: "?start = (Inr (fst (start_round (RoundManager ''node-a'') [''node-b'', ''node-a''] (PStr ''hi'')
        (PDict []) ''0123456789abcdef'' 0 1)), snd ?start)"
    and sent: "w_sent (sn_world (snd ?start)) = [(''node-a'', ''body'')]"
    by (simp_all add: start_round_as_leader_def read_clock_def time_time_def publish_msg_def publish_def
        encode_def table_codec_def start_round_def RoundManager_def active_round_def Let_def)
  have "codec_ok ?cd" by (simp add: table_codec_ok)
  then have "codec_ok (w_codec (sn_world ?ldr))" by simp
  moreover have "swarm_ok ?fol" by (rule swarm_world_only) (rule quiet_node_ok)
  moreover have "active_round (sn_round ?fol) = None" by (simp add: active_round_def RoundManager_def)
  ultimately obtain rs fol' where "wait_for_round ?fol None = Some (Inr (Some rs), fol')"
    "round_id rs = PStr ''node-a:01234567''" "leader_id rs = ''node-a''"
    using round_reaches_followers [OF run _ _ quiet_node_ok, of ?fol] sent
    by (auto simp: start_round_def RoundManager_def Let_def)
  then show ?thesis unfolding Let_def by blast
qed

end
