(* ===== verification/Member_Node.thy ===== *)
theory Member_Node imports Transport Peers begin

section \<open>The membership-only node\<close>

text \<open>
  \<open>node/node.py\<close>: the class \<open>Node\<close>, the command line's demonstration of membership and
  election. The record has its fields, the world, and \<open>nd_log\<close>, the lines it prints.
  \<open>run\<close> is one pass through the method: \<open>n\<close> is how many times the loop's condition finds
  \<open>_running\<close> true, that is, when the termination signal arrives. A keyboard interrupt is
  such a signal between two iterations. The \<open>finally\<close> block runs whether the loop ended or
  raised; an exception it raises itself replaces the loop's.
\<close>

datatype log_line =
    JoinedSwarm
  | LeftCleanly string
  | LeaderIsNow string bool "string list"
  | LeftSwarm

record member_node =
  nd_id :: string
  nd_transport :: transport
  nd_world :: world
  nd_peers :: peer_table
  nd_running :: bool
  nd_log :: "log_line list"

definition Node :: "world \<Rightarrow> string \<Rightarrow> relay list \<Rightarrow> member_node result" where
  "Node w node_id relays =
     rbind (Transport relays) (\<lambda>tr.
       Inr \<lparr>nd_id = node_id, nd_transport = tr, nd_world = w,
            nd_peers = PeerTable node_id PEER_TIMEOUT, nd_running = True, nd_log = []\<rparr>)"

definition nd_print :: "log_line \<Rightarrow> member_node \<Rightarrow> member_node" where
  "nd_print l nd = nd\<lparr>nd_log := nd_log nd @ [l]\<rparr>"

definition nd_time :: "member_node \<Rightarrow> real \<times> member_node" where
  "nd_time nd = (fst (time_time (nd_world nd)), nd\<lparr>nd_world := snd (time_time (nd_world nd))\<rparr>)"

definition nd_publish :: "member_node \<Rightarrow> string \<Rightarrow> unit result \<times> member_node" where
  "nd_publish nd msg_type =
     (case publish (nd_world nd) (nd_id nd) msg_type None of (r, w) \<Rightarrow> (r, nd\<lparr>nd_world := w\<rparr>))"

definition handle_envelope :: "member_node \<Rightarrow> envelope \<Rightarrow> member_node" where
  "handle_envelope nd env =
     (let node_id = e_node_id env; msg_type = e_type env; ts = e_ts env in
      if node_id = nd_id nd then nd
      else if msg_type \<in> {HEARTBEAT, HELLO}
      then nd\<lparr>nd_peers := mark_alive (nd_peers nd) node_id (Some ts) ts\<rparr>
      else if msg_type = BYE
      then nd_print (LeftCleanly node_id) (nd\<lparr>nd_peers := mark_gone (nd_peers nd) node_id\<rparr>)
      else nd)"

definition announce_leader_if_changed :: "member_node \<Rightarrow> member_node" where
  "announce_leader_if_changed nd =
     (let (now, nd1) = nd_time nd;
          (changed, pt) = leader_changed (nd_peers nd1) None now;
          nd2 = nd1\<lparr>nd_peers := pt\<rparr>
      in case changed of
           None \<Rightarrow> nd2
         | Some l \<Rightarrow>
             (let (now', nd3) = nd_time nd2
              in nd_print (LeaderIsNow l (l = nd_id nd3) (alive_peers (nd_peers nd3) None now')) nd3))"

text \<open>One iteration of the loop: its second half, from \<open>poll_recv\<close> on, and the whole. The result is
  the new \<open>last_heartbeat\<close>.\<close>

definition run_receive :: "real \<Rightarrow> member_node \<Rightarrow> real result \<times> member_node" where
  "run_receive last_heartbeat nd =
     (case poll_recv (nd_world nd) 200 of
        (Inl e, w) \<Rightarrow> (Inl e, nd\<lparr>nd_world := w\<rparr>)
      | (Inr env, w) \<Rightarrow>
          (let nd1 = nd\<lparr>nd_world := w\<rparr>;
               nd2 = (case env of None \<Rightarrow> nd1 | Some env \<Rightarrow> handle_envelope nd1 env)
           in (Inr last_heartbeat, announce_leader_if_changed nd2)))"

definition run_iteration :: "real \<Rightarrow> member_node \<Rightarrow> real result \<times> member_node" where
  "run_iteration last_heartbeat nd =
     (let (now, nd1) = nd_time nd in
      if now - last_heartbeat \<ge> HEARTBEAT_INTERVAL
      then pbind (nd_publish nd1 HEARTBEAT) (\<lambda>_ nd2. run_receive now nd2)
      else run_receive last_heartbeat nd1)"

fun run_loop :: "nat \<Rightarrow> real \<Rightarrow> member_node \<Rightarrow> unit result \<times> member_node" where
  "run_loop 0 last_heartbeat nd = (Inr (), nd\<lparr>nd_running := False\<rparr>)"
| "run_loop (Suc n) last_heartbeat nd =
     pbind (run_iteration last_heartbeat nd) (\<lambda>last_heartbeat nd. run_loop n last_heartbeat nd)"

definition run :: "member_node \<Rightarrow> nat \<Rightarrow> unit result \<times> member_node" where
  "run nd n =
     pbind (nd_publish nd HELLO) (\<lambda>_ nd1.
       let (r, nd2) = run_loop n 0 (nd_print JoinedSwarm nd1)
       in pbind (nd_publish nd2 BYE) (\<lambda>_ nd3.
            (r, nd_print LeftSwarm (nd3\<lparr>nd_transport := close (nd_transport nd3)\<rparr>))))"

text \<open>\<open>sys.exit(1)\<close> is its own outcome.\<close>

datatype relay_choice = Relays "relay list" | SystemExit int

definition resolve_relays :: "string \<Rightarrow> relay_choice result" where
  "resolve_relays spec =
     (if spec = ''local'' then Inr (Relays LOCAL_RELAYS)
      else if spec = ''prod'' then
        (if RELAYS = [] then Inr (SystemExit 1) else Inr (Relays RELAYS))
      else Inl ValueError)"

text \<open>
  The command line. \<open>id\<close> and \<open>relays\<close> are the values of the two options, if given; \<open>argparse\<close>
  itself exits with status 2 when a required option is missing or a value is not among the choices.
\<close>

datatype main_end = Exited int | Raised py_error | Finished "unit result" member_node

definition node_main :: "world \<Rightarrow> string option \<Rightarrow> string option \<Rightarrow> nat \<Rightarrow> main_end" where
  "node_main w id_arg relays_arg n =
     (case id_arg of None \<Rightarrow> Exited 2
      | Some node_id \<Rightarrow>
          let spec = (case relays_arg of None \<Rightarrow> ''local'' | Some r \<Rightarrow> r)
          in if spec \<notin> {''local'', ''prod''} then Exited 2
          else case resolve_relays spec of
                 Inl e \<Rightarrow> Raised e
               | Inr (SystemExit c) \<Rightarrow> Exited c
               | Inr (Relays relays) \<Rightarrow>
                   (case Node w node_id relays of
                      Inl e \<Rightarrow> Raised e
                    | Inr nd \<Rightarrow> (case run nd n of (r, nd') \<Rightarrow> Finished r nd')))"

subsection \<open>What a run sends\<close>

text \<open>A frame that decodes to a message of the given type and sender, with no payload.\<close>

definition sent_as :: "codec \<Rightarrow> string \<Rightarrow> string \<Rightarrow> string \<times> string \<Rightarrow> bool" where
  "sent_as cd node_id msg_type frame \<longleftrightarrow> fst frame = node_id \<and>
     (\<exists>ts. decode cd (fst frame) (snd frame) =
        Inr \<lparr>e_type = msg_type, e_node_id = node_id, e_ts = ts, e_payload = []\<rparr>)"

text \<open>msgpack packs the three messages a run sends, at any time the clock shows.\<close>

definition packs_beats :: "member_node \<Rightarrow> bool" where
  "packs_beats nd \<longleftrightarrow> codec_ok (w_codec (nd_world nd)) \<and>
     (\<forall>m \<in> {HELLO, HEARTBEAT, BYE}. \<forall>i. \<exists>b. packb (w_codec (nd_world nd))
        \<lparr>e_type = m, e_node_id = nd_id nd, e_ts = w_clock (nd_world nd) i, e_payload = []\<rparr> = Inr b)"

text \<open>What no step of a run changes, and the messages it adds to those sent.\<close>

definition adds_beats :: "member_node \<Rightarrow> member_node \<Rightarrow> bool" where
  "adds_beats nd nd' \<longleftrightarrow> nd_id nd' = nd_id nd \<and> w_codec (nd_world nd') = w_codec (nd_world nd) \<and>
     w_clock (nd_world nd') = w_clock (nd_world nd) \<and>
     (\<exists>fs. w_sent (nd_world nd') = w_sent (nd_world nd) @ fs \<and>
        (\<forall>f \<in> set fs. sent_as (w_codec (nd_world nd)) (nd_id nd) HEARTBEAT f))"

lemma adds_beats_refl: "adds_beats nd nd"
  by (simp add: adds_beats_def)

lemma adds_beats_trans: "adds_beats a b \<Longrightarrow> adds_beats b c \<Longrightarrow> adds_beats a c"
  by (auto simp: adds_beats_def)

lemma adds_beats_packs: "adds_beats nd nd' \<Longrightarrow> packs_beats nd \<Longrightarrow> packs_beats nd'"
  by (simp add: adds_beats_def packs_beats_def)

lemma nd_publish_sends:
  assumes "packs_beats nd" and "m \<in> {HELLO, HEARTBEAT, BYE}"
  shows "\<exists>f w. nd_publish nd m = (Inr (), nd\<lparr>nd_world := w\<rparr>) \<and>
    w_codec w = w_codec (nd_world nd) \<and> w_clock w = w_clock (nd_world nd) \<and> w_sent w = w_sent (nd_world nd) @ [f] \<and>
    sent_as (w_codec (nd_world nd)) (nd_id nd) m f"
proof -
  let ?w = "nd_world nd"
  let ?e = "\<lparr>e_type = m, e_node_id = nd_id nd, e_ts = w_clock ?w (w_clock_i ?w), e_payload = []\<rparr>"
  obtain b where b: "packb (w_codec ?w) ?e = Inr b" using assms unfolding packs_beats_def by blast
  then have "unpackb (w_codec ?w) b = Inr ?e" using assms by (simp add: packs_beats_def codec_ok_def)
  with b show ?thesis
    by (intro exI [of _ "(nd_id nd, b)"] exI [of _ "?w\<lparr>w_clock_i := Suc (w_clock_i ?w),
          w_sent := w_sent ?w @ [(nd_id nd, b)]\<rparr>"]) (simp add: nd_publish_def publish_def encode_def time_time_def
        Let_def sent_as_def decode_def)
qed

lemma nd_time_keeps: "adds_beats nd (snd (nd_time nd))"
  by (simp add: nd_time_def adds_beats_def)

lemma announce_keeps: "adds_beats nd (announce_leader_if_changed nd)"
  by (simp add: announce_leader_if_changed_def nd_time_def nd_print_def adds_beats_def Let_def
      split: prod.split option.split)

lemma handle_keeps: "adds_beats nd (handle_envelope nd env)"
  by (simp add: handle_envelope_def nd_print_def adds_beats_def Let_def)

lemma run_receive_keeps: "adds_beats nd (snd (run_receive lh nd))"
proof -
  obtain a b where pr: "poll_recv (nd_world nd) 200 = (a, b)" by force
  let ?s = "nd\<lparr>nd_world := b\<rparr>"
  have "b = snd (poll_recv (nd_world nd) 200)" by (simp add: pr)
  then have s: "adds_beats nd ?s" by (simp add: adds_beats_def)
  have "adds_beats nd (announce_leader_if_changed (case env of None \<Rightarrow> ?s | Some env \<Rightarrow> handle_envelope ?s env))" for env
  proof -
    have "adds_beats ?s (case env of None \<Rightarrow> ?s | Some env \<Rightarrow> handle_envelope ?s env)"
      by (simp add: handle_keeps adds_beats_refl split: option.split)
    from adds_beats_trans [OF adds_beats_trans [OF s this] announce_keeps] show ?thesis .
  qed
  with s show ?thesis by (cases a) (simp_all add: run_receive_def pr Let_def)
qed

lemma run_iteration_keeps:
  assumes "packs_beats nd"
  shows "adds_beats nd (snd (run_iteration lh nd))"
proof -
  obtain now nd1 where t: "nd_time nd = (now, nd1)" by force
  have nd1: "adds_beats nd nd1" using nd_time_keeps [of nd] by (simp add: t)
  then have "packs_beats nd1" using assms by (rule adds_beats_packs)
  then have "\<exists>f w. nd_publish nd1 HEARTBEAT = (Inr (), nd1\<lparr>nd_world := w\<rparr>) \<and>
      w_codec w = w_codec (nd_world nd1) \<and> w_clock w = w_clock (nd_world nd1) \<and>
      w_sent w = w_sent (nd_world nd1) @ [f] \<and> sent_as (w_codec (nd_world nd1)) (nd_id nd1) HEARTBEAT f"
    by (rule nd_publish_sends) simp
  then obtain f w where
    pub: "nd_publish nd1 HEARTBEAT = (Inr (), nd1\<lparr>nd_world := w\<rparr>)"
    and w: "adds_beats nd1 (nd1\<lparr>nd_world := w\<rparr>)"
    by (force simp: adds_beats_def)
  show ?thesis
  proof (cases "now - lh \<ge> HEARTBEAT_INTERVAL")
    case True
    then have "run_iteration lh nd = run_receive now (nd1\<lparr>nd_world := w\<rparr>)"
      by (simp add: run_iteration_def t pub)
    then show ?thesis using run_receive_keeps nd1 w adds_beats_trans by metis
  next
    case False
    then have "run_iteration lh nd = run_receive lh nd1" by (simp add: run_iteration_def t)
    then show ?thesis using run_receive_keeps nd1 adds_beats_trans by metis
  qed
qed

lemma run_loop_keeps:
  "packs_beats nd \<Longrightarrow> adds_beats nd (snd (run_loop n lh nd))"
proof (induction n arbitrary: lh nd)
  case 0
  then show ?case by (simp add: adds_beats_def)
next
  case (Suc n)
  obtain r nd1 where it: "run_iteration lh nd = (r, nd1)" by (cases "run_iteration lh nd")
  have nd1: "adds_beats nd nd1" using run_iteration_keeps [OF Suc.prems, of lh] by (simp add: it)
  then have "packs_beats nd1" using Suc.prems by (rule adds_beats_packs)
  from Suc.IH [OF this] nd1 show ?case
    using adds_beats_trans by (cases r) (auto simp: it)
qed

text \<open>
  With the relay list as it is in the repository, the program either exits with a usage error
  (2), or with 1 because no production relays are entered, or runs on the local relay; the
  \<open>ValueError\<close>s of \<open>_resolve_relays\<close> and \<open>Transport\<close> never come out of it.
\<close>

lemma node_main_ends:
  "node_main w id_arg relays_arg n =
     (if id_arg = None \<or> (\<exists>r. relays_arg = Some r \<and> r \<noteq> ''local'' \<and> r \<noteq> ''prod'') then Exited 2
      else if relays_arg = Some ''prod'' then Exited 1
      else (case Node w (the id_arg) LOCAL_RELAYS of
              Inl e \<Rightarrow> Raised e | Inr nd \<Rightarrow> Finished (fst (run nd n)) (snd (run nd n))))"
  by (auto simp: node_main_def resolve_relays_def RELAYS_def split: option.splits sum.splits prod.splits)

subsection \<open>Properties\<close>

text \<open>C39: a node never leaves without a word. Whatever it receives while it runs, however long it runs
  and even if a malformed message makes the loop raise, everything a run sends is one
  \<open>HELLO\<close>, then heartbeats, then one \<open>BYE\<close>, and the sockets are closed at the end.\<close>

theorem run_hello_beats_bye:
  assumes "packs_beats nd" and "run nd n = (r, nd')"
  shows "\<exists>hello beats bye. w_sent (nd_world nd') = w_sent (nd_world nd) @ hello # beats @ [bye] \<and>
    sent_as (w_codec (nd_world nd)) (nd_id nd) HELLO hello \<and>
    (\<forall>f \<in> set beats. sent_as (w_codec (nd_world nd)) (nd_id nd) HEARTBEAT f) \<and>
    sent_as (w_codec (nd_world nd)) (nd_id nd) BYE bye \<and>
    \<not> tr_open (nd_transport nd') \<and> last (nd_log nd') = LeftSwarm"
proof -
  let ?cd = "w_codec (nd_world nd)"
  obtain hello w1 where hello: "nd_publish nd HELLO = (Inr (), nd\<lparr>nd_world := w1\<rparr>)" "w_codec w1 = ?cd"
    "w_clock w1 = w_clock (nd_world nd)"
    "w_sent w1 = w_sent (nd_world nd) @ [hello]" "sent_as ?cd (nd_id nd) HELLO hello"
    using nd_publish_sends [OF assms(1), of HELLO] by auto
  let ?nd1 = "nd_print JoinedSwarm (nd\<lparr>nd_world := w1\<rparr>)"
  have cd1: "w_codec (nd_world ?nd1) = ?cd" "nd_id ?nd1 = nd_id nd"
    "w_sent (nd_world ?nd1) = w_sent (nd_world nd) @ [hello]"
    by (simp_all add: nd_print_def hello)
  obtain r2 nd2 where loop: "run_loop n 0 ?nd1 = (r2, nd2)" by (cases "run_loop n 0 ?nd1")
  have ok1: "packs_beats ?nd1"
    using assms(1) hello by (simp add: packs_beats_def nd_print_def)
  from run_loop_keeps [OF this, of n 0] have adds: "adds_beats ?nd1 nd2" by (simp add: loop)
  then obtain beats where beats: "w_sent (nd_world nd2) = w_sent (nd_world nd) @ hello # beats"
    "\<forall>f \<in> set beats. sent_as ?cd (nd_id nd) HEARTBEAT f" "nd_id nd2 = nd_id nd" "w_codec (nd_world nd2) = ?cd"
    by (auto simp: adds_beats_def cd1)
  obtain bye w3 where bye: "nd_publish nd2 BYE = (Inr (), nd2\<lparr>nd_world := w3\<rparr>)"
    "w_sent w3 = w_sent (nd_world nd2) @ [bye]" "sent_as ?cd (nd_id nd) BYE bye"
    using nd_publish_sends [OF adds_beats_packs [OF adds ok1], of BYE] beats(3,4) by auto
  have "nd' = nd_print LeftSwarm (nd2\<lparr>nd_world := w3, nd_transport := close (nd_transport nd2)\<rparr>)"
    using assms(2) hello(1) loop bye(1) by (simp add: run_def)
  then show ?thesis
    using hello(5) beats(1,2) bye(2,3)
    by (intro exI [of _ hello] exI [of _ beats] exI [of _ bye]) (simp add: nd_print_def close_def)
qed

text \<open>A node whose clock stands still, with a codec for the three messages it can send.\<close>

definition example_node :: member_node where
  "example_node =
     (let msg = (\<lambda>m. \<lparr>e_type = m, e_node_id = ''node-a'', e_ts = 7, e_payload = []\<rparr>)
      in \<lparr>nd_id = ''node-a'',
          nd_transport = \<lparr>tr_pub = [], tr_sub = [], tr_subscribe = [], tr_open = True\<rparr>,
          nd_world = \<lparr>w_codec = table_codec [(''h'', msg HELLO), (''b'', msg HEARTBEAT), (''x'', msg BYE)],
            w_clock = (\<lambda>_. 7), w_clock_i = 0, w_polls = (\<lambda>_ _. None), w_poll_i = 0, w_sent = []\<rparr>,
          nd_peers = PeerTable ''node-a'' PEER_TIMEOUT, nd_running = True, nd_log = []\<rparr>)"

theorem run_hello_beats_bye_witness:
  "\<exists>hello beats bye. w_sent (nd_world (snd (run example_node 3))) = hello # beats @ [bye] \<and>
     sent_as (w_codec (nd_world example_node)) ''node-a'' BYE bye"
proof -
  have "packs_beats example_node"
    by (auto simp: packs_beats_def example_node_def Let_def table_codec_ok)
      (simp_all add: table_codec_def msg_type_defs)
  from run_hello_beats_bye [OF this surjective_pairing, of 3] show ?thesis
    by (auto simp: example_node_def Let_def)
qed

text \<open>This node goes by the sender's clock. A \<open>HEARTBEAT\<close> or \<open>HELLO\<close> sets the sender's last sign of
  life to the time stamp in the message: a delayed copy moves it back, and if the stamp is
  older than the timeout, the sender is dead at once, although newer heartbeats of it had been
  read before; so is a peer whose clock is slow by more than the timeout, for good.\<close>

lemma sender_clock_decides:
  assumes "peers_ok (nd_peers nd)" and "e_type env \<in> {HEARTBEAT, HELLO}"
    and "e_node_id env \<noteq> nd_id nd" and "pt_self_id (nd_peers nd) = nd_id nd"
  shows "e_node_id env \<in> set (alive_peers (nd_peers (handle_envelope nd env)) (Some now) clock) \<longleftrightarrow>
    now - e_ts env \<le> pt_timeout (nd_peers nd)"
proof -
  have "nd_peers (handle_envelope nd env) = mark_alive (nd_peers nd) (e_node_id env) (Some (e_ts env)) (e_ts env)"
    using assms(2,3) by (simp add: handle_envelope_def Let_def)
  then show ?thesis
    using assms by (simp add: alive_iff peers_ok_steps)
qed

lemma sender_clock_example:
  "let fresh = \<lparr>e_type = HEARTBEAT, e_node_id = ''node-b'', e_ts = 99, e_payload = []\<rparr>;
       copy = fresh\<lparr>e_ts := 90\<rparr>;
       nd1 = handle_envelope example_node fresh; nd2 = handle_envelope nd1 copy
   in ''node-b'' \<in> set (alive_peers (nd_peers nd1) (Some 100) 0) \<and>
      ''node-b'' \<notin> set (alive_peers (nd_peers nd2) (Some 100) 0)"
proof -
  let ?fresh = "\<lparr>e_type = HEARTBEAT, e_node_id = ''node-b'', e_ts = 99, e_payload = []\<rparr>"
  let ?nd1 = "handle_envelope example_node ?fresh"
  have "peers_ok (nd_peers example_node)" by (simp add: example_node_def peers_ok_init Let_def)
  moreover have "peers_ok (nd_peers ?nd1)"
    by (simp add: handle_envelope_def example_node_def Let_def peers_ok_steps peers_ok_init)
  moreover have "pt_self_id (nd_peers ?nd1) = nd_id ?nd1" "nd_id ?nd1 = ''node-a''"
    "pt_timeout (nd_peers ?nd1) = 6" "pt_self_id (nd_peers example_node) = nd_id example_node"
    "nd_id example_node = ''node-a''" "pt_timeout (nd_peers example_node) = 6"
    by (simp_all add: handle_envelope_def example_node_def Let_def PeerTable_def PEER_TIMEOUT_def)
  ultimately show ?thesis
    using sender_clock_decides [of example_node ?fresh 100 0]
      sender_clock_decides [of ?nd1 "?fresh\<lparr>e_ts := 90\<rparr>" 100 0] by simp
qed

end
