(* ===== verification/Generation.thy ===== *)
theory Generation imports Swarm Float64 Stop_Detection Local_Step begin

section \<open>The generation loop\<close>

text \<open>
  \<open>node/generation.py\<close>: \<open>GenConfig\<close> and the two methods of \<open>GenerationRunner\<close>, \<open>run_round\<close> and
  \<open>_do_sync\<close>, without what they print. A method takes the swarm node it drives and returns it;
  the result is an \<open>option\<close> because \<open>collect_until\<close> need not return. The model, the noise of
  its steps, PyTorch (\<open>torch\<close>) and what Python leaves open (\<open>python\<close>) are parameters, in
  the record \<open>runner\<close>. Lengths and counts of the configuration are natural numbers (a negative
  length raises in \<open>torch.full\<close> before anything happens).

  Values that come out of a message are read with the types the senders give them: where a
  position is not an integer, say, the model stops with \<open>Untyped\<close>.
\<close>

record gen_config =
  gc_gen_length :: nat
  gc_block_length :: nat
  gc_steps :: nat
  gc_sync_every :: nat
  gc_step_cfg :: step_config
  gc_stop_cfg :: stop_config

text \<open>
  What the code takes from Python and its C library without fixing it: the order in which a set is
  iterated, and \<open>math.exp\<close>, from a double to a double, \<open>None\<close> where it raises \<open>OverflowError\<close>. Scores
  are added as doubles (type \<open>f64\<close>).
\<close>

record python =
  py_set_iter :: "int set \<Rightarrow> int list"
  py_exp :: "real \<Rightarrow> f64 option"

definition exp_ok :: "(real \<Rightarrow> f64 option) \<Rightarrow> bool" where
  "exp_ok mexp \<longleftrightarrow> (\<forall>l e. mexp l = Some e \<longrightarrow> is_double e)"

text \<open>A Python to evaluate with: sets in ascending order, and an exponential that is right up to one
  unit in the last place.\<close>

definition double_exp :: "real \<Rightarrow> f64 option" where
  "double_exp x = (if exp x < 2 ^ 1024 - 2 ^ 970 then Some (0 + F64 \<lfloor>exp x * 2 ^ 1074\<rfloor>) else None)"

definition plain_python :: python where
  "plain_python = \<lparr>py_set_iter = sorted_list_of_set, py_exp = double_exp\<rparr>"

lemma plain_python_sets [simp]: "py_set_iter plain_python = sorted_list_of_set"
  and plain_python_order [simp]: "set_order (py_set_iter plain_python)"
  by (simp_all add: plain_python_def set_order_sorted)

lemma plain_python_exp: "py_exp plain_python = double_exp"
  by (simp add: plain_python_def)

lemma plain_python_exp_ok: "exp_ok (py_exp plain_python)"
  by (simp add: exp_ok_def plain_python_exp double_exp_def)

record runner =
  ru_torch :: torch
  ru_model :: "int list \<Rightarrow> real list list"
  ru_noise :: "nat \<Rightarrow> real list list"
  ru_python :: python

subsection \<open>Messages of a sync\<close>

text \<open>\<open>my_commits\<close> maps a position to a token and a confidence.\<close>

type_synonym commit = "(int, int \<times> real) dict"

type_synonym position_scores = "(int, (int, real) dict) dict"

definition commit_payload :: "pyval \<Rightarrow> int \<Rightarrow> commit \<Rightarrow> payload" where
  "commit_payload rid sync_seq my_commits =
     [(''round_id'', rid), (''sync_seq'', PInt sync_seq),
      (''positions'', PList (map (\<lambda>(pos, (tok, conf)). PInt pos) my_commits)),
      (''tokens'', PList (map (\<lambda>(pos, (tok, conf)). PInt tok) my_commits)),
      (''confidences'', PList (map (\<lambda>(pos, (tok, conf)). PFloat conf) my_commits))]"

definition parse_commit :: "payload \<Rightarrow> commit result" where
  "parse_commit payload =
     rbind (pay_item payload ''positions'') (\<lambda>ps.
     rbind (pay_item payload ''tokens'') (\<lambda>ts.
     rbind (pay_item payload ''confidences'') (\<lambda>cs.
     rbind (iterate ps) (\<lambda>ps. rbind (iterate ts) (\<lambda>ts. rbind (iterate cs) (\<lambda>cs.
     rbind (mapM (\<lambda>(p, (t, c)).
         rbind (as_int p) (\<lambda>p. rbind (as_int t) (\<lambda>t. rbind (as_float c) (\<lambda>c. Inr (p, (t, c))))))
       (zip ps (zip ts cs))) (\<lambda>kvs. Inr (dict_of kvs))))))))"

definition score_payload :: "pyval \<Rightarrow> int \<Rightarrow> position_scores \<Rightarrow> payload" where
  "score_payload rid sync_seq my_scores =
     [(''round_id'', rid), (''sync_seq'', PInt sync_seq),
      (''scores'', PDict (map (\<lambda>(pos, toks).
         (str_int pos, PDict (map (\<lambda>(t, s). (str_int t, PFloat s)) toks))) my_scores))]"

fun dict_items :: "pyval \<Rightarrow> (string \<times> pyval) list result" where
  "dict_items (PDict d) = Inr d"
| "dict_items _ = Inl Untyped"

definition parse_scores :: "payload \<Rightarrow> position_scores result" where
  "parse_scores payload =
     rbind (pay_item payload ''scores'') (\<lambda>v.
     rbind (dict_items v) (\<lambda>items.
     rbind (mapM (\<lambda>(pos, toks).
         rbind (int_str pos) (\<lambda>pos.
         rbind (dict_items toks) (\<lambda>toks.
         rbind (mapM (\<lambda>(tok, s). rbind (int_str tok) (\<lambda>tok. rbind (as_float s) (\<lambda>s. Inr (tok, s)))) toks) (\<lambda>kvs.
         Inr (pos, dict_of kvs))))) items) (\<lambda>kvs.
     Inr (dict_of kvs))))"

text \<open>The scores a node reports: its own probability of every disputed token, floored at
  \<open>1e-12\<close>, as a logarithm.\<close>

definition own_scores ::
  "(int set \<Rightarrow> int list) \<Rightarrow> real list list \<Rightarrow> (int, int set) dict \<Rightarrow> position_scores result" where
  "own_scores set_iter my_p disputes =
     mapM (\<lambda>(pos, tokens).
       rbind (mapM (\<lambda>tok.
           rbind (col_index my_p pos) (\<lambda>i. rbind (col_index (my_p ! i) tok) (\<lambda>j.
             Inr (tok, clamped_log (my_p ! i ! j))))) (set_iter tokens)) (\<lambda>toks.
         Inr (pos, toks))) disputes"

text \<open>\<open>{self.id: own}\<close>, then one entry per message received.\<close>

definition with_others ::
  "(payload \<Rightarrow> 'a result) \<Rightarrow> string \<Rightarrow> 'a \<Rightarrow> (string, payload) dict \<Rightarrow> (string, 'a) dict result" where
  "with_others parse self_id own received =
     foldM (\<lambda>(node_id, payload) acc. rbind (parse payload) (\<lambda>v. Inr (dset node_id v acc)))
       received [(self_id, own)]"

subsection \<open>One sync\<close>

text \<open>Sequencing for code that may raise and may not return.\<close>

definition tbind ::
  "('a result \<times> 's) option \<Rightarrow> ('a \<Rightarrow> 's \<Rightarrow> ('b result \<times> 's) option) \<Rightarrow> ('b result \<times> 's) option" where
  "tbind m f = (case m of None \<Rightarrow> None | Some (Inl e, s) \<Rightarrow> Some (Inl e, s) | Some (Inr x, s) \<Rightarrow> f x s)"

text \<open>Publish one's own message of a phase, then wait for the others'.\<close>

definition exchange ::
  "string \<Rightarrow> payload \<Rightarrow> pyval \<Rightarrow> int \<Rightarrow> string set \<Rightarrow> swarm_node
   \<Rightarrow> ((string, payload) dict result \<times> swarm_node) option" where
  "exchange msg_type payload rid sync_seq other_participants sn =
     tbind (Some (publish_msg sn msg_type (Some payload))) (\<lambda>_ sn.
       collect_until sn msg_type rid sync_seq other_participants SYNC_BARRIER_TIMEOUT)"

definition settle_disputes ::
  "python \<Rightarrow> pyval \<Rightarrow> int \<Rightarrow> string set \<Rightarrow> real list list \<Rightarrow> (int, int set) dict \<Rightarrow> swarm_node
   \<Rightarrow> ((int, int) dict result \<times> swarm_node) option" where
  "settle_disputes py rid sync_seq other_participants my_p disputes sn =
     tbind (Some (own_scores (py_set_iter py) my_p disputes, sn)) (\<lambda>my_scores sn.
     tbind (exchange DISPUTE_SCORE (score_payload rid sync_seq my_scores) rid sync_seq other_participants sn)
       (\<lambda>others_scores_raw sn.
     Some (rbind (with_others parse_scores (sn_id sn) my_scores others_scores_raw)
             (\<lambda>all_scores. resolve_disputes (py_exp py) all_scores), sn)))"

definition do_sync ::
  "python \<Rightarrow> pyval \<Rightarrow> int \<Rightarrow> string set \<Rightarrow> commit \<Rightarrow> real list list \<Rightarrow> (int, int) dict
   \<Rightarrow> int \<Rightarrow> int \<Rightarrow> stop_detector \<Rightarrow> swarm_node
   \<Rightarrow> (((int, int) dict \<times> int option \<times> stop_detector) result \<times> swarm_node) option" where
  "do_sync py rid sync_seq other_participants my_commits my_p shared_x gen_start gen_end sd sn =
     tbind (exchange COMMIT (commit_payload rid sync_seq my_commits) rid sync_seq other_participants sn)
       (\<lambda>others_raw sn.
     tbind (Some (with_others parse_commit (sn_id sn) my_commits others_raw, sn)) (\<lambda>all_commits sn.
     let disputes = detect_disputes all_commits in
     tbind (if disputes = [] then Some (Inr [], sn)
            else settle_disputes py rid sync_seq other_participants my_p disputes sn) (\<lambda>resolved sn.
     let shared_x = merge_consensus (py_set_iter py) shared_x all_commits resolved;
         (new_frozen_from, sd) = check sd shared_x gen_start gen_end
     in Some (Inr (shared_x, new_frozen_from, sd), sn))))"

subsection \<open>A whole round\<close>

text \<open>
  The local variables of the loops. \<open>None\<close> in place of them is the early \<open>return None\<close> of a
  round whose leader has gone silent.
\<close>

record loop_vars =
  lv_x :: "int list"
  lv_age :: "int list"
  lv_shared :: "(int, int) dict"
  lv_sd :: stop_detector
  lv_frozen :: "int option"
  lv_seq :: int
  lv_pending :: commit
  lv_steps_done :: nat

text \<open>\<open>for pos, token in shared_x.items(): if block_start <= pos < block_end: ...\<close>\<close>

definition adopt_shared :: "nat \<Rightarrow> nat \<Rightarrow> loop_vars \<Rightarrow> loop_vars" where
  "adopt_shared block_start block_end lv =
     fold (\<lambda>(pos, token) lv.
       if int block_start \<le> pos \<and> pos < int block_end
       then lv\<lparr>lv_x := (lv_x lv)[nat pos := token], lv_age := (lv_age lv)[nat pos := 0]\<rparr> else lv)
       (lv_shared lv) lv"

definition note_transfers :: "step_result \<Rightarrow> commit \<Rightarrow> commit" where
  "note_transfers r pending =
     fold (\<lambda>pos pending. dset (int pos) (sr_x0 r ! pos, sr_conf_new r ! pos) pending)
       (filter (\<lambda>pos. sr_transfer r ! pos) [0..<length (sr_transfer r)]) pending"

definition gen_step ::
  "runner \<Rightarrow> gen_config \<Rightarrow> pyval \<Rightarrow> string set \<Rightarrow> nat \<Rightarrow> nat \<Rightarrow> nat \<Rightarrow> nat \<Rightarrow> nat \<Rightarrow> nat
   \<Rightarrow> loop_vars \<Rightarrow> swarm_node \<Rightarrow> (loop_vars option result \<times> swarm_node) option" where
  "gen_step ru cfg rid other_participants gen_start gen_end block_start block_end steps_per_block step_idx lv sn =
     tbind (Some (pump_once sn 10)) (\<lambda>_ sn.
       let (now, sn1) = read_clock sn;
           (failed, rm) = check_leader_timeout (sn_round sn1) None now;
           sn2 = sn1\<lparr>sn_round := rm\<rparr>
       in if failed then Some (Inr None, sn2)
       else
         let steps_remaining = int steps_per_block - int step_idx in
         tbind (Some (local_step (ru_torch ru) (ru_model ru) (ru_noise ru (lv_steps_done lv)) (lv_x lv) (lv_age lv)
                  steps_remaining block_start block_end (int steps_per_block) (gc_step_cfg cfg)
                  (map_option nat (lv_frozen lv)), sn2)) (\<lambda>r sn3.
         let lv1 = lv\<lparr>lv_x := sr_x r, lv_age := sr_age r,
                      lv_pending := note_transfers r (lv_pending lv),
                      lv_steps_done := Suc (lv_steps_done lv)\<rparr>;
             is_last_step = (step_idx = steps_per_block - 1)
         in if gc_sync_every cfg = 0 then Some (Inl ZeroDivisionError, sn3)
            else if (step_idx + 1) mod gc_sync_every cfg = 0 \<or> is_last_step then
              tbind (do_sync (ru_python ru) rid (lv_seq lv1) other_participants (lv_pending lv1) (sr_p r)
                       (lv_shared lv1) (int gen_start) (int gen_end) (lv_sd lv1) sn3)
                (\<lambda>(shared_x, frozen_from, sd) sn4.
                  Some (Inr (Some (adopt_shared block_start block_end
                    (lv1\<lparr>lv_shared := shared_x, lv_frozen := frozen_from, lv_sd := sd,
                         lv_seq := lv_seq lv1 + 1, lv_pending := []\<rparr>))), sn4))
            else Some (Inr (Some lv1), sn3)))"

fun steps_loop ::
  "(nat \<Rightarrow> loop_vars \<Rightarrow> swarm_node \<Rightarrow> (loop_vars option result \<times> swarm_node) option)
   \<Rightarrow> nat list \<Rightarrow> loop_vars \<Rightarrow> swarm_node \<Rightarrow> (loop_vars option result \<times> swarm_node) option" where
  "steps_loop step [] lv sn = Some (Inr (Some lv), sn)"
| "steps_loop step (i # is) lv sn =
     tbind (step i lv sn) (\<lambda>r sn.
       case r of None \<Rightarrow> Some (Inr None, sn) | Some lv \<Rightarrow> steps_loop step is lv sn)"

fun blocks_loop ::
  "runner \<Rightarrow> gen_config \<Rightarrow> pyval \<Rightarrow> string set \<Rightarrow> nat \<Rightarrow> nat \<Rightarrow> nat \<Rightarrow> nat list
   \<Rightarrow> loop_vars \<Rightarrow> swarm_node \<Rightarrow> (loop_vars option result \<times> swarm_node) option" where
  "blocks_loop ru cfg rid others gen_start gen_end steps_per_block [] lv sn = Some (Inr (Some lv), sn)"
| "blocks_loop ru cfg rid others gen_start gen_end steps_per_block (b # bs) lv sn =
     (let block_start = gen_start + b * gc_block_length cfg;
          block_end = gen_start + (b + 1) * gc_block_length cfg
      in if (case lv_frozen lv of None \<Rightarrow> False | Some f \<Rightarrow> int block_start \<ge> f)
      then Some (Inr (Some lv), sn)
      else
        tbind (steps_loop
            (gen_step ru cfg rid others gen_start gen_end block_start block_end steps_per_block)
            [0..<steps_per_block]
            (lv\<lparr>lv_age := replicate (length (lv_x lv)) 0, lv_pending := []\<rparr>) sn) (\<lambda>r sn.
          case r of None \<Rightarrow> Some (Inr None, sn)
          | Some lv \<Rightarrow> blocks_loop ru cfg rid others gen_start gen_end steps_per_block bs lv sn))"

definition start_vars :: "int list \<Rightarrow> gen_config \<Rightarrow> loop_vars" where
  "start_vars prompt_ids cfg =
     \<lparr>lv_x = prompt_ids @ replicate (gc_gen_length cfg) (sc_mask_id (gc_step_cfg cfg)), lv_age = [],
      lv_shared = map (\<lambda>p. (int p, prompt_ids ! p)) [0..<length prompt_ids],
      lv_sd = StopDetector (gc_stop_cfg cfg), lv_frozen = None, lv_seq = 0, lv_pending = [],
      lv_steps_done = 0\<rparr>"

definition run_round ::
  "runner \<Rightarrow> int list \<Rightarrow> gen_config \<Rightarrow> swarm_node \<Rightarrow> ((int, int) dict option result \<times> swarm_node) option" where
  "run_round ru prompt_ids cfg sn =
     (case active_round (sn_round sn) of
        None \<Rightarrow> Some (Inl AttributeError, sn)
      | Some round_state \<Rightarrow>
          let rid = round_id round_state;
              others = set (participants round_state) - {sn_id sn};
              gen_start = length prompt_ids;
              gen_end = gen_start + gc_gen_length cfg
          in if gc_block_length cfg = 0 then Some (Inl ZeroDivisionError, sn)
          else let num_blocks = gc_gen_length cfg div gc_block_length cfg
          in if num_blocks = 0 then Some (Inl ZeroDivisionError, sn)
          else
            let steps_per_block = gc_steps cfg div num_blocks
            in tbind (blocks_loop ru cfg rid others gen_start gen_end steps_per_block [0..<num_blocks]
                  (start_vars prompt_ids cfg) sn)
                 (\<lambda>r sn. case r of
                    None \<Rightarrow> Some (Inr None, sn)
                  | Some lv \<Rightarrow>
                      if is_round_leader (sn_round sn)
                      then tbind (Some (publish_msg sn GEN_DONE (Some [(''round_id'', rid)])))
                             (\<lambda>_ sn. Some (Inr (Some (lv_shared lv)), sn))
                      else Some (Inr (Some (lv_shared lv)), sn)))"

subsection \<open>Messages read back\<close>

lemma parse_commit_own:
  assumes "dict_ok my_commits"
  shows "parse_commit (commit_payload rid sync_seq my_commits) = Inr my_commits"
proof -
  have "mapM (\<lambda>(p, (t, c)).
         rbind (as_int p) (\<lambda>p. rbind (as_int t) (\<lambda>t. rbind (as_float c) (\<lambda>c. Inr (p, (t, c))))))
       (zip (map (\<lambda>(pos, (tok, conf)). PInt pos) d)
         (zip (map (\<lambda>(pos, (tok, conf)). PInt tok) d) (map (\<lambda>(pos, (tok, conf)). PFloat conf) d))) = Inr d"
    for d :: commit
    by (induction d) auto
  then show ?thesis
    by (simp add: parse_commit_def commit_payload_def pay_item_def dict_of_id [OF assms])
qed

definition scores_ok :: "position_scores \<Rightarrow> bool" where
  "scores_ok d \<longleftrightarrow> dict_ok d \<and> (\<forall>toks \<in> snd ` set d. dict_ok toks)"

lemma parse_scores_own:
  assumes "scores_ok my_scores"
  shows "parse_scores (score_payload rid sync_seq my_scores) = Inr my_scores"
proof -
  have inner: "mapM (\<lambda>(tok, s). rbind (int_str tok) (\<lambda>tok. rbind (as_float s) (\<lambda>s. Inr (tok, s))))
      (map (\<lambda>(t, s). (str_int t, PFloat s)) toks) = Inr toks" for toks
    by (induction toks) auto
  have "mapM (\<lambda>(pos, toks).
         rbind (int_str pos) (\<lambda>pos.
         rbind (dict_items toks) (\<lambda>toks.
         rbind (mapM (\<lambda>(tok, s). rbind (int_str tok) (\<lambda>tok. rbind (as_float s) (\<lambda>s. Inr (tok, s)))) toks) (\<lambda>kvs.
         Inr (pos, dict_of kvs)))))
      (map (\<lambda>(pos, toks). (str_int pos, PDict (map (\<lambda>(t, s). (str_int t, PFloat s)) toks))) d) = Inr d"
    if "\<forall>toks \<in> snd ` set d. dict_ok toks" for d :: position_scores
    using that by (induction d) (auto simp: inner dict_of_id)
  then show ?thesis
    using assms
    by (simp add: parse_scores_def score_payload_def pay_item_def dict_of_id scores_ok_def)
qed

lemma payload_keys:
  "payload_key COMMIT (commit_payload rid sync_seq c) = (COMMIT, rid, PInt sync_seq)"
  "payload_key DISPUTE_SCORE (score_payload rid sync_seq s) = (DISPUTE_SCORE, rid, PInt sync_seq)"
  by (simp_all add: payload_key_def commit_payload_def score_payload_def pay_get_def)

lemma own_scores_spec:
  assumes "own_scores it p d = Inr s"
  shows "keys s = keys d"
    and "set_order it \<Longrightarrow> dict_ok d \<Longrightarrow> \<forall>T \<in> snd ` set d. finite T \<Longrightarrow> scores_ok s"
proof -
  have l: "list_all2 (\<lambda>(pos, tokens) (pos', toks). pos' = pos \<and> keys toks = it tokens) d s"
  proof -
    have inner: "keys toks = ts" if "mapM (\<lambda>tok. rbind (col_index p pos) (\<lambda>i. rbind (col_index (p ! i) tok) (\<lambda>j.
             Inr (tok, clamped_log (p ! i ! j))))) ts = Inr toks" for ts toks pos
      using that by (induction ts arbitrary: toks) (auto simp: rbind_eq_Inr)
    have "list_all2 (\<lambda>x y. (case x of (pos, tokens) \<Rightarrow>
       rbind (mapM (\<lambda>tok.
           rbind (col_index p pos) (\<lambda>i. rbind (col_index (p ! i) tok) (\<lambda>j.
             Inr (tok, clamped_log (p ! i ! j))))) (it tokens)) (\<lambda>toks.
         Inr (pos, toks))) = Inr y) d s"
      using assms unfolding own_scores_def mapM_eq_Inr_iff .
    then show ?thesis
      by (rule list_all2_mono) (auto simp: rbind_eq_Inr dest: inner)
  qed
  then show keys: "keys s = keys d"
    by (induction rule: list_all2_induct) auto
  assume it: "set_order it" and d: "dict_ok d" and fin: "\<forall>T \<in> snd ` set d. finite T"
  have "dict_ok toks" if mem: "toks \<in> snd ` set s" for toks
  proof -
    obtain i where i: "i < length s" "toks = snd (s ! i)"
      using mem by (auto simp: in_set_conv_nth)
    then have "i < length d" and "keys toks = it (snd (d ! i))"
      using l i by (auto simp: list_all2_conv_all_nth case_prod_unfold)
    moreover have "finite (snd (d ! i))" using fin \<open>i < length d\<close> by simp
    ultimately show ?thesis using it by (simp add: set_order_def)
  qed
  with keys d show "scores_ok s" by (simp add: scores_ok_def)
qed

subsection \<open>What a complete sync computes\<close>

lemma with_others_eq:
  assumes "\<forall>(n, payload) \<in> set received. parse payload = Inr (V n)"
    and "dict_ok received" and "self_id \<notin> set (keys received)"
  shows "with_others parse self_id (V self_id) received = Inr (map (\<lambda>n. (n, V n)) (self_id # keys received))"
proof -
  have "with_others parse self_id (V self_id) received =
      Inr (fold (\<lambda>(node_id, payload) acc. dset node_id (V node_id) acc) received [(self_id, V self_id)])"
    unfolding with_others_def
    by (subst foldM_pure [where g = "\<lambda>(node_id, payload) acc. dset node_id (V node_id) acc"])
      (use assms(1) in auto)
  also have "fold (\<lambda>(node_id, payload) acc. dset node_id (V node_id) acc) received [(self_id, V self_id)] =
      fold (\<lambda>(k, v) d. dset k v d) (map (\<lambda>n. (n, V n)) (keys received)) [(self_id, V self_id)]"
    by (simp add: fold_map o_def case_prod_unfold)
  also have "\<dots> = [(self_id, V self_id)] @ map (\<lambda>n. (n, V n)) (keys received)"
    using assms(2,3) by (intro dict_of_fold_distinct) (simp add: o_def)
  finally show ?thesis by simp
qed

text \<open>A node has heard from everybody: of each other participant \<open>n\<close> the payload \<open>msg n\<close>.\<close>

definition heard_all ::
  "string set \<Rightarrow> string \<Rightarrow> (string \<Rightarrow> payload) \<Rightarrow> (string, payload) dict \<Rightarrow> bool" where
  "heard_all P self_id msg received \<longleftrightarrow> dict_ok received \<and>
     set received = (\<lambda>n. (n, msg n)) ` (P - {self_id})"

lemma heard_all_with_others:
  assumes "heard_all P k msg received" and "\<forall>n \<in> P. parse (msg n) = Inr (V n)" and "k \<in> P" and "finite P"
  shows "with_others parse k (V k) received = Inr (map (\<lambda>n. (n, V n)) (k # keys received))"
    and "mset (map (\<lambda>n. (n, V n)) (k # keys received)) = image_mset (\<lambda>n. (n, V n)) (mset_set P)"
proof -
  have ks: "set (keys received) = P - {k}" and dist: "distinct (keys received)"
    using assms(1) by (force simp: heard_all_def image_iff)+
  then have "mset (k # keys received) = mset_set P"
    using assms(3,4) by (metis mset_set_set distinct.simps(2) Diff_iff insert_Diff insert_iff list.set(2))
  then show "mset (map (\<lambda>n. (n, V n)) (k # keys received)) = image_mset (\<lambda>n. (n, V n)) (mset_set P)"
    by (metis mset_map)
  show "with_others parse k (V k) received = Inr (map (\<lambda>n. (n, V n)) (k # keys received))"
    using assms(1,2) ks dist by (intro with_others_eq) (auto simp: heard_all_def)
qed

lemma tbind_simps [simp]:
  "tbind None f = None"
  "tbind (Some (Inl e, s)) f = Some (Inl e, s)"
  "tbind (Some (Inr x, s)) f = f x s"
  by (simp_all add: tbind_def)

lemma tbind_Inr:
  "tbind m f = Some (Inr y, s') \<longleftrightarrow> (\<exists>x s. m = Some (Inr x, s) \<and> f x s = Some (Inr y, s'))"
  by (auto simp: tbind_def split: option.splits sum.splits prod.splits)

lemma collect_until_id: "collect_until sn m rid sync ex t = Some (r, sn') \<Longrightarrow> sn_id sn' = sn_id sn"
proof -
  have loop: "sn_id s' = sn_id sn" if "collect_loop key d acc s = Some (r', s')" "sn_id s = sn_id sn"
    for key d acc s r' s'
    using collect_loop_keeps [where P = "\<lambda>s. sn_id s = sn_id sn", OF that] by simp
  show "collect_until sn m rid sync ex t = Some (r, sn') \<Longrightarrow> ?thesis"
    using loop [OF _ read_clock_fields(2)]
    by (auto simp: collect_until_def Let_def case_prod_unfold split: if_splits option.splits sum.splits)
qed

lemma collect_until_clock:
  "collect_until sn m rid sync ex t = Some (r, sn') \<Longrightarrow> w_clock (sn_world sn') = w_clock (sn_world sn)"
proof -
  have loop: "w_clock (sn_world s') = w_clock (sn_world sn)"
    if "collect_loop key d acc s = Some (r', s')" "w_clock (sn_world s) = w_clock (sn_world sn)"
    for key d acc s r' s'
    using collect_loop_keeps [where P = "\<lambda>s. w_clock (sn_world s) = w_clock (sn_world sn)", OF that] by simp
  have start: "w_clock (sn_world (snd (read_clock sn))) = w_clock (sn_world sn)" by simp
  show "collect_until sn m rid sync ex t = Some (r, sn') \<Longrightarrow> ?thesis"
    using loop [OF _ start]
    by (auto simp: collect_until_def Let_def case_prod_unfold simp del: read_clock_fields
        split: if_splits option.splits sum.splits)
qed

lemma exchange_id: "exchange m payload rid sync ex sn = Some (r, sn') \<Longrightarrow> sn_id sn' = sn_id sn"
  by (auto simp: exchange_def publish_msg_def tbind_def case_prod_unfold dest!: collect_until_id
      split: sum.splits)

text \<open>
  \<open>heard_sync\<close>: a node's sync in which every other participant's commit, and if there is a
  dispute its scores, come in. Participant \<open>n\<close> sends \<open>Mc n\<close> and \<open>Ms n\<close>, which say that it commits
  \<open>C n\<close> and reports \<open>S n\<close>.
\<close>

definition heard_sync ::
  "python \<Rightarrow> pyval \<Rightarrow> int \<Rightarrow> string set \<Rightarrow> (string \<Rightarrow> payload) \<Rightarrow> (string \<Rightarrow> payload)
   \<Rightarrow> (string \<Rightarrow> commit) \<Rightarrow> (string \<Rightarrow> position_scores) \<Rightarrow> real list list \<Rightarrow> swarm_node \<Rightarrow> bool" where
  "heard_sync py rid sync_seq P Mc Ms C S my_p sn \<longleftrightarrow> finite P \<and> sn_id sn \<in> P \<and>
     (\<forall>n \<in> P. parse_commit (Mc n) = Inr (C n)) \<and>
     (\<exists>raw sn1. exchange COMMIT (commit_payload rid sync_seq (C (sn_id sn))) rid sync_seq (P - {sn_id sn}) sn =
          Some (Inr raw, sn1) \<and> heard_all P (sn_id sn) Mc raw \<and>
        (let disputes = detect_disputes (map (\<lambda>n. (n, C n)) (sn_id sn # keys raw)) in
         disputes \<noteq> [] \<longrightarrow> (\<forall>n \<in> P. parse_scores (Ms n) = Inr (S n)) \<and>
           own_scores (py_set_iter py) my_p disputes = Inr (S (sn_id sn)) \<and>
           (\<exists>sraw sn2. exchange DISPUTE_SCORE (score_payload rid sync_seq (S (sn_id sn))) rid sync_seq
                (P - {sn_id sn}) sn1 = Some (Inr sraw, sn2) \<and> heard_all P (sn_id sn) Ms sraw)))"

lemma do_sync_result:
  assumes "exchange COMMIT (commit_payload rid sync_seq c) rid sync_seq others sn = Some (Inr raw, sn1)"
    and "with_others parse_commit (sn_id sn1) c raw = Inr all"
    and "do_sync py rid sync_seq others c my_p x gs ge sd sn = Some (Inr (x', f, sd'), sn')"
  obtains w where "(if detect_disputes all = [] then Some (Inr [], sn1)
      else settle_disputes py rid sync_seq others my_p (detect_disputes all) sn1) = Some (Inr w, sn')"
    and "x' = merge_consensus (py_set_iter py) x all w" and "(f, sd') = check sd x' gs ge"
proof -
  have "tbind (if detect_disputes all = [] then Some (Inr [], sn1)
      else settle_disputes py rid sync_seq others my_p (detect_disputes all) sn1) (\<lambda>resolved sn.
        case check sd (merge_consensus (py_set_iter py) x all resolved) gs ge of (nf, sd) \<Rightarrow>
          Some (Inr (merge_consensus (py_set_iter py) x all resolved, nf, sd), sn)) = Some (Inr (x', f, sd'), sn')"
    using assms(3) unfolding do_sync_def assms(1) tbind_simps assms(2) Let_def .
  then show ?thesis using that unfolding tbind_Inr by (auto split: prod.splits)
qed

text \<open>
  Adding up the reports \<open>S\<close> of the participants gives every position and token the same sum, in whatever
  order the participants are taken, unless an exponential overflows (then \<open>resolve_disputes\<close> raises).
\<close>

definition sums_agree :: "(real \<Rightarrow> f64 option) \<Rightarrow> string set \<Rightarrow> (string \<Rightarrow> position_scores) \<Rightarrow> bool" where
  "sums_agree mexp P S \<longleftrightarrow> (\<forall>ns ms. distinct ns \<and> set ns = P \<and> distinct ms \<and> set ms = P \<longrightarrow>
     no_overflow mexp (map (\<lambda>n. (n, S n)) ns) \<longrightarrow>
     score mexp (map (\<lambda>n. (n, S n)) ns) = score mexp (map (\<lambda>n. (n, S n)) ms))"

text \<open>For two participants this always holds: adding two doubles is commutative.\<close>

lemma ballots_once:
  assumes "scores_ok ps"
  shows "length (node_ballots mexp ps p t) \<le> 1"
proof -
  have one: "length (picks mexp cs t) \<le> 1" if "dict_ok cs" for cs
  proof -
    have "length (filter (\<lambda>(t', l). t' = t) cs) \<le> 1"
      using that by (induction cs) (auto simp: filter_empty_conv, force)
    moreover have "picks mexp cs t = map (\<lambda>(t', l). the (mexp l)) (filter (\<lambda>(t', l). t' = t) cs)"
      by (induction cs) (auto simp: picks_def)
    ultimately show ?thesis by simp
  qed
  show ?thesis
    using assms
  proof (induction ps)
    case (Cons x ps)
    obtain q cs where x: "x = (q, cs)" by (cases x)
    show ?case
    proof (cases "q = p")
      case True
      then have "node_ballots mexp ps p t = []" using Cons.prems x by (force simp: node_ballots_def scores_ok_def)
      moreover have "node_ballots mexp (x # ps) p t = picks mexp cs t @ node_ballots mexp ps p t"
        by (simp add: node_ballots_def x True)
      ultimately show ?thesis using one [of cs] Cons.prems x by (simp add: scores_ok_def)
    next
      case False
      then have "node_ballots mexp (x # ps) p t = node_ballots mexp ps p t" by (simp add: node_ballots_def x)
      then show ?thesis using Cons by (simp add: scores_ok_def)
    qed
  qed (simp add: node_ballots_def)
qed

lemma sums_agree_pair:
  assumes "finite P" and "card P \<le> 2" and "exp_ok mexp" and "\<forall>n \<in> P. scores_ok (S n)"
  shows "sums_agree mexp P S"
  unfolding sums_agree_def
proof (intro allI impI)
  fix ns ms assume ord: "distinct ns \<and> set ns = P \<and> distinct ms \<and> set ms = P"
    and ovf: "no_overflow mexp (map (\<lambda>n. (n, S n)) ns)"
  have dbl: "is_double x" if n: "n \<in> P" and x: "x \<in> set (node_ballots mexp (S n) p t)" for n x p t
  proof -
    obtain cs l where cs: "(p, cs) \<in> set (S n)" "(t, l) \<in> set cs" "x = the (mexp l)"
      using x by (auto simp: in_node_ballots)
    have "(n, S n) \<in> set (map (\<lambda>n. (n, S n)) ns)" using ord n by auto
    then have "mexp l \<noteq> None" using ovf cs(1,2) unfolding no_overflow_def by fastforce
    then show ?thesis using assms(3) cs(3) by (auto simp: exp_ok_def)
  qed
  have len: "length ns \<le> 2" "length ms = length ns" using ord assms(2) distinct_card by metis+
  have two: "score mexp (map (\<lambda>n. (n, S n)) [a, b]) = score mexp (map (\<lambda>n. (n, S n)) [b, a])" if "a \<in> P" "b \<in> P" for a b
  proof (intro ext)
    fix p t
    have "length (node_ballots mexp (S n) p t) \<le> 1" if "n \<in> P" for n using ballots_once assms(4) that by blast
    with that show "score mexp (map (\<lambda>n. (n, S n)) [a, b]) p t = score mexp (map (\<lambda>n. (n, S n)) [b, a]) p t"
      using pair_sums [of "node_ballots mexp (S a) p t" "node_ballots mexp (S b) p t"] dbl
      by (simp add: score_def ballots_def) blast
  qed
  show "score mexp (map (\<lambda>n. (n, S n)) ns) = score mexp (map (\<lambda>n. (n, S n)) ms)"
  proof (cases "ns = ms")
    case False
    then obtain a b where "ns = [a, b]" "ms = [b, a]" "a \<in> P" "b \<in> P"
      using len ord by (auto simp: length_Suc_conv le_Suc_eq numeral_2_eq_2 doubleton_eq_iff)
    with two show ?thesis by simp
  qed simp
qed

text \<open>It also holds for any number of participants if no addition has to round: if their probabilities are
  multiples of one power of two, small enough for all of them to add up in 53 bits.\<close>

lemma f64_sum_exact:
  "0 \<le> a \<Longrightarrow> \<forall>m \<in> set ms. 0 \<le> m \<Longrightarrow> a + sum_list ms < 2 ^ 53 \<Longrightarrow>
   foldl (+) (F64 (a * 2 ^ k)) (map (\<lambda>m. F64 (m * 2 ^ k)) ms) = F64 ((a + sum_list ms) * 2 ^ k)"
proof (induction ms arbitrary: a)
  case (Cons m ms)
  have "0 \<le> sum_list ms" using Cons.prems(2) by (intro sum_list_nonneg) simp
  then have "F64 (a * 2 ^ k) + F64 (m * 2 ^ k) = F64 ((a + m) * 2 ^ k)"
    using Cons.prems by (intro f64_add_exact) simp
  then show ?case using Cons.IH [of "a + m"] Cons.prems by (simp add: add.assoc)
qed simp

lemma sums_agree_exact:
  assumes "\<forall>n \<in> P. scores_ok (S n)"
    and "\<forall>n \<in> P. \<forall>(p, cs) \<in> set (S n). \<forall>(t, l) \<in> set cs. \<exists>m. mexp l = Some (F64 (m * 2 ^ k)) \<and> 0 \<le> m \<and> m * int (card P) < 2 ^ 53"
  shows "sums_agree mexp P S"
proof -
  define bal where "bal ns p t = concat (map (\<lambda>n. node_ballots mexp (S n) p t) ns)" for ns p t
  define units where "units ns p t = map (\<lambda>x. f64_units x div 2 ^ k) (bal ns p t)" for ns p t
  have score: "score mexp (map (\<lambda>n. (n, S n)) ns) p t = F64 (sum_list (units ns p t) * 2 ^ k)" if ns: "distinct ns" "set ns = P" for ns p t
  proof -
    have ball: "\<exists>m. x = F64 (m * 2 ^ k) \<and> 0 \<le> m \<and> m * int (card P) < 2 ^ 53" if "x \<in> set (bal ns p t)" for x
      using that assms(2) ns(2) by (fastforce simp: bal_def in_node_ballots)
    then have conv: "bal ns p t = map (\<lambda>m. F64 (m * 2 ^ k)) (units ns p t)"
      unfolding units_def map_map o_def by (intro map_idI [symmetric]) fastforce
    have small: "\<forall>m \<in> set (units ns p t). 0 \<le> m \<and> m * int (card P) < 2 ^ 53"
      unfolding units_def using ball by fastforce
    have "length (units ns p t) \<le> length ns"
    proof -
      have "length (bal ms p t) \<le> length ms" if "set ms \<subseteq> P" for ms
        using that
      proof (induction ms)
        case (Cons n ms)
        then show ?case using ballots_once [of "S n" mexp p t] assms(1) by (simp add: bal_def)
      qed (simp add: bal_def)
      then show ?thesis using ns(2) by (simp add: units_def)
    qed
    then have len: "int (length (units ns p t)) \<le> int (card P)" using distinct_card [OF ns(1)] ns(2) by simp
    have "sum_list (units ns p t) < 2 ^ 53"
    proof (cases "units ns p t = []")
      case False
      have "sum_list xs * c < int (length xs) * 2 ^ 53" if "xs \<noteq> []" "\<forall>m \<in> set xs. m * c < 2 ^ 53" for xs and c :: int
        using that by (induction xs rule: list_nonempty_induct) (auto simp: distrib_right)
      from this [OF False, of "int (card P)"] small
      have "sum_list (units ns p t) * int (card P) < int (length (units ns p t)) * 2 ^ 53" by blast
      also have "\<dots> \<le> 2 ^ 53 * int (card P)" using len by simp
      finally show ?thesis by (rule mult_right_less_imp_less) simp
    qed simp
    with f64_sum_exact [of 0 "units ns p t" k] small have "foldl (+) 0 (bal ns p t) = F64 (sum_list (units ns p t) * 2 ^ k)"
      unfolding conv zero_f64_def by simp
    then show ?thesis by (simp add: score_def ballots_def bal_def o_def)
  qed
  have same: "sum_list (units ns p t) = sum_list (units ms p t)" if "distinct ns" "distinct ms" "set ns = set ms" for ns ms p t
  proof -
    have "mset ns = mset ms" using that set_eq_iff_mset_eq_distinct by blast
    then have "mset (units ns p t) = mset (units ms p t)"
      by (simp add: units_def bal_def mset_concat flip: sum_mset_sum_list)
    then show ?thesis by (metis sum_mset_sum_list)
  qed
  show ?thesis
    unfolding sums_agree_def
  proof (intro allI impI ext)
    fix ns ms p t
    assume ord: "distinct ns \<and> set ns = P \<and> distinct ms \<and> set ms = P"
    then have "sum_list (units ns p t) = sum_list (units ms p t)" by (intro same) simp_all
    with ord show "score mexp (map (\<lambda>n. (n, S n)) ns) p t = score mexp (map (\<lambda>n. (n, S n)) ms) p t" by (simp only: score)
  qed
qed

lemma mapM_Inr_set: "mapM f xs = Inr ys \<Longrightarrow> y \<in> set ys \<longleftrightarrow> (\<exists>x \<in> set xs. f x = Inr y)"
  by (induction xs arbitrary: ys) (auto simp: rbind_eq_Inr)

lemma parse_scores_ok:
  assumes "parse_scores payload = Inr s"
  shows "scores_ok s"
proof -
  obtain items kvs where kvs: "mapM (\<lambda>(pos, toks).
         rbind (int_str pos) (\<lambda>pos.
         rbind (dict_items toks) (\<lambda>toks.
         rbind (mapM (\<lambda>(tok, s). rbind (int_str tok) (\<lambda>tok. rbind (as_float s) (\<lambda>s. Inr (tok, s)))) toks) (\<lambda>kvs.
         Inr (pos, dict_of kvs))))) items = Inr kvs" and s: "s = dict_of kvs"
    using assms unfolding parse_scores_def rbind_eq_Inr by auto
  have "dict_ok (snd kv)" if "kv \<in> set kvs" for kv
    using that unfolding mapM_Inr_set [OF kvs] by (auto simp: rbind_eq_Inr)
  moreover have "kv \<in> set kvs" if "kv \<in> set (dict_of kvs)" for kv
  proof -
    have "map_of (dict_of kvs) (fst kv) = Some (snd kv)" using that by (simp add: lookup_in_set)
    then show ?thesis by (auto simp: lookup_dict_of dest: map_of_SomeD)
  qed
  ultimately show ?thesis unfolding s scores_ok_def by auto
qed

lemma heard_all_names:
  assumes "heard_all P k msg received" and "k \<in> P"
  shows "distinct (k # keys received)" and "set (k # keys received) = P"
  using assms by (force simp: heard_all_def image_iff)+

lemma heard_sync_result:
  assumes "heard_sync py rid sync_seq P Mc Ms C S my_p sn"
    and "do_sync py rid sync_seq (P - {sn_id sn}) (C (sn_id sn)) my_p x gs ge sd sn = Some (Inr (x', f, sd'), sn')"
  shows "\<exists>commits names w. mset commits = image_mset (\<lambda>n. (n, C n)) (mset_set P) \<and>
    distinct names \<and> set names = (if detect_disputes commits = [] then {} else P) \<and>
    (detect_disputes commits \<noteq> [] \<longrightarrow> (\<forall>n \<in> P. parse_scores (Ms n) = Inr (S n)) \<and>
       set (keys (S (sn_id sn))) = set (keys (detect_disputes commits))) \<and>
    resolve_disputes (py_exp py) (map (\<lambda>n. (n, S n)) names) = Inr w \<and>
    x' = merge_consensus (py_set_iter py) x commits w \<and> (f, sd') = check sd x' gs ge"
proof -
  let ?k = "sn_id sn"
  have fin: "finite P" and k: "?k \<in> P" and parse: "\<forall>n \<in> P. parse_commit (Mc n) = Inr (C n)"
    using assms(1) by (simp_all add: heard_sync_def)
  obtain raw sn1 where ex1: "exchange COMMIT (commit_payload rid sync_seq (C ?k)) rid sync_seq (P - {?k}) sn =
      Some (Inr raw, sn1)"
    and heard: "heard_all P ?k Mc raw"
    and phase2: "let disputes = detect_disputes (map (\<lambda>n. (n, C n)) (?k # keys raw)) in
         disputes \<noteq> [] \<longrightarrow> (\<forall>n \<in> P. parse_scores (Ms n) = Inr (S n)) \<and> own_scores (py_set_iter py) my_p disputes = Inr (S ?k) \<and>
           (\<exists>sraw sn2. exchange DISPUTE_SCORE (score_payload rid sync_seq (S ?k)) rid sync_seq
                (P - {?k}) sn1 = Some (Inr sraw, sn2) \<and> heard_all P ?k Ms sraw)"
    using assms(1) unfolding heard_sync_def by blast
  let ?all = "map (\<lambda>n. (n, C n)) (?k # keys raw)"
  note all = heard_all_with_others [OF heard parse k fin]
  have id1: "sn_id sn1 = ?k" using exchange_id [OF ex1] .
  obtain w where res: "(if detect_disputes ?all = [] then Some (Inr [], sn1)
        else settle_disputes py rid sync_seq (P - {?k}) my_p (detect_disputes ?all) sn1) = Some (Inr w, sn')"
    and fin_step: "x' = merge_consensus (py_set_iter py) x ?all w" "(f, sd') = check sd x' gs ge"
    using do_sync_result [OF ex1 _ assms(2)] all(1) unfolding id1 by blast
  show ?thesis
  proof (cases "detect_disputes ?all = []")
    case True
    then have "w = []" using res by simp
    moreover have "resolve_disputes (py_exp py) [] = Inr []"
      by (simp add: resolve_disputes_def tally_def)
    ultimately show ?thesis
      using True all(2) fin_step by (intro exI [of _ ?all] exI [of _ "[]"] exI [of _ "[]"]) simp
  next
    case False
    with phase2 obtain sraw sn2 where parse2: "\<forall>n \<in> P. parse_scores (Ms n) = Inr (S n)"
      and own: "own_scores (py_set_iter py) my_p (detect_disputes ?all) = Inr (S ?k)"
      and ex2: "exchange DISPUTE_SCORE (score_payload rid sync_seq (S ?k)) rid sync_seq (P - {?k}) sn1 =
          Some (Inr sraw, sn2)"
      and heard2: "heard_all P ?k Ms sraw"
      unfolding Let_def by blast
    note all2 = heard_all_with_others [OF heard2 parse2 k fin]
    have "sn_id sn2 = ?k" using exchange_id [OF ex2] id1 by simp
    then have "resolve_disputes (py_exp py) (map (\<lambda>n. (n, S n)) (?k # keys sraw)) = Inr w"
      using res False own ex2 all2(1) by (simp add: settle_disputes_def)
    moreover have "set (keys (S ?k)) = set (keys (detect_disputes ?all))"
      using own_scores_spec(1) [OF own] by metis
    ultimately show ?thesis
      using False all(2) heard_all_names [OF heard2 k] parse2 fin_step
      by (intro exI [of _ ?all] exI [of _ "?k # keys sraw"] exI [of _ w]) simp
  qed
qed

text \<open>Participants converge. If two participants of a round go into a sync with the same shared
  state and the same stop detector, and each receives every other participant's commit and,
  if there is a dispute, scores in time, in whatever order, then they come out with the same
  shared state, the same frozen boundary and the same detector, as long as the sums of the reports
  do not depend on the order they are added in (\<open>sums_agree\<close>): then the local models, noise and
  message order leave no trace. Without this they may split (\<open>summation_order_splits\<close>).\<close>

lemma heard_syncs_agree:
  assumes "heard_sync py_a rid sync_seq P Mc Ms C S p_a na" and "heard_sync py_b rid sync_seq P Mc Ms C S p_b nb"
    and "do_sync py_a rid sync_seq (P - {sn_id na}) (C (sn_id na)) p_a x_a gs ge sd na =
           Some (Inr (x_a', f_a, sd_a), na')"
    and "do_sync py_b rid sync_seq (P - {sn_id nb}) (C (sn_id nb)) p_b x_b gs ge sd nb =
           Some (Inr (x_b', f_b, sd_b), nb')"
    and "set_order (py_set_iter py_a)" and "set_order (py_set_iter py_b)" and "map_of x_a = map_of x_b"
    and exps: "py_exp py_a = mexp" "py_exp py_b = mexp"
    and sums: "\<forall>n \<in> P. parse_scores (Ms n) = Inr (S n) \<Longrightarrow> sums_agree mexp P S"
  shows "map_of x_a' = map_of x_b' \<and> f_a = f_b \<and> sd_a = sd_b"
proof -
  let ?sc = "map (\<lambda>n. (n, S n))"
  obtain ca na wa where a: "mset ca = image_mset (\<lambda>n. (n, C n)) (mset_set P)"
    "distinct na" "set na = (if detect_disputes ca = [] then {} else P)"
    "detect_disputes ca \<noteq> [] \<Longrightarrow> (\<forall>n \<in> P. parse_scores (Ms n) = Inr (S n)) \<and>
       (\<exists>k \<in> P. set (keys (S k)) = set (keys (detect_disputes ca)))"
    "resolve_disputes mexp (?sc na) = Inr wa" "x_a' = merge_consensus (py_set_iter py_a) x_a ca wa"
    "(f_a, sd_a) = check sd x_a' gs ge"
    using heard_sync_result [OF assms(1,3)] assms(1) unfolding exps heard_sync_def by blast
  obtain cb nb wb where b: "mset cb = image_mset (\<lambda>n. (n, C n)) (mset_set P)"
    "distinct nb" "set nb = (if detect_disputes cb = [] then {} else P)"
    "resolve_disputes mexp (?sc nb) = Inr wb" "x_b' = merge_consensus (py_set_iter py_b) x_b cb wb"
    "(f_b, sd_b) = check sd x_b' gs ge"
    using heard_sync_result [OF assms(2,4)] unfolding exps by blast
  have "map_of (detect_disputes ca) = map_of (detect_disputes cb)"
    using a(1) b(1) by (auto simp: lookup_disputes fun_eq_iff proposed_cong_mset [of ca cb])
  then have calm: "detect_disputes ca = [] \<longleftrightarrow> detect_disputes cb = []"
    by (metis map_of_eq_empty_iff)
  then have names: "mset na = mset nb" using a(2,3) b(2,3) by (simp flip: set_eq_iff_mset_eq_distinct)
  have same_sums: "score mexp (?sc na) = score mexp (?sc nb)"
  proof (cases "detect_disputes ca = []")
    case False
    then have "sums_agree mexp P S" using a(4) by (intro sums) blast
    then show ?thesis
      unfolding sums_agree_def using a(2,3) b(2,3) False calm resolve_InrD(1) [OF a(5)] by (metis (no_types))
  qed (use a(3) b(3) calm in simp)
  have touched: "\<forall>p. map_of (detect_disputes ca) p \<noteq> None \<longrightarrow> p \<in> touched (?sc na)"
  proof (intro allI impI)
    fix p assume p: "map_of (detect_disputes ca) p \<noteq> None"
    then have ne: "detect_disputes ca \<noteq> []" by auto
    from p have "p \<in> set (keys (detect_disputes ca))" by (simp add: map_of_eq_None_iff)
    moreover obtain k where k: "k \<in> P" "set (keys (S k)) = set (keys (detect_disputes ca))"
      using a(4) [OF ne] by blast
    ultimately have "p \<in> fst ` set (S k)" by simp
    moreover from k have "(k, S k) \<in> set (?sc na)" using ne a(3) by simp
    ultimately show "p \<in> touched (?sc na)" unfolding touched_def by auto
  qed
  have same: "map_of x_a' = map_of x_b'"
    unfolding a(6) b(5) using a(1) b(1) names
    by (intro sync_agreement [OF assms(5,6,7) _ _ same_sums a(5) b(4) touched]) simp_all
  then have "check sd x_a' gs ge = check sd x_b' gs ge" by (rule check_cong)
  with a(7) b(6) same show ?thesis by (metis prod.inject)
qed

subsection \<open>A round always ends\<close>

text \<open>
  \<open>good sn0 s\<close>: \<open>s\<close> is a sound node that came from \<open>sn0\<close> by calls of its own methods, in a
  world whose clock runs on. \<open>ends_good\<close>: a computation returns, in such a state, whether with
  a value or an exception.
\<close>

definition good :: "swarm_node \<Rightarrow> swarm_node \<Rightarrow> bool" where
  "good sn0 s \<longleftrightarrow> clock_advances (sn_world s) \<and> swarm_ok s \<and> swarm_before sn0 s"

definition ends_good :: "swarm_node \<Rightarrow> ('a \<times> swarm_node) option \<Rightarrow> bool" where
  "ends_good sn0 m \<longleftrightarrow> (\<exists>r s. m = Some (r, s) \<and> good sn0 s)"

lemma ends_good_Some [intro]: "good sn0 s \<Longrightarrow> ends_good sn0 (Some (r, s))"
  by (simp add: ends_good_def)

lemma ends_good_bind:
  assumes "ends_good sn0 m" and "\<And>x s. good sn0 s \<Longrightarrow> ends_good sn0 (f x s)"
  shows "ends_good sn0 (tbind m f)"
proof -
  obtain r s where "m = Some (r, s)" "good sn0 s" using assms(1) by (auto simp: ends_good_def)
  with assms(2) show ?thesis by (cases r) (auto simp: ends_good_def)
qed

lemma good_step:
  "good sn0 s \<Longrightarrow> swarm_ok t \<and> swarm_before s t \<Longrightarrow> w_clock (sn_world t) = w_clock (sn_world s) \<Longrightarrow> good sn0 t"
  using swarm_before_trans by (auto simp: good_def clock_advances_def)

lemma ends_publish: "good sn0 s \<Longrightarrow> ends_good sn0 (Some (publish_msg s m p))"
proof -
  assume g: "good sn0 s"
  have "w_clock (sn_world (snd (publish_msg s m p))) = w_clock (sn_world s)"
    using publish_fields(2) [of "sn_world s" "sn_id s" m p]
    by (simp add: publish_msg_def case_prod_unfold del: publish_fields)
  with good_step [OF g swarm_publish] g have "good sn0 (snd (publish_msg s m p))" by (simp add: good_def)
  then show ?thesis by (metis ends_good_Some surjective_pairing)
qed

lemma ends_pump: "good sn0 s \<Longrightarrow> ends_good sn0 (Some (pump_once s t))"
  using good_step [OF _ swarm_pump] by (metis ends_good_Some good_def pump_once_fields(4) surjective_pairing)

lemma ends_collect: "good sn0 s \<Longrightarrow> ends_good sn0 (collect_until s m rid sync ex t)"
proof -
  assume g: "good sn0 s"
  then obtain r s' where run: "collect_until s m rid sync ex t = Some (r, s')"
    using collect_until_returns by (auto simp: good_def) blast
  have "w_clock (sn_world s') = w_clock (sn_world s)" by (rule collect_until_clock [OF run])
  with good_step [OF g swarm_collect [OF _ run]] g have "good sn0 s'" by (simp add: good_def)
  with run show ?thesis by (auto simp: ends_good_def)
qed

lemma ends_exchange: "good sn0 s \<Longrightarrow> ends_good sn0 (exchange m payload rid sync ex s)"
  unfolding exchange_def by (intro ends_good_bind ends_publish ends_collect)

lemma ends_settle: "good sn0 s \<Longrightarrow> ends_good sn0 (settle_disputes py rid sync ex p ds s)"
  unfolding settle_disputes_def by (intro ends_good_bind ends_good_Some ends_exchange)

lemma ends_do_sync: "good sn0 s \<Longrightarrow> ends_good sn0 (do_sync py rid sync ex c p x gs ge sd s)"
  unfolding do_sync_def Let_def
  by (intro ends_good_bind ends_exchange ends_good_Some)
    (auto intro!: ends_good_Some ends_good_bind ends_settle split: prod.splits if_splits)

lemma ends_gen_step:
  assumes "good sn0 s"
  shows "ends_good sn0 (gen_step ru cfg rid ex gs ge bs be spb i lv s)"
  unfolding gen_step_def
proof (rule ends_good_bind [OF ends_pump [OF assms]], goal_cases)
  case (1 x s)
  obtain now s1 where t: "read_clock s = (now, s1)" by (cases "read_clock s")
  obtain failed rm where c: "check_leader_timeout (sn_round s1) None now = (failed, rm)"
    by (cases "check_leader_timeout (sn_round s1) None now")
  let ?s2 = "s1\<lparr>sn_round := rm\<rparr>"
  have "swarm_step s CheckLeader = ?s2" by (simp add: t c)
  moreover have "w_clock (sn_world s1) = w_clock (sn_world s)"
    using read_clock_fields(7) [of s] by (simp add: t)
  ultimately have g2: "good sn0 ?s2" using good_step [OF 1 swarm_check] 1 by (simp add: good_def)
  show ?case
    unfolding t c prod.case Let_def
    by (auto intro!: ends_good_bind ends_good_Some ends_do_sync g2 split: prod.splits)
qed

lemma ends_steps_loop:
  assumes "\<And>i lv s. good sn0 s \<Longrightarrow> ends_good sn0 (step i lv s)" and "good sn0 s"
  shows "ends_good sn0 (steps_loop step is lv s)"
  using assms(2)
proof (induction "is" arbitrary: lv s)
  case (Cons i "is")
  show ?case
    unfolding steps_loop.simps
    by (rule ends_good_bind [OF assms(1) [OF Cons.prems]])
      (auto intro: ends_good_Some Cons.IH split: option.splits)
qed (auto intro: ends_good_Some)

lemma ends_blocks_loop:
  assumes "good sn0 s"
  shows "ends_good sn0 (blocks_loop ru cfg rid ex gs ge spb bs lv s)"
  using assms
proof (induction bs arbitrary: lv s)
  case (Cons b bs)
  have "ends_good sn0 (tbind (steps_loop (gen_step ru cfg rid ex gs ge start stop spb) [0..<spb] lv1 s)
      (\<lambda>r sn. case r of None \<Rightarrow> Some (Inr None, sn)
          | Some lv \<Rightarrow> blocks_loop ru cfg rid ex gs ge spb bs lv sn))" for start stop lv1
    by (rule ends_good_bind [OF ends_steps_loop [OF ends_gen_step Cons.prems]])
      (auto intro: ends_good_Some Cons.IH split: option.splits)
  then show ?case using Cons.prems by (auto simp: Let_def intro: ends_good_Some)
qed (auto intro: ends_good_Some)

subsection \<open>Properties\<close>

text \<open>C34: what a node sends in a sync, the others read as it was meant. Decoding a \<open>COMMIT\<close> payload
  gives back the positions with their tokens and confidences, decoding a \<open>DISPUTE_SCORE\<close>
  payload gives back the scores although positions and tokens travel as strings, and both are
  filed under the round and the sync they belong to.\<close>

theorem sync_messages_roundtrip:
  assumes "dict_ok my_commits" and "scores_ok my_scores"
  shows "parse_commit (commit_payload rid sync_seq my_commits) = Inr my_commits \<and>
    parse_scores (score_payload rid sync_seq my_scores) = Inr my_scores \<and>
    payload_key COMMIT (commit_payload rid sync_seq my_commits) = (COMMIT, rid, PInt sync_seq) \<and>
    payload_key DISPUTE_SCORE (score_payload rid sync_seq my_scores) = (DISPUTE_SCORE, rid, PInt sync_seq)"
  by (simp add: parse_commit_own [OF assms(1)] parse_scores_own [OF assms(2)] payload_keys)

theorem sync_messages_roundtrip_witness:
  "parse_scores (score_payload (PStr ''r'') 3 [(105, [(500, -1), (-7, -2)]), (9, [])]) =
     Inr [(105, [(500, -1), (-7, -2)]), (9, [])]"
proof -
  have "dict_ok [(1::int, (2::int, 1 / 2 :: real))]" by simp
  moreover have "scores_ok [(105, [(500, -1), (-7, -2)]), (9, [])]" by (simp add: scores_ok_def)
  ultimately show ?thesis using sync_messages_roundtrip by blast
qed

text \<open>A codec that packs everything and reads nothing.\<close>

definition open_codec :: codec where
  "open_codec = \<lparr>packb = (\<lambda>_. Inr ''body''), unpackb = (\<lambda>_. Inl ValueError)\<rparr>"

lemma open_publish:
  "w_codec (sn_world sn) = open_codec \<Longrightarrow> publish_msg sn m p = (Inr (), sn\<lparr>sn_world := (sn_world sn)
     \<lparr>w_clock_i := Suc (w_clock_i (sn_world sn)), w_sent := w_sent (sn_world sn) @ [(sn_id sn, ''body'')]\<rparr>\<rparr>)"
  by (simp add: publish_msg_def publish_def time_time_def encode_def open_codec_def Let_def)

text \<open>C13: a round always ends. If the clock runs on, \<open>run_round\<close> returns, with the generated tokens, with
  the early \<open>None\<close> or with an exception, whatever the model computes, whatever the other
  participants send or do not send; and it leaves the node sound: nothing it sent is undone,
  and every round it has seen keeps its identity.\<close>

theorem round_always_ends:
  assumes "clock_advances (sn_world sn)" and "swarm_ok sn"
  shows "\<exists>r sn'. run_round ru prompt_ids cfg sn = Some (r, sn') \<and> swarm_ok sn' \<and> swarm_before sn sn'"
proof -
  have g: "good sn sn" using assms by (simp add: good_def swarm_before_refl)
  have "ends_good sn (run_round ru prompt_ids cfg sn)"
    unfolding run_round_def Let_def
    by (auto intro!: g ends_good_Some ends_good_bind ends_blocks_loop ends_publish split: option.splits)
  then show ?thesis by (auto simp: ends_good_def good_def)
qed

definition example_gen_config :: gen_config where
  "example_gen_config =
     \<lparr>gc_gen_length = 2, gc_block_length = 2, gc_steps = 2, gc_sync_every = 1,
      gc_step_cfg = example_step_cfg, gc_stop_cfg = example_cfg\<rparr>"

definition example_runner :: runner where
  "example_runner =
     \<lparr>ru_torch = plain_torch, ru_model = example_model, ru_noise = (\<lambda>_. []), ru_python = plain_python\<rparr>"

theorem round_always_ends_witness:
  "\<exists>r sn'. run_round example_runner [2] example_gen_config
     ((quiet_node ''node-b'' open_codec)\<lparr>sn_round := set_new_round example_round (RoundManager ''node-b'')\<rparr>) = Some (r, sn')"
proof -
  let ?sn = "(quiet_node ''node-b'' open_codec)\<lparr>sn_round := set_new_round example_round (RoundManager ''node-b'')\<rparr>"
  have "swarm_ok ?sn"
    using quiet_node_ok [of "''node-b''" open_codec] example_round_ok
    by (simp add: swarm_ok_def) (simp add: set_new_round_def)
  moreover have "clock_advances (sn_world ?sn)" using clock_advances_quiet by simp
  ultimately show ?thesis using round_always_ends by blast
qed

text \<open>C30: a silent leader aborts the generation. Every step polls once, and may read a message of anyone;
  whatever the poll brought, if the follower, with that message taken in, has not seen its round's
  leader for longer than \<open>ROUND_LEADER_TIMEOUT\<close> by the next reading of the clock, it gives up
  before consulting the model: the round is failed and dropped, and no message goes out.\<close>

theorem silent_leader_aborts:
  assumes "pump_once sn 10 = (Inr message, sn1)" and "swarm_ok sn"
    and "active_round (sn_round sn1) = Some rs" and "leader_id rs \<noteq> sn_id sn"
    and "w_clock (sn_world sn1) (w_clock_i (sn_world sn1)) - last_leader_seen rs > ROUND_LEADER_TIMEOUT"
  shows "\<exists>sn'. gen_step ru cfg rid others gs ge bs be spb i lv sn = Some (Inr None, sn') \<and>
    active_round (sn_round sn') = None \<and> last (rm_heap (sn_round sn')) = rs\<lparr>status := Failed\<rparr> \<and>
    w_sent (sn_world sn') = w_sent (sn_world sn) \<and> sn_inbox sn' = sn_inbox sn1"
proof -
  have sn1: "sn1 = snd (pump_once sn 10)" by (simp add: assms(1))
  have "swarm_ok sn1" using swarm_pump [OF assms(2)] unfolding sn1 by blast
  then have rm: "rm_ok (sn_round sn1)" and self: "rm_self_id (sn_round sn1) = sn_id sn"
    by (simp_all add: swarm_ok_def) (simp add: sn1)
  obtain a where a: "rm_active (sn_round sn1) = Some a" "rm_heap (sn_round sn1) ! a = rs"
    using active_round_SomeD [OF assms(3)] by blast
  with rm have len: "length (rm_heap (sn_round sn1)) = Suc a" by (simp add: rm_ok_def)
  then have last: "last ((rm_heap (sn_round sn1))[a := r]) = r" for r
    using last_list_update [of "rm_heap (sn_round sn1)" a r] by (cases "rm_heap (sn_round sn1)") auto
  let ?now = "w_clock (sn_world sn1) (w_clock_i (sn_world sn1))"
  let ?rm = "(sn_round sn1)\<lparr>rm_active := None, rm_heap := (rm_heap (sn_round sn1))[a := rs\<lparr>status := Failed\<rparr>]\<rparr>"
  have chk: "check_leader_timeout (sn_round sn1) None ?now = (True, ?rm)"
    using assms(3,4,5) a rm_ok_active [OF rm assms(3)] self
    by (simp add: check_leader_timeout_def mutate_active_def)
  let ?sn' = "(snd (read_clock sn1))\<lparr>sn_round := ?rm\<rparr>"
  have "gen_step ru cfg rid others gs ge bs be spb i lv sn = Some (Inr None, ?sn')"
    using chk by (simp add: gen_step_def assms(1) case_prod_unfold Let_def)
  moreover have "w_sent (sn_world sn1) = w_sent (sn_world sn)" by (simp add: sn1)
  ultimately show ?thesis
    by (intro exI [of _ ?sn']) (simp add: active_round_def last)
qed

text \<open>A follower of \<open>node-a\<close> that still hears \<open>node-c\<close>.\<close>

definition third_codec :: codec where
  "third_codec = table_codec [(''body'', \<lparr>e_type = HEARTBEAT, e_node_id = ''node-c'', e_ts = 7, e_payload = []\<rparr>)]"

theorem silent_leader_aborts_witness:
  "let rm = set_new_round (example_round\<lparr>last_leader_seen := -10\<rparr>) (RoundManager ''node-b'');
       sn = (quiet_node ''node-b'' third_codec)\<lparr>sn_round := rm,
         sn_world := (sn_world (quiet_node ''node-b'' third_codec))\<lparr>w_polls := (\<lambda>_ _. Some (''node-c'', ''body''))\<rparr>\<rparr>;
       lv = \<lparr>lv_x = [2, 1, 1], lv_age = [0, 0, 0], lv_shared = [(0, 2)], lv_sd = StopDetector example_cfg,
             lv_frozen = None, lv_seq = 0, lv_pending = [], lv_steps_done = 0\<rparr>
   in \<exists>sn' env. fst (pump_once sn 10) = Inr (Some env) \<and> e_node_id env = ''node-c'' \<and>
        gen_step example_runner example_gen_config PNone {} 1 3 1 3 2 0 lv sn = Some (Inr None, sn')"
proof -
  let ?rs = "example_round\<lparr>last_leader_seen := -10\<rparr>"
  let ?sn = "(quiet_node ''node-b'' third_codec)\<lparr>sn_round := set_new_round ?rs (RoundManager ''node-b''),
    sn_world := (sn_world (quiet_node ''node-b'' third_codec))\<lparr>w_polls := (\<lambda>_ _. Some (''node-c'', ''body''))\<rparr>\<rparr>"
  let ?env = "\<lparr>e_type = HEARTBEAT, e_node_id = ''node-c'', e_ts = 7, e_payload = []\<rparr>"
  have ok: "swarm_ok ?sn"
    using quiet_node_ok [of "''node-b''" third_codec] rm_ok_new [of ?rs]
    by (simp add: swarm_ok_def) (simp add: set_new_round_def)
  obtain sn1 where pump: "pump_once ?sn 10 = (Inr (Some ?env), sn1)"
    and round: "active_round (sn_round sn1) = Some ?rs" and late: "w_clock_i (sn_world sn1) = 1" "w_clock (sn_world sn1) = real"
    by (simp add: pump_once_def poll_recv_def decode_def third_codec_def table_codec_def dispatch_def read_clock_def time_time_def
        note_sender_def note_leader_activity_def set_new_round_def active_round_def RoundManager_def pbind_def Let_def quiet_node_def)
  have "\<exists>sn'. gen_step ru cfg rid others gs ge bs be spb i lv ?sn = Some (Inr None, sn')"
    for ru cfg rid others gs ge bs be spb i lv
    using silent_leader_aborts [OF pump ok round] late by (fastforce simp: ROUND_LEADER_TIMEOUT_def)
  then show ?thesis by (simp add: Let_def pump)
qed

end
