(* ===== verification/Completeness.thy ===== *)
theory Completeness imports Generation begin

section \<open>A finished round leaves no gap\<close>

text \<open>
  What \<open>run_round\<close> of \<open>node/generation.py\<close> returns when it returns a text: every position of the
  generated blocks before the stop boundary has a token in the shared state, whatever the other
  participants sent or left unsent. The loops keep \<open>settled\<close> (a position that is no mask any more is in
  the shared state or in the commits the next sync sends); the last step of a block commits every
  mask before the boundary, even in a step that overflows into other positions
  (\<open>Local_Step.frozen_block_overflows\<close>), and its sync adds the node's own commits to the shared
  state, whoever else is heard.
\<close>

subsection \<open>What a sync and a step add\<close>

lemma keys_note_transfers:
  "fst ` set (note_transfers r pending) =
     fst ` set pending \<union> int ` {i. i < length (sr_transfer r) \<and> sr_transfer r ! i}"
proof -
  have "fst ` set (fold (\<lambda>pos pending. dset (int pos) (v pos) pending) is pending) =
      fst ` set pending \<union> int ` set is" for v :: "nat \<Rightarrow> int \<times> real" and "is" pending
    by (induction "is" arbitrary: pending) auto
  then show ?thesis by (auto simp: note_transfers_def)
qed

lemma with_others_own:
  assumes "with_others parse k own received = Inr all" and "k \<notin> set (keys received)"
  shows "map_of all k = Some own"
proof -
  have "map_of all k = Some own"
    if "foldM (\<lambda>(node_id, payload) acc. rbind (parse payload) (\<lambda>v. Inr (dset node_id v acc))) rec acc = Inr all"
      "map_of acc k = Some own" "k \<notin> set (keys rec)" for rec acc
    using that by (induction rec arbitrary: acc) (auto simp: rbind_eq_Inr)
  then show ?thesis using assms by (simp add: with_others_def)
qed


lemma do_sync_merges:
  assumes "do_sync py rid sync_seq others my_commits my_p x gs ge sd sn = Some (Inr (x', f, sd'), sn')"
    and "sn_id sn \<notin> others"
  shows "fst ` set my_commits \<union> dom (map_of x) \<subseteq> dom (map_of x')" and "f = stop_pos sd'"
    and "sd' = check_step sd (x', gs, ge)" and "sn_id sn' = sn_id sn"
proof -
  obtain raw sn1 where ex: "exchange COMMIT (commit_payload rid sync_seq my_commits) rid sync_seq others sn = Some (Inr raw, sn1)"
    and rest: "tbind (Some (with_others parse_commit (sn_id sn1) my_commits raw, sn1)) (\<lambda>all_commits sn.
     let disputes = detect_disputes all_commits in
     tbind (if disputes = [] then Some (Inr [], sn)
            else settle_disputes py rid sync_seq others my_p disputes sn) (\<lambda>resolved sn.
     let shared_x = merge_consensus (py_set_iter py) x all_commits resolved;
         (new_frozen_from, sd) = check sd shared_x gs ge
     in Some (Inr (shared_x, new_frozen_from, sd), sn))) = Some (Inr (x', f, sd'), sn')"
    using assms(1) unfolding do_sync_def tbind_Inr by blast
  have id1: "sn_id sn1 = sn_id sn" by (rule exchange_id [OF ex])
  obtain all where all: "with_others parse_commit (sn_id sn) my_commits raw = Inr all"
    and rest2: "tbind (if detect_disputes all = [] then Some (Inr [], sn1)
            else settle_disputes py rid sync_seq others my_p (detect_disputes all) sn1) (\<lambda>resolved sn.
     let shared_x = merge_consensus (py_set_iter py) x all resolved;
         (new_frozen_from, sd) = check sd shared_x gs ge
     in Some (Inr (shared_x, new_frozen_from, sd), sn)) = Some (Inr (x', f, sd'), sn')"
    using rest unfolding tbind_Inr Let_def id1 by auto
  then obtain w where res: "(if detect_disputes all = [] then Some (Inr [], sn1)
            else settle_disputes py rid sync_seq others my_p (detect_disputes all) sn1) = Some (Inr w, sn')"
    and x': "x' = merge_consensus (py_set_iter py) x all w" and chk: "(f, sd') = check sd x' gs ge"
    unfolding tbind_Inr Let_def by (auto split: prod.splits)
  have "set (keys raw) \<subseteq> others"
    using ex unfolding exchange_def tbind_Inr by (blast dest: collect_until_expected)
  with with_others_own [OF all] assms(2) have "map_of all (sn_id sn) = Some my_commits" by blast
  then have "(sn_id sn, my_commits) \<in> set all" by (rule map_of_SomeD)
  then have own: "proposed all p \<noteq> {}" if "p \<in> fst ` set my_commits" for p
    using that by (fastforce simp: proposed_def)
  have "p \<in> dom (map_of x')" if "p \<in> fst ` set my_commits \<union> dom (map_of x)" for p
    using that own [of p] by (cases "proposed all p = {}") (simp_all add: domIff x' merge_lookup, blast)
  then show "fst ` set my_commits \<union> dom (map_of x) \<subseteq> dom (map_of x')" by blast
  show "f = stop_pos sd'" "sd' = check_step sd (x', gs, ge)"
    using chk by (simp_all add: check_eq check_step_eq Let_def)
  have "sn_id sn' = sn_id sn1"
    using res exchange_id by (auto simp: settle_disputes_def tbind_Inr tbind_def split: if_splits option.splits sum.splits)
  with id1 show "sn_id sn' = sn_id sn" by simp
qed

lemma adopt_shared_spec:
  shows "lv_shared (adopt_shared bs be lv) = lv_shared lv" and "lv_sd (adopt_shared bs be lv) = lv_sd lv"
    and "lv_frozen (adopt_shared bs be lv) = lv_frozen lv" and "lv_pending (adopt_shared bs be lv) = lv_pending lv"
    and "length (lv_x (adopt_shared bs be lv)) = length (lv_x lv)"
    and "lv_x (adopt_shared bs be lv) ! p = lv_x lv ! p \<or> int p \<in> dom (map_of (lv_shared lv))"
proof -
  let ?f = "\<lambda>(pos, token) lv. if int bs \<le> pos \<and> pos < int be
       then lv\<lparr>lv_x := (lv_x lv)[nat pos := token], lv_age := (lv_age lv)[nat pos := 0]\<rparr> else lv"
  have *: "lv_shared (fold ?f d lv) = lv_shared lv \<and> lv_sd (fold ?f d lv) = lv_sd lv \<and>
      lv_frozen (fold ?f d lv) = lv_frozen lv \<and> lv_pending (fold ?f d lv) = lv_pending lv \<and>
      length (lv_x (fold ?f d lv)) = length (lv_x lv) \<and>
      (lv_x (fold ?f d lv) ! p = lv_x lv ! p \<or> int p \<in> fst ` set d)" for d lv
  proof (induction d arbitrary: lv)
    case (Cons a d)
    have "lv_x (?f a lv) ! p = lv_x lv ! p \<or> int p = fst a"
      by (cases a) (auto simp: nth_list_update split: if_splits)
    with Cons.IH [of "?f a lv"] show ?case by (cases a) (auto split: if_splits)
  qed simp
  show "lv_shared (adopt_shared bs be lv) = lv_shared lv" "lv_sd (adopt_shared bs be lv) = lv_sd lv"
    "lv_frozen (adopt_shared bs be lv) = lv_frozen lv" "lv_pending (adopt_shared bs be lv) = lv_pending lv"
    "length (lv_x (adopt_shared bs be lv)) = length (lv_x lv)"
    "lv_x (adopt_shared bs be lv) ! p = lv_x lv ! p \<or> int p \<in> dom (map_of (lv_shared lv))"
    using * [of "lv_shared lv" lv] by (simp_all add: adopt_shared_def dom_map_of_conv_image_fst)
qed


text \<open>
  What the loops keep: \<open>n\<close> tokens; the boundary is what the stop detector has made of the states
  the syncs merged; and a position that is no mask any more has been committed, in the shared
  state or in the commits the next sync sends.
\<close>

definition settled :: "step_config \<Rightarrow> stop_config \<Rightarrow> nat \<Rightarrow> nat \<Rightarrow> nat \<Rightarrow> loop_vars \<Rightarrow> bool" where
  "settled scfg cfg n gs ge lv \<longleftrightarrow> length (lv_x lv) = n \<and> lv_frozen lv = stop_pos (lv_sd lv) \<and>
     (\<exists>xs. lv_sd lv = run_events check_step (StopDetector cfg) (map (\<lambda>x. (x, int gs, int ge)) xs)) \<and>
     (\<forall>p < n. lv_x lv ! p \<noteq> sc_mask_id scfg \<longrightarrow>
        int p \<in> fst ` set (lv_pending lv) \<union> dom (map_of (lv_shared lv)))"

definition grows :: "loop_vars \<Rightarrow> loop_vars \<Rightarrow> bool" where
  "grows lv lv' \<longleftrightarrow> dom (map_of (lv_shared lv)) \<subseteq> dom (map_of (lv_shared lv')) \<and>
     boundary_before (lv_sd lv) (lv_sd lv')"

text \<open>Every position of a block is shared, up to the boundary.\<close>

definition reached :: "nat \<Rightarrow> nat \<Rightarrow> loop_vars \<Rightarrow> bool" where
  "reached start stop lv \<longleftrightarrow> (\<forall>p \<in> {start..<stop}.
     before_frozen (map_option nat (stop_pos (lv_sd lv))) p \<longrightarrow> int p \<in> dom (map_of (lv_shared lv)))"

lemma settledD:
  "settled scfg cfg n gs ge lv \<Longrightarrow> p < n \<Longrightarrow> lv_x lv ! p \<noteq> sc_mask_id scfg \<Longrightarrow>
   int p \<in> fst ` set (lv_pending lv) \<union> dom (map_of (lv_shared lv))"
  by (simp add: settled_def)

lemma grows_refl [simp]: "grows lv lv"
  by (simp add: grows_def boundary_before_def)

lemma grows_trans: "grows a b \<Longrightarrow> grows b c \<Longrightarrow> grows a c"
  unfolding grows_def using stop.before_trans by blast

lemma before_frozen_earlier:
  "boundary_before a b \<Longrightarrow> before_frozen (map_option nat (stop_pos b)) p \<Longrightarrow>
   before_frozen (map_option nat (stop_pos a)) p"
  by (fastforce simp: boundary_before_def before_frozen_def split: option.splits)

lemma reached_grows: "reached start stop lv \<Longrightarrow> grows lv lv' \<Longrightarrow> reached start stop lv'"
  using before_frozen_earlier unfolding reached_def grows_def by blast

lemma settled_step:
  assumes "settled scfg cfg n gs ge lv" and "torch_ok tc" and "length (model (lv_x lv)) = n" and "0 < s"
    and "local_step tc model noise (lv_x lv) age s bs be spb scfg ff = Inr r"
  shows "settled scfg cfg n gs ge (lv\<lparr>lv_x := sr_x r, lv_age := sr_age r,
    lv_pending := note_transfers r (lv_pending lv), lv_steps_done := k\<rparr>)"
proof -
  have n: "length (lv_x lv) = n" using assms(1) by (simp add: settled_def)
  with assms(3) have m: "length (model (lv_x lv)) = length (lv_x lv)" by simp
  note len = step_row_lengths [OF assms(5,2) m assms(4)]
  have "int p \<in> fst ` set (note_transfers r (lv_pending lv)) \<union> dom (map_of (lv_shared lv))"
    if p: "p < n" "sr_x r ! p \<noteq> sc_mask_id scfg" for p
  proof -
    have "lv_x lv ! p \<noteq> sc_mask_id scfg \<or> sr_transfer r ! p"
      using step_settles [OF assms(5,2) m assms(4)] p n by simp
    then show ?thesis
    proof
      assume "lv_x lv ! p \<noteq> sc_mask_id scfg"
      with assms(1) p show ?thesis by (auto simp: settled_def keys_note_transfers)
    next
      assume "sr_transfer r ! p"
      with p len n show ?thesis by (simp add: keys_note_transfers)
    qed
  qed
  with assms(1) len n show ?thesis by (simp add: settled_def)
qed

lemma settled_sync:
  assumes "settled scfg cfg n gs ge lv" and "sn_id sn \<notin> others"
    and "do_sync py rid (lv_seq lv) others (lv_pending lv) my_p (lv_shared lv) (int gs) (int ge) (lv_sd lv) sn =
      Some (Inr (x', f, sd'), sn')"
    and "lv' = adopt_shared bs be (lv\<lparr>lv_shared := x', lv_frozen := f, lv_sd := sd', lv_seq := q, lv_pending := []\<rparr>)"
  shows "settled scfg cfg n gs ge lv'" and "grows lv lv'" and "lv_pending lv' = []"
    and "fst ` set (lv_pending lv) \<subseteq> dom (map_of (lv_shared lv'))"
proof -
  note sync = do_sync_merges [OF assms(3,2)]
  note adopt = adopt_shared_spec [of bs be "lv\<lparr>lv_shared := x', lv_frozen := f, lv_sd := sd', lv_seq := q, lv_pending := []\<rparr>",
      folded assms(4), simplified]
  obtain xs where "lv_sd lv = run_events check_step (StopDetector cfg) (map (\<lambda>x. (x, int gs, int ge)) xs)"
    using assms(1) by (auto simp: settled_def)
  then have sd: "sd' = run_events check_step (StopDetector cfg) (map (\<lambda>x. (x, int gs, int ge)) (xs @ [x']))"
    by (simp add: sync(3) run_events_append)
  have dom: "int p \<in> dom (map_of x')" if "p < n" "lv_x lv' ! p \<noteq> sc_mask_id scfg" for p
  proof -
    have "lv_x lv' ! p = lv_x lv ! p \<or> int p \<in> dom (map_of x')" using adopt(6) [of p] by auto
    then show ?thesis
    proof
      assume "lv_x lv' ! p = lv_x lv ! p"
      with settledD [OF assms(1)] that sync(1) show ?thesis by (metis subsetD)
    qed
  qed
  have len: "length (lv_x lv) = n" using assms(1) by (simp add: settled_def)
  show "settled scfg cfg n gs ge lv'"
    unfolding settled_def
    by (intro conjI exI [of _ "xs @ [x']"] allI impI) (simp_all only: adopt sync(2) sd [symmetric] len, use dom in simp)
  have "boundary_before (lv_sd lv) sd'"
    unfolding sync(3) by (simp add: check_step_eq note_candidate_before)
  then show "grows lv lv'" using sync(1) adopt by (simp add: grows_def)
  show "lv_pending lv' = []" by (rule adopt)
  show "fst ` set (lv_pending lv) \<subseteq> dom (map_of (lv_shared lv'))" using sync(1) adopt(1) by simp
qed


lemma settled_last_step:
  assumes "settled scfg cfg n gs ge lv" and "torch_ok tc" and "length (model (lv_x lv)) = n"
    and "local_step tc model noise (lv_x lv) age 1 bs be spb scfg (map_option nat (lv_frozen lv)) = Inr r"
    and "grows lv lv'" and "fst ` set (note_transfers r (lv_pending lv)) \<subseteq> dom (map_of (lv_shared lv'))" and "be \<le> n"
  shows "reached bs be lv'"
  unfolding reached_def
proof (intro ballI impI)
  fix p assume p: "p \<in> {bs..<be}" and "before_frozen (map_option nat (stop_pos (lv_sd lv'))) p"
  then have frozen: "before_frozen (map_option nat (lv_frozen lv)) p"
    using assms(1,5) before_frozen_earlier by (auto simp: settled_def grows_def)
  have n: "length (lv_x lv) = n" using assms(1) by (simp add: settled_def)
  with assms(3) have m: "length (model (lv_x lv)) = length (lv_x lv)" by simp
  note len = step_row_lengths(1) [OF assms(4,2) m zero_less_one]
  have "int p \<in> fst ` set (note_transfers r (lv_pending lv)) \<union> dom (map_of (lv_shared lv))"
  proof (cases "lv_x lv ! p = sc_mask_id scfg")
    case True
    then have "p \<in> block_masks (lv_x lv) (sc_mask_id scfg) bs be"
      using p assms(7) n by (simp add: block_masks_def)
    then have "sr_transfer r ! p" using last_step_reaches [OF assms(4,2) m] frozen by blast
    then show ?thesis using p assms(7) n len by (simp add: keys_note_transfers)
  next
    case False
    then have "int p \<in> fst ` set (lv_pending lv) \<union> dom (map_of (lv_shared lv))"
      using settledD [OF assms(1), of p] assms(7) p by simp
    then show ?thesis unfolding keys_note_transfers by blast
  qed
  then show "int p \<in> dom (map_of (lv_shared lv'))" using assms(5,6) unfolding grows_def by blast
qed

text \<open>What the runner has to bring along: a PyTorch that keeps to its documentation and a model
  with a row of logits for every position.\<close>

definition runner_ok :: "runner \<Rightarrow> bool" where
  "runner_ok ru \<longleftrightarrow> torch_ok (ru_torch ru) \<and> (\<forall>x. length (ru_model ru x) = length x)"

lemma gen_step_done:
  assumes "gen_step ru cfg rid others gs ge bs be spb i lv sn = Some (Inr (Some lv'), sn')"
  obtains sn3 r lv1 where "sn_id sn3 = sn_id sn"
    and "local_step (ru_torch ru) (ru_model ru) (ru_noise ru (lv_steps_done lv)) (lv_x lv) (lv_age lv)
          (int spb - int i) bs be (int spb) (gc_step_cfg cfg) (map_option nat (lv_frozen lv)) = Inr r"
    and "lv1 = lv\<lparr>lv_x := sr_x r, lv_age := sr_age r, lv_pending := note_transfers r (lv_pending lv),
                 lv_steps_done := Suc (lv_steps_done lv)\<rparr>"
    and "if (i + 1) mod gc_sync_every cfg = 0 \<or> i = spb - 1 then
           (\<exists>x' f sd'. do_sync (ru_python ru) rid (lv_seq lv1) others (lv_pending lv1) (sr_p r)
                (lv_shared lv1) (int gs) (int ge) (lv_sd lv1) sn3 = Some (Inr (x', f, sd'), sn') \<and>
              lv' = adopt_shared bs be (lv1\<lparr>lv_shared := x', lv_frozen := f, lv_sd := sd',
                      lv_seq := lv_seq lv1 + 1, lv_pending := []\<rparr>))
         else lv' = lv1 \<and> sn' = sn3"
proof -
  obtain m sn1 where pump: "pump_once sn 10 = (Inr m, sn1)"
    using assms unfolding gen_step_def tbind_Inr by blast
  obtain now sn2 where clock: "read_clock sn1 = (now, sn2)" by (cases "read_clock sn1")
  obtain failed rm where chk: "check_leader_timeout (sn_round sn2) None now = (failed, rm)"
    by (cases "check_leader_timeout (sn_round sn2) None now")
  let ?sn3 = "sn2\<lparr>sn_round := rm\<rparr>"
  have id3: "sn_id ?sn3 = sn_id sn"
    using pump_once_fields(1) [of sn 10] read_clock_fields(2) [of sn1] by (simp add: pump clock)
  note run = assms [unfolded gen_step_def pump tbind_simps clock chk prod.case Let_def]
  from run have "\<not> failed" by (auto split: if_splits)
  note run = run [unfolded if_not_P [OF \<open>\<not> failed\<close>] tbind_Inr]
  then obtain r where r: "local_step (ru_torch ru) (ru_model ru) (ru_noise ru (lv_steps_done lv)) (lv_x lv) (lv_age lv)
          (int spb - int i) bs be (int spb) (gc_step_cfg cfg) (map_option nat (lv_frozen lv)) = Inr r"
    by auto
  define lv1 where "lv1 = lv\<lparr>lv_x := sr_x r, lv_age := sr_age r, lv_pending := note_transfers r (lv_pending lv),
                 lv_steps_done := Suc (lv_steps_done lv)\<rparr>"
  show ?thesis
    by (rule that [OF id3 r lv1_def]) (use run in \<open>auto simp: r lv1_def [symmetric] tbind_Inr split: if_splits prod.splits\<close>)
qed


lemma settled_gen_step:
  assumes "gen_step ru cfg rid others gs ge bs be spb i lv sn = Some (Inr (Some lv'), sn')"
    and "settled (gc_step_cfg cfg) (gc_stop_cfg cfg) n gs ge lv" and "runner_ok ru" and "i < spb"
    and "sn_id sn \<notin> others" and "be \<le> n"
  shows "settled (gc_step_cfg cfg) (gc_stop_cfg cfg) n gs ge lv' \<and> grows lv lv' \<and> sn_id sn' = sn_id sn \<and>
    (i = spb - 1 \<longrightarrow> lv_pending lv' = [] \<and> reached bs be lv')"
proof -
  obtain sn3 r lv1 where id3: "sn_id sn3 = sn_id sn"
    and step: "local_step (ru_torch ru) (ru_model ru) (ru_noise ru (lv_steps_done lv)) (lv_x lv) (lv_age lv)
          (int spb - int i) bs be (int spb) (gc_step_cfg cfg) (map_option nat (lv_frozen lv)) = Inr r"
    and lv1: "lv1 = lv\<lparr>lv_x := sr_x r, lv_age := sr_age r, lv_pending := note_transfers r (lv_pending lv),
                 lv_steps_done := Suc (lv_steps_done lv)\<rparr>"
    and rest: "if (i + 1) mod gc_sync_every cfg = 0 \<or> i = spb - 1 then
           (\<exists>x' f sd'. do_sync (ru_python ru) rid (lv_seq lv1) others (lv_pending lv1) (sr_p r)
                (lv_shared lv1) (int gs) (int ge) (lv_sd lv1) sn3 = Some (Inr (x', f, sd'), sn') \<and>
              lv' = adopt_shared bs be (lv1\<lparr>lv_shared := x', lv_frozen := f, lv_sd := sd',
                      lv_seq := lv_seq lv1 + 1, lv_pending := []\<rparr>))
         else lv' = lv1 \<and> sn' = sn3"
    using gen_step_done [OF assms(1)] .
  have tc: "torch_ok (ru_torch ru)" and m: "length (ru_model ru (lv_x lv)) = n"
    using assms(2,3) by (simp_all add: runner_ok_def settled_def)
  have "0 < int spb - int i" using assms(4) by simp
  from settled_step [OF assms(2) tc m this step]
  have set1: "settled (gc_step_cfg cfg) (gc_stop_cfg cfg) n gs ge lv1" by (simp add: lv1)
  have g1: "grows lv lv1" by (simp add: lv1 grows_def boundary_before_def)
  show ?thesis
  proof (cases "(i + 1) mod gc_sync_every cfg = 0 \<or> i = spb - 1")
    case True
    then obtain x' f sd' where sync: "do_sync (ru_python ru) rid (lv_seq lv1) others (lv_pending lv1) (sr_p r)
                (lv_shared lv1) (int gs) (int ge) (lv_sd lv1) sn3 = Some (Inr (x', f, sd'), sn')"
      and lv': "lv' = adopt_shared bs be (lv1\<lparr>lv_shared := x', lv_frozen := f, lv_sd := sd',
                      lv_seq := lv_seq lv1 + 1, lv_pending := []\<rparr>)"
      using rest by auto
    have out: "sn_id sn3 \<notin> others" using assms(5) id3 by simp
    note s = settled_sync [OF set1 out sync lv']
    have g: "grows lv lv'" using grows_trans [OF g1 s(2)] .
    have sub: "fst ` set (note_transfers r (lv_pending lv)) \<subseteq> dom (map_of (lv_shared lv'))"
      using s(4) by (simp add: lv1)
    have "reached bs be lv'" if "i = spb - 1"
    proof -
      have "int spb - int i = 1" using that assms(4) by simp
      with step show ?thesis using settled_last_step [OF assms(2) tc _ _ g sub assms(6)] m by fastforce
    qed
    with s g do_sync_merges(4) [OF sync out] id3 show ?thesis by simp
  next
    case False
    with rest set1 g1 id3 show ?thesis by simp
  qed
qed

lemma settled_steps_loop:
  assumes "steps_loop (gen_step ru cfg rid others gs ge bs be spb) [i..<spb] lv sn = Some (Inr (Some lv'), sn')"
    and "settled (gc_step_cfg cfg) (gc_stop_cfg cfg) n gs ge lv" and "runner_ok ru" and "i < spb"
    and "sn_id sn \<notin> others" and "be \<le> n"
  shows "settled (gc_step_cfg cfg) (gc_stop_cfg cfg) n gs ge lv' \<and> grows lv lv' \<and> sn_id sn' = sn_id sn \<and>
    lv_pending lv' = [] \<and> reached bs be lv'"
  using assms
proof (induction "spb - i" arbitrary: i lv sn)
  case (Suc d)
  from Suc.prems(1,4) obtain lv1 sn1 where first: "gen_step ru cfg rid others gs ge bs be spb i lv sn = Some (Inr (Some lv1), sn1)"
    and rest: "steps_loop (gen_step ru cfg rid others gs ge bs be spb) [Suc i..<spb] lv1 sn1 = Some (Inr (Some lv'), sn')"
    by (auto simp: upt_conv_Cons tbind_Inr split: option.splits)
  note one = settled_gen_step [OF first Suc.prems(2-6)]
  show ?case
  proof (cases "Suc i < spb")
    case True
    have "settled (gc_step_cfg cfg) (gc_stop_cfg cfg) n gs ge lv' \<and> grows lv1 lv' \<and> sn_id sn' = sn_id sn1 \<and>
        lv_pending lv' = [] \<and> reached bs be lv'"
      by (rule Suc.hyps(1) [OF _ rest]) (use Suc.hyps(2) one Suc.prems(3,5,6) True in simp_all)
    with one grows_trans [of lv lv1 lv'] show ?thesis by simp
  next
    case False
    with Suc.prems(4) have "i = spb - 1" by simp
    with rest one show ?thesis by simp
  qed
qed simp


lemma reached_join: "reached a b lv \<Longrightarrow> reached b c lv \<Longrightarrow> reached a c lv"
  unfolding reached_def by (metis atLeastLessThan_iff not_le)

lemma settled_blocks_loop:
  assumes "blocks_loop ru cfg rid others gs ge spb [b..<nb] lv sn = Some (Inr (Some lv'), sn')"
    and "settled (gc_step_cfg cfg) (gc_stop_cfg cfg) n gs ge lv" and "runner_ok ru" and "0 < spb"
    and "sn_id sn \<notin> others" and "gs + nb * gc_block_length cfg \<le> n" and "b \<le> nb"
    and "lv_pending lv = []" and "reached gs (gs + b * gc_block_length cfg) lv"
  shows "settled (gc_step_cfg cfg) (gc_stop_cfg cfg) n gs ge lv' \<and> grows lv lv' \<and>
    reached gs (gs + nb * gc_block_length cfg) lv'"
  using assms
proof (induction "nb - b" arbitrary: b lv sn)
  case 0
  then show ?case by simp
next
  case (Suc d)
  let ?bl = "gc_block_length cfg"
  let ?start = "gs + b * ?bl" and ?stop = "gs + Suc b * ?bl"
  have b: "b < nb" using Suc.hyps(2) by simp
  note run = Suc.prems(1) [unfolded upt_conv_Cons [OF b] blocks_loop.simps Let_def]
  show ?case
  proof (cases "\<exists>f. lv_frozen lv = Some f \<and> f \<le> int ?start")
    case True
    then obtain f where f: "lv_frozen lv = Some f" "f \<le> int ?start" by blast
    with run have "lv' = lv" by simp
    moreover have "stop_pos (lv_sd lv) = Some f" using Suc.prems(2) f(1) by (simp add: settled_def)
    moreover have "p < ?start" if "p < nat f" for p using that f(2) by linarith
    ultimately show ?thesis
      using Suc.prems(2,9) by (auto simp: reached_def before_frozen_def)
  next
    case False
    let ?lv = "lv\<lparr>lv_age := replicate (length (lv_x lv)) 0, lv_pending := []\<rparr>"
    obtain lv1 sn1 where steps: "steps_loop (gen_step ru cfg rid others gs ge ?start ?stop spb) [0..<spb] ?lv sn =
          Some (Inr (Some lv1), sn1)"
      and rest: "blocks_loop ru cfg rid others gs ge spb [Suc b..<nb] lv1 sn1 = Some (Inr (Some lv'), sn')"
      using run False by (auto simp: tbind_Inr split: option.splits if_splits)
    have "settled (gc_step_cfg cfg) (gc_stop_cfg cfg) n gs ge ?lv"
      using Suc.prems(2,8) by (simp add: settled_def)
    moreover have "?stop \<le> n"
    proof -
      have "Suc b * ?bl \<le> nb * ?bl" using b by (intro mult_le_mono1) simp
      with Suc.prems(6) show ?thesis by linarith
    qed
    ultimately have one: "settled (gc_step_cfg cfg) (gc_stop_cfg cfg) n gs ge lv1 \<and> grows ?lv lv1 \<and>
        sn_id sn1 = sn_id sn \<and> lv_pending lv1 = [] \<and> reached ?start ?stop lv1"
      by (rule settled_steps_loop [OF steps _ Suc.prems(3,4,5)])
    then have g: "grows lv lv1" by (simp add: grows_def)
    have "reached gs ?stop lv1"
      using reached_grows [OF Suc.prems(9) g] one reached_join by blast
    then have "settled (gc_step_cfg cfg) (gc_stop_cfg cfg) n gs ge lv' \<and> grows lv1 lv' \<and>
        reached gs (gs + nb * ?bl) lv'"
      by (intro Suc.hyps(1) [OF _ rest]) (use Suc.hyps(2) one Suc.prems(3-7) b in simp_all)
    with g grows_trans [of lv lv1 lv'] show ?thesis by simp
  qed
qed

lemma settled_start:
  "settled (gc_step_cfg cfg) (gc_stop_cfg cfg) (length prompt_ids + gc_gen_length cfg) gs ge (start_vars prompt_ids cfg)"
  "lv_pending (start_vars prompt_ids cfg) = []"
  "p < length prompt_ids \<Longrightarrow> int p \<in> dom (map_of (lv_shared (start_vars prompt_ids cfg)))"
proof -
  have dom: "int p \<in> dom (map_of (lv_shared (start_vars prompt_ids cfg)))" if "p < length prompt_ids" for p
    using that by (simp add: start_vars_def dom_map_of_conv_image_fst image_image)
  show "p < length prompt_ids \<Longrightarrow> int p \<in> dom (map_of (lv_shared (start_vars prompt_ids cfg)))" by (rule dom)
  show "lv_pending (start_vars prompt_ids cfg) = []" by (simp add: start_vars_def)
  have "lv_sd (start_vars prompt_ids cfg) = run_events check_step (StopDetector (gc_stop_cfg cfg)) (map (\<lambda>x. (x, int gs, int ge)) [])"
    "lv_frozen (start_vars prompt_ids cfg) = stop_pos (lv_sd (start_vars prompt_ids cfg))"
    by (simp_all add: start_vars_def StopDetector_def)
  moreover have "p < length prompt_ids" if "p < length prompt_ids + gc_gen_length cfg"
      "lv_x (start_vars prompt_ids cfg) ! p \<noteq> sc_mask_id (gc_step_cfg cfg)" for p
    using that by (auto simp: start_vars_def nth_append split: if_splits)
  moreover have "length (lv_x (start_vars prompt_ids cfg)) = length prompt_ids + gc_gen_length cfg"
    by (simp add: start_vars_def)
  ultimately show "settled (gc_step_cfg cfg) (gc_stop_cfg cfg) (length prompt_ids + gc_gen_length cfg) gs ge
      (start_vars prompt_ids cfg)"
    unfolding settled_def using dom by blast
qed

lemma settled_boundary:
  assumes "settled scfg cfg n gs ge lv" and "lv_frozen lv = Some f"
  shows "\<exists>xs. confirmed cfg (map (\<lambda>x. (x, int gs, int ge)) xs) f"
proof -
  obtain xs where "lv_sd lv = run_events check_step (StopDetector cfg) (map (\<lambda>x. (x, int gs, int ge)) xs)"
    using assms(1) by (auto simp: settled_def)
  then have "confirm_inv cfg (map (\<lambda>x. (x, int gs, int ge)) xs) (lv_sd lv)" using confirm_inv_run by simp
  moreover have "stop_pos (lv_sd lv) = Some f" using assms by (simp add: settled_def)
  ultimately show ?thesis by (auto simp: confirm_inv_def)
qed

text \<open>The loops of a finished round, and what they have settled.\<close>

lemma round_settled:
  assumes "run_round ru prompt_ids cfg sn = Some (Inr (Some shared_x), sn')"
    and "active_round (sn_round sn) = Some rs" and "runner_ok ru"
    and "nb = gc_gen_length cfg div gc_block_length cfg" and "nb \<le> gc_steps cfg"
    and "gs = length prompt_ids" and "ge = gs + gc_gen_length cfg"
  obtains lv sn1 where "blocks_loop ru cfg (round_id rs) (set (participants rs) - {sn_id sn}) gs ge (gc_steps cfg div nb)
      [0..<nb] (start_vars prompt_ids cfg) sn = Some (Inr (Some lv), sn1)"
    and "shared_x = lv_shared lv"
    and "settled (gc_step_cfg cfg) (gc_stop_cfg cfg) (length prompt_ids + gc_gen_length cfg) gs ge lv"
    and "\<And>p. p < gs + nb * gc_block_length cfg \<Longrightarrow> (case lv_frozen lv of None \<Rightarrow> True | Some f \<Rightarrow> int p < f) \<Longrightarrow>
      map_of shared_x (int p) \<noteq> None"
proof -
  let ?others = "set (participants rs) - {sn_id sn}" and ?spb = "gc_steps cfg div nb"
  have nb: "0 < nb" "gc_block_length cfg \<noteq> 0"
    using assms(1,2,4) by (auto simp: run_round_def Let_def split: if_splits)
  obtain lv sn1 where run: "blocks_loop ru cfg (round_id rs) ?others gs ge ?spb [0..<nb] (start_vars prompt_ids cfg) sn =
      Some (Inr (Some lv), sn1)" and shared: "shared_x = lv_shared lv"
    using assms(1,2,4,6,7) nb by (auto simp: run_round_def Let_def tbind_Inr split: option.splits if_splits)
  have spb: "0 < ?spb" using assms(5) nb(1) by (simp add: div_greater_zero_iff)
  have "nb * gc_block_length cfg \<le> gc_gen_length cfg" by (simp add: assms(4))
  then have fits: "gs + nb * gc_block_length cfg \<le> length prompt_ids + gc_gen_length cfg" by (simp add: assms(6))
  have "reached gs (gs + 0 * gc_block_length cfg) (start_vars prompt_ids cfg)" by (simp add: reached_def)
  from settled_blocks_loop [OF run settled_start(1) assms(3) spb _ fits _ settled_start(2) this]
  have fin: "settled (gc_step_cfg cfg) (gc_stop_cfg cfg) (length prompt_ids + gc_gen_length cfg) gs ge lv"
    and grow: "grows (start_vars prompt_ids cfg) lv" and all: "reached gs (gs + nb * gc_block_length cfg) lv"
    by auto
  have "map_of shared_x (int p) \<noteq> None"
    if "p < gs + nb * gc_block_length cfg" "case lv_frozen lv of None \<Rightarrow> True | Some f \<Rightarrow> int p < f" for p
  proof (cases "p < gs")
    case True
    with settled_start(3) [of p prompt_ids cfg] grow show ?thesis
      unfolding shared grows_def assms(6) by blast
  next
    case False
    have "before_frozen (map_option nat (lv_frozen lv)) p"
      using that(2) by (auto simp: before_frozen_def split: option.splits)
    with False that(1) all fin show ?thesis by (auto simp: shared reached_def settled_def)
  qed
  then show thesis by (rule that [OF run shared fin])
qed

subsection \<open>Property\<close>

text \<open>C5: a finished round leaves no gap. If \<open>run_round\<close> returns a shared state, with at least one step
  per block, then every position of the prompt and of the \<open>gen_length div block_length\<close> blocks
  that lies before the boundary \<open>frozen_from\<close> of the node (everywhere, if it found none) has a
  token in it: whatever the other participants sent, sent late or never sent. And the boundary
  is one the stop detector confirmed on states that syncs of the round merged.\<close>

theorem generation_leaves_no_gap:
  assumes "run_round ru prompt_ids cfg sn = Some (Inr (Some shared_x), sn')"
    and "active_round (sn_round sn) = Some rs" and "runner_ok ru"
    and "nb = gc_gen_length cfg div gc_block_length cfg" and "nb \<le> gc_steps cfg"
    and "gs = length prompt_ids" and "ge = gs + gc_gen_length cfg"
  shows "\<exists>lv sn1.
    blocks_loop ru cfg (round_id rs) (set (participants rs) - {sn_id sn}) gs ge (gc_steps cfg div nb)
      [0..<nb] (start_vars prompt_ids cfg) sn = Some (Inr (Some lv), sn1) \<and>
    shared_x = lv_shared lv \<and>
    (\<forall>p < gs + nb * gc_block_length cfg. (case lv_frozen lv of None \<Rightarrow> True | Some f \<Rightarrow> int p < f) \<longrightarrow>
       map_of shared_x (int p) \<noteq> None) \<and>
    (\<forall>f. lv_frozen lv = Some f \<longrightarrow>
       (\<exists>xs. confirmed (gc_stop_cfg cfg) (map (\<lambda>x. (x, int gs, int ge)) xs) f))"
proof (rule round_settled [OF assms])
  fix lv sn1
  assume run: "blocks_loop ru cfg (round_id rs) (set (participants rs) - {sn_id sn}) gs ge (gc_steps cfg div nb)
      [0..<nb] (start_vars prompt_ids cfg) sn = Some (Inr (Some lv), sn1)"
    and shared: "shared_x = lv_shared lv"
    and fin: "settled (gc_step_cfg cfg) (gc_stop_cfg cfg) (length prompt_ids + gc_gen_length cfg) gs ge lv"
    and all: "\<And>p. p < gs + nb * gc_block_length cfg \<Longrightarrow> (case lv_frozen lv of None \<Rightarrow> True | Some f \<Rightarrow> int p < f) \<Longrightarrow>
      map_of shared_x (int p) \<noteq> None"
  have "\<exists>xs. confirmed (gc_stop_cfg cfg) (map (\<lambda>x. (x, int gs, int ge)) xs) f" if "lv_frozen lv = Some f" for f
    by (rule settled_boundary [OF fin that])
  then show ?thesis
    by (intro exI [of _ lv] exI [of _ sn1] conjI allI impI run shared) (rule all, assumption+)
qed

text \<open>A round of one participant, one block and one step, with a model that always says 2.\<close>

definition steady_runner :: runner where
  "steady_runner = example_runner\<lparr>ru_model := \<lambda>x. map (\<lambda>_. [1 / 10, 1 / 5, 7 / 10]) x\<rparr>"

definition one_step_config :: gen_config where
  "one_step_config =
     \<lparr>gc_gen_length = 2, gc_block_length = 2, gc_steps = 1, gc_sync_every = 1,
      gc_step_cfg = example_step_cfg, gc_stop_cfg = example_cfg\<rparr>"

text \<open>The only message it sends, and a codec that can serialize that message.\<close>

definition lone_commit :: commit where
  "lone_commit = [(1, (2, 7 / 10)), (2, (2, 7 / 10))]"

definition lone_codec :: codec where
  "lone_codec = table_codec [(''body'', \<lparr>e_type = COMMIT, e_node_id = ''node-b'', e_ts = 1,
     e_payload = commit_payload (round_id example_round) 0 lone_commit\<rparr>)]"

definition lone_node :: swarm_node where
  "lone_node = (quiet_node ''node-b'' lone_codec)\<lparr>sn_round :=
     set_new_round (example_round\<lparr>participants := [''node-b'']\<rparr>) (RoundManager ''node-b'')\<rparr>"

lemma steady_runner_ok: "runner_ok steady_runner"
  by (simp add: runner_ok_def steady_runner_def example_runner_def plain_torch_ok)

lemma lone_step:
  "\<exists>r. local_step plain_torch (map (\<lambda>_. [1 / 10, 1 / 5, 7 / 10])) [] [2, 1, 1] [0, 0, 0] 1 1 3 1 example_step_cfg None = Inr r \<and>
     sr_transfer r = [False, True, True] \<and> sr_x0 r = [2, 2, 2] \<and> sr_conf_new r = [7 / 10, 7 / 10, 7 / 10]"
  by (simp add: example_defs upt_rec)

lemma lone_exchange:
  assumes "w_codec (sn_world sn) = lone_codec" and "sn_id sn = ''node-b''"
    and "w_clock (sn_world sn) (w_clock_i (sn_world sn)) = 1"
  shows "\<exists>sn'. exchange COMMIT (commit_payload (round_id example_round) 0 lone_commit) (round_id example_round) 0 {} sn =
      Some (Inr [], sn') \<and> sn_id sn' = sn_id sn \<and> sn_round sn' = sn_round sn"
proof -
  let ?pay = "commit_payload (round_id example_round) 0 lone_commit"
  have "packb lone_codec \<lparr>e_type = COMMIT, e_node_id = ''node-b'', e_ts = 1, e_payload = ?pay\<rparr> = Inr ''body''"
    by (simp add: lone_codec_def table_codec_def)
  then have "fst (publish_msg sn COMMIT (Some ?pay)) = Inr ()"
    using assms by (simp add: publish_msg_def publish_def time_time_def encode_def Let_def)
  then obtain s where pub: "publish_msg sn COMMIT (Some ?pay) = (Inr (), s)" by (metis prod.collapse)
  have "sn_id s = sn_id sn \<and> sn_round s = sn_round sn"
    using pub by (auto simp: publish_msg_def case_prod_unfold)
  moreover have "key_hashable (COMMIT, round_id example_round, PInt 0)" by (simp add: example_round_def)
  ultimately show ?thesis
    unfolding exchange_def pub tbind_simps
    by (simp add: collect_until_def Let_def case_prod_unfold collect_loop.simps)
qed

lemma lone_sync:
  assumes "w_codec (sn_world sn) = lone_codec" and "sn_id sn = ''node-b''"
    and "w_clock (sn_world sn) (w_clock_i (sn_world sn)) = 1"
  shows "\<exists>sd' sn'. do_sync py (round_id example_round) 0 {} lone_commit my_p [(0, 2)] 1 3 (StopDetector example_cfg) sn =
     Some (Inr ([(0, 2), (1, hd (py_set_iter py {2})), (2, hd (py_set_iter py {2}))], None, sd'), sn') \<and> sn_round sn' = sn_round sn"
proof -
  let ?c = "lone_commit"
  obtain sn1 where ex: "exchange COMMIT (commit_payload (round_id example_round) 0 ?c) (round_id example_round) 0 {} sn =
      Some (Inr [], sn1)" and sn1: "sn_round sn1 = sn_round sn"
    using lone_exchange [OF assms] by blast
  let ?x = "[(0, 2), (1, hd (py_set_iter py {2})), (2, hd (py_set_iter py {2}))] :: (int, int) dict"
  have "detect_disputes [(sn_id sn1, ?c)] = []"
    and "merge_consensus (py_set_iter py) [(0, 2)] [(sn_id sn1, ?c)] [] = ?x"
    by (simp_all add: lone_commit_def detect_disputes_def merge_consensus_def proposals_by_position_def propose_def dget_default_def)
  moreover have "fst (check (StopDetector example_cfg) ?x 1 3) = None"
    by (auto simp: check_eq Let_def candidate_def StopDetector_def example_cfg_def)
  then obtain sd' where "check (StopDetector example_cfg) ?x 1 3 = (None, sd')" by (metis prod.collapse)
  ultimately show ?thesis
    unfolding do_sync_def ex tbind_simps
    by (simp add: with_others_def sn1 Let_def case_prod_unfold)
qed

lemma lone_leader:
  "let rm = sn_round lone_node in check_leader_timeout rm None 0 = (False, rm) \<and> \<not> is_round_leader rm"
proof -
  have "rm_self_id (sn_round lone_node) = ''node-b''"
    by (simp add: lone_node_def set_new_round_def RoundManager_def)
  moreover have "active_round (sn_round lone_node) = Some (example_round\<lparr>participants := [''node-b'']\<rparr>)"
    by (simp add: lone_node_def)
  ultimately show ?thesis
    by (simp add: check_leader_timeout_def is_round_leader_def ROUND_LEADER_TIMEOUT_def example_round_def)
qed

lemma lone_gen_step:
  assumes "lv_x lv = [2, 1, 1]" and "lv_age lv = [0, 0, 0]" and "lv_shared lv = [(0, 2)]" and "lv_frozen lv = None"
    and "lv_sd lv = StopDetector example_cfg" and "lv_seq lv = 0" and "lv_pending lv = []"
  shows "\<exists>lv' sn'. gen_step steady_runner one_step_config (round_id example_round) {} 1 3 1 3 1 0 lv lone_node = Some (Inr (Some lv'), sn') \<and>
    lv_shared lv' = [(0, 2), (1, 2), (2, 2)] \<and> sn_round sn' = sn_round lone_node"
proof -
  let ?sn1 = "lone_node\<lparr>sn_world := snd (poll_recv (sn_world lone_node) 10)\<rparr>"
  have pump: "pump_once lone_node 10 = (Inr None, ?sn1)"
    by (simp add: pump_once_def poll_recv_def lone_node_def)
  obtain sn2 where clock: "read_clock ?sn1 = (0, sn2)" and sn2: "sn_round sn2 = sn_round lone_node"
      "w_codec (sn_world sn2) = lone_codec" "sn_id sn2 = ''node-b''" "w_clock (sn_world sn2) (w_clock_i (sn_world sn2)) = 1"
    by (simp add: read_clock_def time_time_def lone_node_def poll_recv_def)
  obtain rm where chk: "check_leader_timeout (sn_round sn2) None 0 = (False, rm)" and rm: "rm = sn_round lone_node"
    using lone_leader by (simp add: sn2 Let_def)
  let ?sn3 = "sn2\<lparr>sn_round := rm\<rparr>"
  obtain r where r: "local_step plain_torch (map (\<lambda>_. [1 / 10, 1 / 5, 7 / 10])) [] [2, 1, 1] [0, 0, 0] 1 1 3 1 example_step_cfg None = Inr r"
    and picks: "sr_transfer r = [False, True, True]" "sr_x0 r = [2, 2, 2]" "sr_conf_new r = [7 / 10, 7 / 10, 7 / 10]"
    using lone_step by blast
  have noted: "note_transfers r [] = lone_commit"
    by (simp add: note_transfers_def lone_commit_def picks upt_rec)
  obtain sd' sn' where sync: "do_sync plain_python (round_id example_round) 0 {} lone_commit (sr_p r) [(0, 2)] 1 3
      (StopDetector example_cfg) ?sn3 = Some (Inr ([(0, 2), (1, 2), (2, 2)], None, sd'), sn')" and "sn_round sn' = rm"
    using lone_sync [of ?sn3 plain_python "sr_p r"] sn2(2-) by auto
  moreover have "local_step (ru_torch steady_runner) (ru_model steady_runner) (ru_noise steady_runner k) (lv_x lv)
      (lv_age lv) 1 1 3 1 (gc_step_cfg one_step_config) (map_option nat (lv_frozen lv)) = Inr r" for k
    using r by (simp add: assms steady_runner_def example_runner_def one_step_config_def)
  moreover have "gc_sync_every one_step_config = 1" "ru_python steady_runner = plain_python"
    by (simp_all add: one_step_config_def steady_runner_def example_runner_def)
  ultimately show ?thesis
    using rm by (simp add: gen_step_def pump clock chk noted assms(3-7) adopt_shared_spec(1))
qed

lemma lone_round:
  "\<exists>sn'. run_round steady_runner [2] one_step_config lone_node = Some (Inr (Some [(0, 2), (1, 2), (2, 2)]), sn')"
proof -
  let ?rid = "round_id example_round" and ?lv = "start_vars [2] one_step_config"
  have lv: "lv_x ?lv = [2, 1, 1]" "lv_shared ?lv = [(0, 2)]" "lv_frozen ?lv = None" "lv_seq ?lv = 0"
    "lv_sd ?lv = StopDetector example_cfg"
    by (simp_all add: start_vars_def one_step_config_def example_step_cfg_def numeral_eq_Suc)
  have rs: "active_round (sn_round lone_node) = Some (example_round\<lparr>participants := [''node-b'']\<rparr>)"
    by (simp add: lone_node_def)
  have cfg: "gc_gen_length one_step_config = 2" "gc_block_length one_step_config = 2" "gc_steps one_step_config = 1"
    by (simp_all add: one_step_config_def)
  obtain lv' sn' where step: "gen_step steady_runner one_step_config ?rid {} 1 3 1 3 1 0
        (?lv\<lparr>lv_age := replicate (length (lv_x ?lv)) 0, lv_pending := []\<rparr>) lone_node = Some (Inr (Some lv'), sn')"
    and out: "lv_shared lv' = [(0, 2), (1, 2), (2, 2)]" "sn_round sn' = sn_round lone_node"
    using lone_gen_step [of "?lv\<lparr>lv_age := replicate (length (lv_x ?lv)) 0, lv_pending := []\<rparr>"]
    by (auto simp: lv numeral_eq_Suc)
  have others: "set (participants (example_round\<lparr>participants := [''node-b'']\<rparr>)) - {sn_id lone_node} = {}"
    by (simp add: lone_node_def)
  have "\<not> is_round_leader (sn_round sn')" using lone_leader by (simp add: out Let_def)
  then show ?thesis
    using step out(1) others
    by (simp add: run_round_def rs cfg lv Let_def numeral_eq_Suc)
qed

theorem generation_leaves_no_gap_witness:
  "\<exists>shared_x sn'. run_round steady_runner [2] one_step_config lone_node = Some (Inr (Some shared_x), sn') \<and>
     (\<exists>lv sn1. blocks_loop steady_runner one_step_config (PStr ''node-a:abc123'') {} 1 3 1 [0]
        (start_vars [2] one_step_config) lone_node = Some (Inr (Some lv), sn1) \<and> shared_x = lv_shared lv)"
proof -
  obtain sn' where run: "run_round steady_runner [2] one_step_config lone_node = Some (Inr (Some [(0, 2), (1, 2), (2, 2)]), sn')"
    using lone_round by blast
  have rs: "active_round (sn_round lone_node) = Some (example_round\<lparr>participants := [''node-b'']\<rparr>)"
    and "sn_id lone_node = ''node-b''"
    by (simp_all add: lone_node_def)
  then have ids: "round_id (example_round\<lparr>participants := [''node-b'']\<rparr>) = PStr ''node-a:abc123''"
    "set (participants (example_round\<lparr>participants := [''node-b'']\<rparr>)) - {sn_id lone_node} = {}"
    by (simp_all add: example_round_def)
  have nb: "(1 :: nat) = gc_gen_length one_step_config div gc_block_length one_step_config" "1 \<le> gc_steps one_step_config"
    "(1 :: nat) = length [2 :: int]" "(3 :: nat) = 1 + gc_gen_length one_step_config"
    and steps: "gc_steps one_step_config div 1 = 1" "[0..<1] = [0]"
    by (simp_all add: one_step_config_def)
  from generation_leaves_no_gap [OF run rs steady_runner_ok nb] run show ?thesis
    unfolding ids steps by blast
qed

end
