(* ===== verification/Network.thy ===== *)
theory Network imports Swarm begin

section \<open>The swarm as a network of nodes\<close>

text \<open>
  The nodes of \<open>Swarm\<close>, \<open>node/swarm.py\<close>, side by side. \<open>node_step\<close> has the elementary things a node
  does to its own state: read the clock, poll once and dispatch what comes
  (\<open>pump_once\<close>), publish a message, start a round, look after the leader, take a bucket out of the
  inbox. A network is a state per node; in \<open>net_step\<close> one node takes one step, and what it polls
  must be a frame that some node has sent (and time may pass): the relays of \<open>relay/relay.py\<close> forward frames, may
  lose, repeat, delay and reorder them, but make none up. \<open>reachable\<close> starts from nodes that
  \<open>SwarmNode\<close> has just made. A round identifier is the leader's id and eight hex digits of a UUID;
  \<open>Start\<close> takes a UUID no round of that node has used before.

  The invariant \<open>node_inv\<close> says where everything in a node came from, and gives agreement about
  rounds (\<open>round_agreement\<close>). \<open>gathered\<close> describes \<open>collect_until\<close> as such a run.
\<close>

subsection \<open>Steps of one node\<close>

text \<open>The frames the next poll of a node may return, whatever timeout it is given.\<close>

definition offers :: "swarm_node \<Rightarrow> (string \<times> string) set" where
  "offers sn = {fr. \<exists>t. w_polls (sn_world sn) (w_poll_i (sn_world sn)) t = Some fr}"

definition new_round_id :: "swarm_node \<Rightarrow> string \<Rightarrow> pyval" where
  "new_round_id sn hex = PStr (sn_id sn @ '':'' @ take 8 hex)"

inductive node_step :: "swarm_node \<Rightarrow> (string \<times> string) set \<Rightarrow> swarm_node \<Rightarrow> bool" where
  Clock: "node_step sn {} (snd (read_clock sn))"
| Receive: "node_step sn (offers sn) (snd (pump_once sn t))"
| Send: "m \<noteq> GEN_START \<Longrightarrow> node_step sn {} (snd (publish_msg sn m p))"
| Start: "8 \<le> length hex \<Longrightarrow> new_round_id sn hex \<notin> round_id ` set (rm_heap (sn_round sn)) \<Longrightarrow>
    node_step sn {} (snd (start_round_as_leader sn ps prmpt gcfg hex))"
| Check: "node_step sn {} (swarm_step sn CheckLeader)"
| Forget: "node_step sn {} (sn\<lparr>sn_inbox := inbox_drop key (sn_inbox sn)\<rparr>)"

subsection \<open>What a step does to the rounds a node knows\<close>

type_synonym round_body = "pyval \<times> string \<times> string list \<times> pyval \<times> pyval"

definition round_body :: "round_state \<Rightarrow> round_body" where
  "round_body rs = (round_id rs, leader_id rs, participants rs, prompt rs, gen_config rs)"

definition bodies :: "round_manager \<Rightarrow> round_body set" where
  "bodies rm = round_body ` set (rm_heap rm)"

text \<open>What a \<open>GEN_START\<close> announces, to a node that reads it.\<close>

definition announced :: "envelope \<Rightarrow> round_body set" where
  "announced env = {(rid, e_node_id env, ps, prmpt, gcfg) | rid ps prmpt gcfg v.
     map_of (e_payload env) ''round_id'' = Some rid \<and> map_of (e_payload env) ''participants'' = Some v \<and>
     sorted_strs v = Inr ps \<and> map_of (e_payload env) ''prompt'' = Some prmpt \<and>
     map_of (e_payload env) ''gen_config'' = Some gcfg}"

fun brought :: "string \<Rightarrow> round_event \<Rightarrow> round_body set" where
  "brought self (StartRound ps p g hex t1 t2) = {(PStr (self @ '':'' @ take 8 hex), self, sort ps, p, g)}"
| "brought self (GenStartMsg env t clock) = announced env"
| "brought self _ = {}"

lemma bodies_new: "bodies (set_new_round rs rm) = insert (round_body rs) (bodies rm)"
  by (simp add: bodies_def set_new_round_def)

lemma bodies_mutate:
  assumes "\<And>r. round_body (f r) = round_body r" and "rm_ok rm"
  shows "bodies (mutate_active f rm) = bodies rm"
proof (cases "rm_active rm")
  case (Some a)
  with assms(2) have a: "a < length (rm_heap rm)" by (auto simp: rm_ok_def)
  have "map round_body ((rm_heap rm)[a := f (rm_heap rm ! a)]) = map round_body (rm_heap rm)"
    using assms(1) by (metis list_update_id map_update)
  then have "round_body ` set ((rm_heap rm)[a := f (rm_heap rm ! a)]) = round_body ` set (rm_heap rm)"
    by (metis set_map)
  with Some show ?thesis by (simp add: bodies_def mutate_active_def)
qed (simp add: mutate_active_def)

lemma bodies_drop [simp]: "bodies (rm\<lparr>rm_active := x\<rparr>) = bodies rm"
  by (simp add: bodies_def)

lemma on_gen_start_bodies:
  "on_gen_start rm env t c = Inr rm' \<Longrightarrow> bodies rm' \<subseteq> bodies rm \<union> announced env"
  by (auto simp: on_gen_start_def announced_def Let_def rbind_eq_Inr pay_item_Inr bodies_new round_body_def
      split: if_splits)

lemma round_step_bodies:
  assumes "rm_ok rm"
  shows "bodies (round_step rm ev) \<subseteq> bodies rm \<union> brought (rm_self_id rm) ev"
    and "bodies rm \<subseteq> bodies (round_step rm ev)"
proof -
  show "bodies (round_step rm ev) \<subseteq> bodies rm \<union> brought (rm_self_id rm) ev"
    using assms
    by (cases ev)
      (auto simp: round_op_defs Let_def bodies_new bodies_mutate round_body_def
        dest: on_gen_start_bodies split: option.splits sum.splits)
  have "round_body (rm_heap (round_step rm ev) ! a) = round_body (rm_heap rm ! a) \<and> a < length (rm_heap (round_step rm ev))"
    if "a < length (rm_heap rm)" for a
    using round_step_before [OF assms, of ev] that by (auto simp: heap_before_def round_identity_def round_body_def)
  then show "bodies rm \<subseteq> bodies (round_step rm ev)"
    unfolding bodies_def by (metis image_subsetI in_set_conv_nth imageI)
qed


lemma run_bodies:
  assumes "rm_ok rm"
  shows "bodies (run_events round_step rm es) \<subseteq> bodies rm \<union> (\<Union>e \<in> set es. brought (rm_self_id rm) e)"
    and "bodies rm \<subseteq> bodies (run_events round_step rm es)"
proof -
  have "bodies (run_events round_step rm es) \<subseteq> bodies rm \<union> (\<Union>e \<in> set es. brought (rm_self_id rm) e) \<and>
      bodies rm \<subseteq> bodies (run_events round_step rm es)"
    using assms
  proof (induction es arbitrary: rm)
    case (Cons e es)
    have "rm_self_id (round_step rm e) = rm_self_id rm"
      using round_step_before [OF Cons.prems, of e] by (simp add: heap_before_def)
    with Cons.IH [OF round_step_ok [OF Cons.prems], of e] round_step_bodies [OF Cons.prems, of e]
    show ?case by auto
  qed simp
  then show "bodies (run_events round_step rm es) \<subseteq> bodies rm \<union> (\<Union>e \<in> set es. brought (rm_self_id rm) e)"
    and "bodies rm \<subseteq> bodies (run_events round_step rm es)" by blast+
qed

subsection \<open>What a step does to a node\<close>

text \<open>The envelope of a frame, for a node that reads it.\<close>

definition says :: "codec \<Rightarrow> string \<times> string \<Rightarrow> envelope \<Rightarrow> bool" where
  "says cd frame env \<longleftrightarrow> decode cd (fst frame) (snd frame) = Inr env"

lemma publish_msg_sent:
  "\<exists>new. w_sent (sn_world (snd (publish_msg sn m p))) = w_sent (sn_world sn) @ new \<and>
     (\<forall>fr \<in> set new. \<exists>ts. packb (w_codec (sn_world sn))
        \<lparr>e_type = m, e_node_id = sn_id sn, e_ts = ts, e_payload = (case p of None \<Rightarrow> [] | Some d \<Rightarrow> d)\<rparr> = Inr (snd fr))"
  by (auto simp: publish_msg_def publish_def time_time_def encode_def rbind_def split: sum.splits prod.splits)

lemma publish_msg_fields [simp]:
  "sn_id (snd (publish_msg sn m p)) = sn_id sn"
  "sn_peers (snd (publish_msg sn m p)) = sn_peers sn"
  "sn_round (snd (publish_msg sn m p)) = sn_round sn"
  "sn_inbox (snd (publish_msg sn m p)) = sn_inbox sn"
  "w_codec (sn_world (snd (publish_msg sn m p))) = w_codec (sn_world sn)"
  "w_polls (sn_world (snd (publish_msg sn m p))) = w_polls (sn_world sn)"
  "w_poll_i (sn_world (snd (publish_msg sn m p))) = w_poll_i (sn_world sn)"
  "w_clock (sn_world (snd (publish_msg sn m p))) = w_clock (sn_world sn)"
  by (simp_all add: publish_msg_def case_prod_unfold)

text \<open>
  A step keeps the node's identity and codec; it sends under the node's own id, and announces
  with \<open>GEN_START\<close> only rounds it knows; what is new in its inbox or among its rounds came with
  a frame the step could read, or is a round the node starts itself.
\<close>

definition sends_ok :: "swarm_node \<Rightarrow> (string \<times> string) set \<Rightarrow> bool" where
  "sends_ok sn frs \<longleftrightarrow> (\<forall>fr \<in> frs. \<exists>env. says (w_codec (sn_world sn)) fr env \<and> e_node_id env = sn_id sn \<and>
     (e_type env = GEN_START \<longrightarrow> announced env \<subseteq> bodies (sn_round sn)))"

definition filed_by :: "codec \<Rightarrow> (string \<times> string) set \<Rightarrow> inbox_key \<Rightarrow> string \<Rightarrow> payload \<Rightarrow> bool" where
  "filed_by cd frs key j p \<longleftrightarrow> (\<exists>fr \<in> frs. \<exists>env. says cd fr env \<and> (key, j, p) \<in> set (filings env))"

definition brought_by :: "codec \<Rightarrow> (string \<times> string) set \<Rightarrow> round_body set" where
  "brought_by cd frs = (\<Union>fr \<in> frs. \<Union>env \<in> {env. says cd fr env \<and> e_type env = GEN_START}. announced env)"

lemma pump_effect:
  assumes "swarm_ok sn"
  shows "inbox_look (sn_inbox (snd (pump_once sn t))) key j = Some p \<Longrightarrow>
      inbox_look (sn_inbox sn) key j = Some p \<or> filed_by (w_codec (sn_world sn)) (offers sn) key j p"
    and "bodies (sn_round (snd (pump_once sn t))) \<subseteq>
      bodies (sn_round sn) \<union> brought_by (w_codec (sn_world sn)) (offers sn)"
    and "bodies (sn_round sn) \<subseteq> bodies (sn_round (snd (pump_once sn t)))"
proof -
  let ?w = "sn_world sn" and ?cd = "w_codec (sn_world sn)"
  let ?s = "sn\<lparr>sn_world := snd (poll_recv ?w t)\<rparr>"
  have rm: "rm_ok (sn_round sn)" using assms by (simp add: swarm_ok_def)
  consider (idle) "snd (pump_once sn t) = ?s"
    | (message) env fr where "fr \<in> offers sn" "says ?cd fr env" "snd (pump_once sn t) = snd (dispatch ?s env)"
  proof (cases sn t rule: pump_cases)
    case (message env)
    then obtain fr where "w_polls ?w (w_poll_i ?w) t = Some fr" "says ?cd fr env"
      by (auto simp: poll_recv_def says_def Let_def rbind_eq_Inr split: option.splits)
    moreover from this have "fr \<in> offers sn" unfolding offers_def by blast
    ultimately show ?thesis using that(2) message(2) by blast
  qed (use that(1) in simp)
  then have "(inbox_look (sn_inbox (snd (pump_once sn t))) key j = Some p \<longrightarrow>
      inbox_look (sn_inbox sn) key j = Some p \<or> filed_by ?cd (offers sn) key j p) \<and>
    bodies (sn_round (snd (pump_once sn t))) \<subseteq> bodies (sn_round sn) \<union> brought_by ?cd (offers sn) \<and>
    bodies (sn_round sn) \<subseteq> bodies (sn_round (snd (pump_once sn t)))"
  proof cases
    case (message env fr)
    let ?es = "round_events (sn_id sn) (w_clock ?w (w_clock_i ?w)) env"
    have r: "sn_round (snd (pump_once sn t)) = run_events round_step (sn_round sn) ?es"
      by (simp add: message(3) dispatch_round)
    have "(\<Union>e \<in> set ?es. brought (rm_self_id (sn_round sn)) e) \<subseteq> brought_by ?cd (offers sn)"
      using message(1,2) by (auto simp: round_events_def brought_by_def)
    with run_bodies [OF rm, of ?es] have "bodies (sn_round (snd (pump_once sn t))) \<subseteq>
        bodies (sn_round sn) \<union> brought_by ?cd (offers sn)"
      and "bodies (sn_round sn) \<subseteq> bodies (sn_round (snd (pump_once sn t)))" by (auto simp: r)
    moreover have "inbox_look (sn_inbox sn) key j = Some p \<or> filed_by ?cd (offers sn) key j p"
      if "inbox_look (sn_inbox (snd (pump_once sn t))) key j = Some p"
      using that mail.look_source [of "filings env" "sn_inbox sn" key j p] message(1,2)
      by (auto simp: message(3) dispatch_inbox filed_by_def)
    ultimately show ?thesis by blast
  qed auto
  then show "inbox_look (sn_inbox (snd (pump_once sn t))) key j = Some p \<Longrightarrow>
      inbox_look (sn_inbox sn) key j = Some p \<or> filed_by ?cd (offers sn) key j p"
    and "bodies (sn_round (snd (pump_once sn t))) \<subseteq> bodies (sn_round sn) \<union> brought_by ?cd (offers sn)"
    and "bodies (sn_round sn) \<subseteq> bodies (sn_round (snd (pump_once sn t)))" by blast+
qed


text \<open>Starting a round: what the new round is, and what goes out.\<close>

definition start_payload :: "round_body \<Rightarrow> payload" where
  "start_payload = (\<lambda>(rid, l, ps, prmpt, gcfg).
     [(''round_id'', rid), (''participants'', PList (map PStr ps)), (''prompt'', prmpt), (''gen_config'', gcfg)])"

lemma announced_start:
  assumes "e_payload env = start_payload (rid, l, ps, prmpt, gcfg)" and "sorted ps"
  shows "announced env = {(rid, e_node_id env, ps, prmpt, gcfg)}"
  using assms by (auto simp: announced_def start_payload_def sorted_strs_def sorted_sort_id)

lemma start_effect:
  assumes "swarm_ok sn"
  shows "\<exists>new. w_sent (sn_world (snd (start_round_as_leader sn ps prmpt gcfg hex))) = w_sent (sn_world sn) @ new \<and>
      sn_inbox (snd (start_round_as_leader sn ps prmpt gcfg hex)) = sn_inbox sn \<and>
      sn_world (snd (start_round_as_leader sn ps prmpt gcfg hex)) = (sn_world sn)
        \<lparr>w_clock_i := w_clock_i (sn_world (snd (start_round_as_leader sn ps prmpt gcfg hex))), w_sent := w_sent (sn_world sn) @ new\<rparr> \<and>
      (bodies (sn_round (snd (start_round_as_leader sn ps prmpt gcfg hex))) = bodies (sn_round sn) \<and> new = [] \<or>
       (let b = (new_round_id sn hex, sn_id sn, sort ps, prmpt, gcfg) in
        bodies (sn_round (snd (start_round_as_leader sn ps prmpt gcfg hex))) = insert b (bodies (sn_round sn)) \<and>
        (\<forall>fr \<in> set new. \<exists>ts. packb (w_codec (sn_world sn))
          \<lparr>e_type = GEN_START, e_node_id = sn_id sn, e_ts = ts, e_payload = start_payload b\<rparr> = Inr (snd fr))))"
proof (cases "active_round (sn_round sn)")
  case (Some rs)
  then show ?thesis by (simp add: start_round_as_leader_def)
next
  case None
  have self: "rm_self_id (sn_round sn) = sn_id sn" using assms by (simp add: swarm_ok_def)
  show ?thesis
    using None
    by (auto simp: start_round_as_leader_def read_clock_def time_time_def publish_msg_def publish_def encode_def
        start_round_def bodies_new round_body_def self new_round_id_def start_payload_def Let_def rbind_def pbind_def
        split: sum.splits prod.splits)
qed

lemma sort_sort [simp]: "sort (sort ps) = sort ps"
  by (simp add: sorted_sort_id)

text \<open>A step of a node, put together.\<close>

definition step_ok :: "swarm_node \<Rightarrow> (string \<times> string) set \<Rightarrow> swarm_node \<Rightarrow> bool" where
  "step_ok sn frs sn' \<longleftrightarrow> sn_id sn' = sn_id sn \<and> swarm_ok sn' \<and> w_codec (sn_world sn') = w_codec (sn_world sn) \<and>
     w_polls (sn_world sn') = w_polls (sn_world sn) \<and>
     (frs = {} \<and> w_poll_i (sn_world sn') = w_poll_i (sn_world sn) \<or>
      frs = offers sn \<and> w_poll_i (sn_world sn') = Suc (w_poll_i (sn_world sn))) \<and>
     (\<exists>new. w_sent (sn_world sn') = w_sent (sn_world sn) @ new \<and> sends_ok sn' (set new)) \<and>
     (\<forall>key j p. inbox_look (sn_inbox sn') key j = Some p \<longrightarrow>
        inbox_look (sn_inbox sn) key j = Some p \<or> filed_by (w_codec (sn_world sn)) frs key j p) \<and>
     bodies (sn_round sn) \<subseteq> bodies (sn_round sn') \<and>
     (bodies (sn_round sn') \<subseteq> bodies (sn_round sn) \<union> brought_by (w_codec (sn_world sn)) frs \<or>
      (\<exists>hex ps prmpt gcfg. 8 \<le> length hex \<and> new_round_id sn hex \<notin> fst ` bodies (sn_round sn) \<and>
         bodies (sn_round sn') = insert (new_round_id sn hex, sn_id sn, ps, prmpt, gcfg) (bodies (sn_round sn))))"

lemma sends_ok_published:
  assumes "codec_ok (w_codec (sn_world sn))"
    and "\<forall>fr \<in> set new. \<exists>ts. packb (w_codec (sn_world sn)) \<lparr>e_type = m, e_node_id = sn_id sn, e_ts = ts, e_payload = p\<rparr> = Inr (snd fr)"
    and "m = GEN_START \<Longrightarrow> announced \<lparr>e_type = m, e_node_id = sn_id sn, e_ts = 0, e_payload = p\<rparr> \<subseteq> bodies (sn_round sn)"
  shows "sends_ok sn (set new)"
  using assms unfolding sends_ok_def
  by (fastforce simp: says_def decode_def codec_ok_def announced_def)

lemma start_step_ok:
  assumes "8 \<le> length hex" and "new_round_id sn hex \<notin> round_id ` set (rm_heap (sn_round sn))"
    and "swarm_ok sn" and "codec_ok (w_codec (sn_world sn))"
  shows "step_ok sn {} (snd (start_round_as_leader sn ps prmpt gcfg hex))"
proof -
  let ?sn' = "snd (start_round_as_leader sn ps prmpt gcfg hex)"
  let ?b = "(new_round_id sn hex, sn_id sn, sort ps, prmpt, gcfg)"
  obtain new where new: "w_sent (sn_world ?sn') = w_sent (sn_world sn) @ new" "sn_inbox ?sn' = sn_inbox sn"
    and w: "sn_world ?sn' = (sn_world sn)\<lparr>w_clock_i := w_clock_i (sn_world ?sn'), w_sent := w_sent (sn_world sn) @ new\<rparr>"
    and b: "bodies (sn_round ?sn') = bodies (sn_round sn) \<and> new = [] \<or>
       (bodies (sn_round ?sn') = insert ?b (bodies (sn_round sn)) \<and>
        (\<forall>fr \<in> set new. \<exists>ts. packb (w_codec (sn_world sn))
          \<lparr>e_type = GEN_START, e_node_id = sn_id sn, e_ts = ts, e_payload = start_payload ?b\<rparr> = Inr (snd fr)))"
    using start_effect [OF assms(3), of ps prmpt gcfg hex] unfolding Let_def by blast
  have fields: "w_codec (sn_world ?sn') = w_codec (sn_world sn)" "w_polls (sn_world ?sn') = w_polls (sn_world sn)"
    "w_poll_i (sn_world ?sn') = w_poll_i (sn_world sn)"
    by (subst w, simp)+
  note lead = swarm_lead [OF assms(3), of ps prmpt gcfg hex]
  then have id: "sn_id ?sn' = sn_id sn" by (simp add: swarm_before_def)
  have sends: "sends_ok ?sn' (set new)"
    using b
  proof
    assume b: "bodies (sn_round ?sn') = insert ?b (bodies (sn_round sn)) \<and>
        (\<forall>fr \<in> set new. \<exists>ts. packb (w_codec (sn_world sn))
          \<lparr>e_type = GEN_START, e_node_id = sn_id sn, e_ts = ts, e_payload = start_payload ?b\<rparr> = Inr (snd fr))"
    show ?thesis
      by (rule sends_ok_published [where m = GEN_START and p = "start_payload ?b"])
        (use assms(4) b in \<open>simp_all add: fields id announced_start\<close>)
  qed (simp add: sends_ok_def)
  have "new_round_id sn hex \<notin> fst ` bodies (sn_round sn)"
    using assms(2) by (auto simp: bodies_def round_body_def image_image)
  then have "bodies (sn_round ?sn') \<subseteq> bodies (sn_round sn) \<union> brought_by (w_codec (sn_world sn)) {} \<or>
      (\<exists>hex ps prmpt gcfg. 8 \<le> length hex \<and> new_round_id sn hex \<notin> fst ` bodies (sn_round sn) \<and>
         bodies (sn_round ?sn') = insert (new_round_id sn hex, sn_id sn, ps, prmpt, gcfg) (bodies (sn_round sn)))"
    using b assms(1) by blast
  moreover have "bodies (sn_round sn) \<subseteq> bodies (sn_round ?sn')" using b by blast
  ultimately show ?thesis
    using fields id lead new sends unfolding step_ok_def by simp
qed

lemma node_step_ok:
  assumes "node_step sn frs sn'" and "swarm_ok sn" and "codec_ok (w_codec (sn_world sn))"
  shows "step_ok sn frs sn'"
  using assms
proof (induction rule: node_step.induct)
  case (Clock sn)
  then show ?case using swarm_clock [of sn] by (simp add: step_ok_def sends_ok_def)
next
  case (Receive sn t)
  then show ?case
    using swarm_pump [of sn t] pump_effect [where sn = sn and t = t]
    by (simp add: step_ok_def sends_ok_def)
next
  case (Send m sn p)
  obtain new where new: "w_sent (sn_world (snd (publish_msg sn m p))) = w_sent (sn_world sn) @ new"
    and packs: "\<forall>fr \<in> set new. \<exists>ts. packb (w_codec (sn_world sn))
        \<lparr>e_type = m, e_node_id = sn_id sn, e_ts = ts, e_payload = (case p of None \<Rightarrow> [] | Some d \<Rightarrow> d)\<rparr> = Inr (snd fr)"
    using publish_msg_sent by blast
  have "sends_ok (snd (publish_msg sn m p)) (set new)"
    by (rule sends_ok_published [where m = m]) (use Send packs in simp_all)
  with new show ?case using swarm_publish [OF Send(2), of m p] by (simp add: step_ok_def)
next
  case (Start hex sn ps prmpt gcfg)
  then show ?case by (intro start_step_ok)
next
  case (Check sn)
  have rm: "rm_ok (sn_round sn)" using Check by (simp add: swarm_ok_def)
  have "sn_round (swarm_step sn CheckLeader) =
      round_step (sn_round sn) (CheckTimeout None (w_clock (sn_world sn) (w_clock_i (sn_world sn))))"
    by (simp add: case_prod_unfold)
  with round_step_bodies [OF rm] have "bodies (sn_round (swarm_step sn CheckLeader)) = bodies (sn_round sn)"
    by (metis Un_empty_right brought.simps(5) subset_antisym)
  then show ?case
    using swarm_check [OF Check(1)] by (simp add: step_ok_def sends_ok_def case_prod_unfold)
next
  case (Forget sn key)
  then show ?case
    by (auto simp: step_ok_def sends_ok_def swarm_ok_def inbox_ok_steps mail.look_drop split: if_splits)
qed


lemma filed_by_mono: "filed_by cd frs key j p \<Longrightarrow> frs \<subseteq> frs' \<Longrightarrow> filed_by cd frs' key j p"
  unfolding filed_by_def by blast

subsection \<open>Runs of one node\<close>

inductive node_run :: "swarm_node \<Rightarrow> (string \<times> string) set \<Rightarrow> swarm_node \<Rightarrow> bool" where
  Rest: "node_run sn {} sn"
| More: "node_run sn frs s \<Longrightarrow> node_step s frs' t \<Longrightarrow> node_run sn (frs \<union> frs') t"

lemma node_run_step: "node_step sn frs s \<Longrightarrow> node_run sn frs s"
  using node_run.More [OF node_run.Rest] by fastforce

lemma node_run_trans:
  assumes "node_run s frs' t" and "node_run sn frs s"
  shows "node_run sn (frs \<union> frs') t"
  using assms
proof (induction arbitrary: sn frs rule: node_run.induct)
  case (More s frs1 u frs2 t)
  from node_run.More [OF More.IH [OF More.prems] More.hyps(2)] show ?case by (simp add: Un_assoc)
qed simp

lemma run_clock: "node_run sn frs s \<Longrightarrow> node_run sn frs (snd (read_clock s))"
  using node_run.More [OF _ node_step.Clock] by fastforce

lemma run_send: "node_run sn frs s \<Longrightarrow> m \<noteq> GEN_START \<Longrightarrow> node_run sn frs (snd (publish_msg s m p))"
  using node_run.More [OF _ node_step.Send] by fastforce

lemma run_forget: "node_run sn frs s \<Longrightarrow> node_run sn frs (s\<lparr>sn_inbox := inbox_drop key (sn_inbox s)\<rparr>)"
  using node_run.More [OF _ node_step.Forget] by fastforce

lemma run_check: "node_run sn frs s \<Longrightarrow> node_run sn frs (swarm_step s CheckLeader)"
  using node_run.More [OF _ node_step.Check] by fastforce

lemma run_pump: "node_run sn frs s \<Longrightarrow> node_run sn (frs \<union> offers s) (snd (pump_once s t))"
  using node_run.More [OF _ node_step.Receive] by fastforce

text \<open>What a run leaves behind: the frames it read are those its polls could return, what is new in
  the inbox came with them, and the rest only grows.\<close>

definition polled :: "swarm_node \<Rightarrow> nat \<Rightarrow> nat \<Rightarrow> (string \<times> string) set" where
  "polled sn i j = {fr. \<exists>k t. i \<le> k \<and> k < j \<and> w_polls (sn_world sn) k t = Some fr}"

lemma node_run_ok:
  assumes "node_run sn frs s" and "swarm_ok sn" and "codec_ok (w_codec (sn_world sn))"
  shows "swarm_ok s \<and> sn_id s = sn_id sn \<and> w_codec (sn_world s) = w_codec (sn_world sn) \<and>
    w_polls (sn_world s) = w_polls (sn_world sn) \<and> w_poll_i (sn_world sn) \<le> w_poll_i (sn_world s) \<and>
    frs \<subseteq> polled sn (w_poll_i (sn_world sn)) (w_poll_i (sn_world s)) \<and>
    set (w_sent (sn_world sn)) \<subseteq> set (w_sent (sn_world s)) \<and>
    (\<forall>key j p. inbox_look (sn_inbox s) key j = Some p \<longrightarrow>
       inbox_look (sn_inbox sn) key j = Some p \<or> filed_by (w_codec (sn_world sn)) frs key j p)"
  using assms
proof (induction rule: node_run.induct)
  case (Rest sn)
  then show ?case by simp
next
  case (More sn frs s frs' t)
  note ih = More.IH [OF More.prems]
  then have step: "step_ok s frs' t" using node_step_ok [OF More.hyps(2)] More.prems by simp
  then have new: "frs' \<subseteq> polled sn (w_poll_i (sn_world s)) (w_poll_i (sn_world t))"
    using ih by (auto simp: step_ok_def polled_def offers_def)
  have "polled sn i j \<subseteq> polled sn i' j'" if "i' \<le> i" "j \<le> j'" for i j i' j'
    using that by (auto simp: polled_def) (meson order.strict_trans2 order_trans)
  note sub = this
  from ih have i: "w_poll_i (sn_world sn) \<le> w_poll_i (sn_world s)" and "w_poll_i (sn_world s) \<le> w_poll_i (sn_world t)"
    using step by (auto simp: step_ok_def)
  with ih sub have frames: "frs \<union> frs' \<subseteq> polled sn (w_poll_i (sn_world sn)) (w_poll_i (sn_world t))"
    using new by (meson Un_least order_refl subset_trans)
  have "inbox_look (sn_inbox sn) key j = Some p \<or> filed_by (w_codec (sn_world sn)) (frs \<union> frs') key j p"
    if "inbox_look (sn_inbox t) key j = Some p" for key j p
  proof -
    have "inbox_look (sn_inbox s) key j = Some p \<or> filed_by (w_codec (sn_world sn)) frs' key j p"
      using step ih that unfolding step_ok_def by metis
    with ih show ?thesis using filed_by_mono by (metis Un_upper1 Un_upper2)
  qed
  moreover have "set (w_sent (sn_world sn)) \<subseteq> set (w_sent (sn_world t))"
    using step ih unfolding step_ok_def by auto
  ultimately show ?case
    using step ih frames unfolding step_ok_def by auto
qed

lemma pump_reads:
  assumes "fst (pump_once s t) = Inr (Some env)"
  shows "\<exists>fr \<in> offers s. says (w_codec (sn_world s)) fr env"
proof (cases s t rule: pump_cases)
  case (idle)
  with assms show ?thesis by simp
next
  case (message env')
  then have "rbind (fst (dispatch (s\<lparr>sn_world := snd (poll_recv (sn_world s) t)\<rparr>) env')) (\<lambda>e. Inr (Some e)) = Inr (Some env)"
    using assms by simp
  then have "env' = env" by (auto simp: rbind_eq_Inr dest: dispatch_Inr)
  with message(1) obtain fr where "w_polls (sn_world s) (w_poll_i (sn_world s)) t = Some fr" "says (w_codec (sn_world s)) fr env"
    by (auto simp: poll_recv_def says_def Let_def rbind_eq_Inr split: option.splits)
  then show ?thesis unfolding offers_def by blast
qed

lemma set_dset_subset: "set (dset k v d) \<subseteq> insert (k, v) (set d)"
  by (induction d) auto

text \<open>What \<open>collect_until\<close> returns was in the inbox when it was called, or came with a frame the call
  read; and the call is a run of the node.\<close>

definition gathered ::
  "swarm_node \<Rightarrow> inbox_key \<Rightarrow> (string \<times> string) set \<Rightarrow> swarm_node \<Rightarrow> (string, payload) dict \<Rightarrow> bool" where
  "gathered sn key frs s d \<longleftrightarrow> node_run sn frs s \<and> dict_ok d \<and> w_codec (sn_world s) = w_codec (sn_world sn) \<and>
     (\<forall>j p. (j, p) \<in> set d \<longrightarrow>
        inbox_look (sn_inbox sn) key j = Some p \<or> filed_by (w_codec (sn_world sn)) frs key j p)"

lemma gathered_clock: "gathered sn key frs s d \<Longrightarrow> gathered sn key frs (snd (read_clock s)) d"
  using run_clock unfolding gathered_def by simp

lemma gathered_forget: "gathered sn key frs s d \<Longrightarrow> gathered sn key frs (s\<lparr>sn_inbox := inbox_drop k (sn_inbox s)\<rparr>) d"
  using run_forget unfolding gathered_def by simp

lemma gathered_pump: "gathered sn key frs s d \<Longrightarrow> gathered sn key (frs \<union> offers s) (snd (pump_once s t)) d"
  using run_pump filed_by_mono [OF _ Un_upper1] unfolding gathered_def by (metis pump_once_fields(3))

lemma gathered_take:
  assumes "gathered sn key frs s (snd acc)" and "fst (pump_once s t) = Inr (Some env)"
    and "fst key \<in> {COMMIT, DISPUTE_SCORE}" and "key_hashable key"
  shows "gathered sn key (frs \<union> offers s) (snd (pump_once s t)) (snd (collect_take key env acc))"
proof (cases "snd (collect_take key env acc) = snd acc")
  case True
  then show ?thesis using gathered_pump [OF assms(1), of t] by simp
next
  case False
  then have key: "payload_key (e_type env) (e_payload env) = key"
    and d: "snd (collect_take key env acc) = dset (e_node_id env) (e_payload env) (snd acc)"
    by (auto simp: collect_take_def Let_def case_prod_unfold split: if_splits)
  have sub: "set (snd (collect_take key env acc)) \<subseteq> insert (e_node_id env, e_payload env) (set (snd acc))"
    unfolding d by (rule set_dset_subset)
  obtain fr where "fr \<in> offers s" "says (w_codec (sn_world sn)) fr env"
    using pump_reads [OF assms(2)] assms(1) by (auto simp: gathered_def)
  moreover have "(key, e_node_id env, e_payload env) \<in> set (filings env)"
    using key assms(3,4) by (auto simp: filings_def Let_def payload_key_def)
  ultimately have "filed_by (w_codec (sn_world sn)) (frs \<union> offers s) key (e_node_id env) (e_payload env)"
    unfolding filed_by_def by blast
  moreover have "dict_ok (snd (collect_take key env acc))" using assms(1) by (simp add: d gathered_def)
  ultimately show ?thesis using sub gathered_pump [OF assms(1), of t] unfolding gathered_def by blast
qed

lemma collect_gathers:
  assumes "collect_until sn m rid q ex t = Some (r, sn')" and "m \<in> {COMMIT, DISPUTE_SCORE}"
    and "inbox_ok (sn_inbox sn)"
  shows "\<exists>frs. gathered sn (m, rid, PInt q) frs sn' (case r of Inl _ \<Rightarrow> [] | Inr received \<Rightarrow> received)"
proof (cases "key_hashable (m, rid, PInt q)")
  case False
  then have "sn' = sn" "r = Inl TypeError" using assms(1) by (simp_all add: collect_until_def)
  moreover have "gathered sn (m, rid, PInt q) {} sn []" using node_run.Rest by (simp add: gathered_def)
  ultimately show ?thesis by auto
next
  case True
  let ?key = "(m, rid, PInt q)" and ?P = "\<lambda>acc :: string set \<times> (string, payload) dict. \<lambda>s. \<exists>frs. gathered sn (m, rid, PInt q) frs s (snd acc)"
  have pump: "case fst (pump_once s 100) of Inr (Some env) \<Rightarrow> ?P (collect_take ?key env acc) (snd (pump_once s 100))
      | _ \<Rightarrow> ?P acc (snd (pump_once s 100))" if "?P acc s" for acc s
    using that gathered_pump gathered_take [OF _ _ _ True] assms(2)
    by (simp split: sum.splits option.splits) blast
  have loop: "\<exists>frs. gathered sn ?key frs s' (case r' of Inl _ \<Rightarrow> [] | Inr received \<Rightarrow> received)"
    if run: "collect_loop ?key d acc s = Some (r', s')" and start: "?P acc s" for d acc s r' s'
  proof -
    have clock: "?P acc (snd (read_clock s))" if "?P acc s" for acc s using that gathered_clock by blast
    have "\<exists>acc'. ?P acc' s' \<and> (\<forall>received. r' = Inr received \<longrightarrow> received = snd acc' \<and>
        (fst acc' = {} \<or> d \<le> w_clock (sn_world s') (w_clock_i (sn_world s') - 1)))"
      by (rule collect_loop_rule [where P = ?P, OF run start]) (rule clock pump, assumption)+
    then obtain acc' where "?P acc' s'" "\<forall>received. r' = Inr received \<longrightarrow> received = snd acc'" by blast
    then show ?thesis by (cases r') (auto simp: gathered_def)
  qed
  let ?d = "filter (\<lambda>(k, v). k \<in> ex) (inbox_bucket (sn_inbox sn) ?key)"
  have "dict_ok (inbox_bucket (sn_inbox sn) ?key)" using assms(3) unfolding inbox_ok_def by blast
  moreover from this have "inbox_look (sn_inbox sn) ?key j = Some p" if "(j, p) \<in> set ?d" for j p
    using that by (auto simp: inbox_look_def)
  moreover have "dict_ok ?d" if "dict_ok (inbox_bucket (sn_inbox sn) ?key)"
    using that by (simp add: distinct_map_filter)
  ultimately have start: "?P (S, ?d) (snd (read_clock sn))" for S
    using run_clock [OF node_run.Rest, of sn] unfolding gathered_def by fastforce
  show ?thesis
    using assms(1) True loop [OF _ start] gathered_forget
    by (auto simp: collect_until_def Let_def case_prod_unfold split: option.splits sum.splits) fastforce+
qed

subsection \<open>The network\<close>

type_synonym swarm = "string \<Rightarrow> swarm_node"

text \<open>Every frame any node has handed to its publishing socket so far.\<close>

definition air :: "string set \<Rightarrow> swarm \<Rightarrow> (string \<times> string) set" where
  "air N net = (\<Union>n \<in> N. set (w_sent (sn_world (net n))))"

text \<open>
  \<open>Elapse\<close>: what the clock of a node will show depends on everything else that goes on. This also covers
  the heartbeat thread: a call during which the thread reads the clock and sends is, for the main
  thread and for all other nodes, the same call on a node that has sent those heartbeats and whose clock
  leaves out the readings they took.
\<close>

inductive net_step :: "string set \<Rightarrow> swarm \<Rightarrow> swarm \<Rightarrow> bool" for N where
  Node: "n \<in> N \<Longrightarrow> node_step (net n) frs s \<Longrightarrow> frs \<subseteq> air N net \<Longrightarrow> net_step N net (net(n := s))"
| Elapse: "n \<in> N \<Longrightarrow> net_step N net (net(n := (net n)\<lparr>sn_world := (sn_world (net n))\<lparr>w_clock := c, w_clock_i := i\<rparr>\<rparr>))"

text \<open>All that matters of a step of the network: it is one of a single node.\<close>

lemma net_stepE:
  assumes "net_step N net net'" and "codec_ok cd"
    and "\<And>n. n \<in> N \<Longrightarrow> swarm_ok (net n) \<and> w_codec (sn_world (net n)) = cd"
  obtains m frs s where "m \<in> N" and "step_ok (net m) frs s" and "frs \<subseteq> air N net" and "net' = net(m := s)"
  using assms(1)
proof cases
  case (Node m frs s)
  with assms(2,3) node_step_ok show ?thesis by (intro that) auto
next
  case (Elapse m i c)
  with assms(3) have "step_ok (net m) {} ((net m)\<lparr>sn_world := (sn_world (net m))\<lparr>w_clock := c, w_clock_i := i\<rparr>\<rparr>)"
    by (simp add: step_ok_def sends_ok_def swarm_ok_def)
  with Elapse show ?thesis by (intro that) auto
qed

definition fresh_node :: "codec \<Rightarrow> string \<Rightarrow> swarm_node \<Rightarrow> bool" where
  "fresh_node cd n sn \<longleftrightarrow>
     (\<exists>w relays. SwarmNode w n relays = Inr sn \<and> w_codec w = cd \<and> w_sent w = [] \<and> w_poll_i w = 0)"

inductive reachable :: "string set \<Rightarrow> codec \<Rightarrow> swarm \<Rightarrow> bool" for N cd where
  Init: "(\<And>n. n \<in> N \<Longrightarrow> fresh_node cd n (net n)) \<Longrightarrow> reachable N cd net"
| Step: "reachable N cd net \<Longrightarrow> net_step N net net' \<Longrightarrow> reachable N cd net'"

definition owner :: "round_body \<Rightarrow> string" where
  "owner b = fst (snd b)"

text \<open>
  The invariant, for each node: it is sound; what it sent is its own; what lies in its inbox, and
  every frame it could have read, was sent; the rounds it knows are known to their leaders; and
  its own rounds have different identifiers, which name it.
\<close>

definition node_inv :: "string set \<Rightarrow> codec \<Rightarrow> swarm \<Rightarrow> string \<Rightarrow> bool" where
  "node_inv N cd net n \<longleftrightarrow> (let sn = net n; known = bodies (sn_round sn) in
     sn_id sn = n \<and> swarm_ok sn \<and> w_codec (sn_world sn) = cd \<and> sends_ok sn (set (w_sent (sn_world sn))) \<and>
     (\<forall>key j p. inbox_look (sn_inbox sn) key j = Some p \<longrightarrow> filed_by cd (air N net) key j p) \<and>
     (\<forall>i < w_poll_i (sn_world sn). \<forall>t fr. w_polls (sn_world sn) i t = Some fr \<longrightarrow> fr \<in> air N net) \<and>
     (\<forall>b \<in> known. owner b \<in> N \<and> b \<in> bodies (sn_round (net (owner b)))) \<and>
     (\<forall>b \<in> known. \<forall>b' \<in> known. owner b = n \<and> owner b' = n \<and> fst b = fst b' \<longrightarrow> b = b') \<and>
     (\<forall>b \<in> known. owner b = n \<longrightarrow> (\<exists>h. length h = 8 \<and> fst b = PStr (n @ '':'' @ h))))"

lemma owner_announced: "b \<in> announced env \<Longrightarrow> owner b = e_node_id env"
  by (auto simp: announced_def owner_def)

lemma says_unique: "says cd fr env \<Longrightarrow> says cd fr env' \<Longrightarrow> env = env'"
  by (simp add: says_def)

lemma fresh_node_inv:
  assumes "\<And>n. n \<in> N \<Longrightarrow> fresh_node cd n (net n)" and "n \<in> N"
  shows "node_inv N cd net n"
proof -
  obtain w relays where init: "SwarmNode w n relays = Inr (net n)" and w: "w_codec w = cd" "w_sent w = []" "w_poll_i w = 0"
    using assms unfolding fresh_node_def by blast
  obtain tr where "net n = \<lparr>sn_id = n, sn_transport = tr, sn_world = w, sn_peers = PeerTable n PEER_TIMEOUT,
      sn_round = RoundManager n, sn_inbox = []\<rparr>"
    using init by (auto simp: SwarmNode_def rbind_eq_Inr eq_commute [of _ "net n"])
  then have "sn_id (net n) = n" "sn_world (net n) = w" "sn_round (net n) = RoundManager n" "sn_inbox (net n) = []"
    by simp_all
  with w swarm_ok_init [OF init] show ?thesis
    by (simp add: node_inv_def sends_ok_def mail.look_empty bodies_def RoundManager_def)
qed

lemma air_source:
  assumes "\<And>n. n \<in> N \<Longrightarrow> node_inv N cd net n" and "fr \<in> air N net" and "says cd fr env"
  shows "e_node_id env \<in> N" and "fr \<in> set (w_sent (sn_world (net (e_node_id env))))"
    and "e_type env = GEN_START \<Longrightarrow> announced env \<subseteq> bodies (sn_round (net (e_node_id env)))"
proof -
  obtain n where n: "n \<in> N" "fr \<in> set (w_sent (sn_world (net n)))" using assms(2) by (auto simp: air_def)
  with assms(1) [OF n(1)] obtain env' where "says cd fr env'" "e_node_id env' = n"
      "e_type env' = GEN_START \<longrightarrow> announced env' \<subseteq> bodies (sn_round (net n))"
    unfolding node_inv_def sends_ok_def Let_def by metis
  with says_unique [OF assms(3)] n show "e_node_id env \<in> N"
    and "fr \<in> set (w_sent (sn_world (net (e_node_id env))))"
    and "e_type env = GEN_START \<Longrightarrow> announced env \<subseteq> bodies (sn_round (net (e_node_id env)))"
    by blast+
qed

lemma sends_ok_later:
  assumes "sends_ok sn A" and "sn_id sn' = sn_id sn" and "w_codec (sn_world sn') = w_codec (sn_world sn)"
    and "bodies (sn_round sn) \<subseteq> bodies (sn_round sn')"
  shows "sends_ok sn' A"
  unfolding sends_ok_def
proof
  fix fr assume "fr \<in> A"
  with assms(1) obtain env where "says (w_codec (sn_world sn)) fr env" "e_node_id env = sn_id sn"
      "e_type env = GEN_START \<longrightarrow> announced env \<subseteq> bodies (sn_round sn)"
    unfolding sends_ok_def by blast
  with assms(2-4) show "\<exists>env. says (w_codec (sn_world sn')) fr env \<and> e_node_id env = sn_id sn' \<and>
      (e_type env = GEN_START \<longrightarrow> announced env \<subseteq> bodies (sn_round sn'))" by auto
qed

text \<open>One step of one node keeps the invariant of all nodes, part by part.\<close>

lemma brought_known:
  assumes "\<And>n. n \<in> N \<Longrightarrow> node_inv N cd net n" and "frs \<subseteq> air N net" and "b \<in> brought_by cd frs"
  shows "owner b \<in> N \<and> b \<in> bodies (sn_round (net (owner b)))"
proof -
  obtain fr env where fr: "fr \<in> frs" "says cd fr env" "e_type env = GEN_START" "b \<in> announced env"
    using assms(3) unfolding brought_by_def by blast
  then have "fr \<in> air N net" using assms(2) by blast
  from air_source [OF assms(1) this fr(2)] fr(3,4) owner_announced [OF fr(4)] show ?thesis by auto
qed

text \<open>What \<open>node_inv\<close> says about the rounds a node knows.\<close>

definition rounds_inv :: "string set \<Rightarrow> swarm \<Rightarrow> string \<Rightarrow> round_body set \<Rightarrow> bool" where
  "rounds_inv N net n known \<longleftrightarrow>
     (\<forall>b \<in> known. owner b \<in> N \<and> b \<in> bodies (sn_round (net (owner b)))) \<and>
     (\<forall>b \<in> known. \<forall>b' \<in> known. owner b = n \<and> owner b' = n \<and> fst b = fst b' \<longrightarrow> b = b') \<and>
     (\<forall>b \<in> known. owner b = n \<longrightarrow> (\<exists>h. length h = 8 \<and> fst b = PStr (n @ '':'' @ h)))"

lemma rounds_inv_bring:
  assumes "rounds_inv N net n old" and "known \<subseteq> old \<union> new" and "\<And>k. bodies (sn_round (net k)) \<subseteq> bodies (sn_round (net' k))"
    and "\<And>b. b \<in> new \<Longrightarrow> owner b \<in> N \<and> b \<in> bodies (sn_round (net (owner b)))" and "bodies (sn_round (net n)) = old"
  shows "rounds_inv N net' n known"
proof -
  have own: "b \<in> old" if "b \<in> known" "owner b = n" for b
    using assms(2) assms(4) [of b] assms(5) that by (metis Un_iff subsetD)
  have "owner b \<in> N \<and> b \<in> bodies (sn_round (net' (owner b)))" if "b \<in> known" for b
  proof -
    from that assms(2) have "owner b \<in> N \<and> b \<in> bodies (sn_round (net (owner b)))"
      using assms(1,4) unfolding rounds_inv_def by blast
    with assms(3) show ?thesis by blast
  qed
  with own assms(1) show ?thesis unfolding rounds_inv_def by blast
qed

lemma rounds_inv_start:
  assumes "rounds_inv N net n old" and "known = insert b old" and "\<And>k. bodies (sn_round (net k)) \<subseteq> bodies (sn_round (net' k))"
    and "n \<in> N" and "owner b = n" and "fst b = PStr (n @ '':'' @ h)" and "length h = 8" and "fst b \<notin> fst ` old"
    and "b \<in> bodies (sn_round (net' n))"
  shows "rounds_inv N net' n known"
proof -
  have old: "\<forall>b \<in> old. owner b \<in> N \<and> b \<in> bodies (sn_round (net (owner b)))"
      "\<forall>b \<in> old. \<forall>b' \<in> old. owner b = n \<and> owner b' = n \<and> fst b = fst b' \<longrightarrow> b = b'"
      "\<forall>b \<in> old. owner b = n \<longrightarrow> (\<exists>h. length h = 8 \<and> fst b = PStr (n @ '':'' @ h))"
    using assms(1) unfolding rounds_inv_def by blast+
  have "\<forall>b' \<in> known. owner b' \<in> N \<and> b' \<in> bodies (sn_round (net' (owner b')))"
    unfolding assms(2) using old(1) assms(3-5,9) by (metis insertE subsetD)
  moreover have "fst b' \<noteq> fst b" if "b' \<in> old" for b' using assms(8) that by (metis image_eqI)
  then have "\<forall>c \<in> known. \<forall>c' \<in> known. owner c = n \<and> owner c' = n \<and> fst c = fst c' \<longrightarrow> c = c'"
    unfolding assms(2) using old(2) by (metis insertE)
  moreover have "\<forall>c \<in> known. owner c = n \<longrightarrow> (\<exists>h. length h = 8 \<and> fst c = PStr (n @ '':'' @ h))"
    unfolding assms(2) using old(3) assms(6,7) by (metis insertE)
  ultimately show ?thesis unfolding rounds_inv_def by blast
qed

lemma step_rounds:
  assumes inv: "\<And>n. n \<in> N \<Longrightarrow> node_inv N cd net n" and n: "n \<in> N"
    and step: "step_ok (net n) frs s" and frs: "frs \<subseteq> air N net"
  shows "rounds_inv N (net(n := s)) n (bodies (sn_round s))"
proof -
  let ?old = "bodies (sn_round (net n))" and ?net' = "net(n := s)"
  have id: "sn_id (net n) = n" and cd: "w_codec (sn_world (net n)) = cd" and old: "rounds_inv N net n ?old"
    using inv [OF n] by (simp_all add: node_inv_def rounds_inv_def Let_def)
  have grow: "bodies (sn_round (net k)) \<subseteq> bodies (sn_round (?net' k))" for k
    using step by (simp add: step_ok_def)
  have "bodies (sn_round s) \<subseteq> ?old \<union> brought_by cd frs \<or>
    (\<exists>hex ps prmpt gcfg. 8 \<le> length hex \<and> new_round_id (net n) hex \<notin> fst ` ?old \<and>
       bodies (sn_round s) = insert (new_round_id (net n) hex, n, ps, prmpt, gcfg) ?old)"
    using step unfolding step_ok_def cd id by blast
  then show ?thesis
  proof
    assume "bodies (sn_round s) \<subseteq> ?old \<union> brought_by cd frs"
    from rounds_inv_bring [of _ _ _ _ _ _ ?net', OF old this grow brought_known [OF inv frs] refl] show ?thesis .
  next
    assume "\<exists>hex ps prmpt gcfg. 8 \<le> length hex \<and> new_round_id (net n) hex \<notin> fst ` ?old \<and>
       bodies (sn_round s) = insert (new_round_id (net n) hex, n, ps, prmpt, gcfg) ?old"
    then obtain hex ps prmpt gcfg where h: "8 \<le> length hex" "new_round_id (net n) hex \<notin> fst ` ?old"
      and known: "bodies (sn_round s) = insert (new_round_id (net n) hex, n, ps, prmpt, gcfg) ?old" by blast
    let ?b = "(new_round_id (net n) hex, n, ps, prmpt, gcfg)"
    have b: "owner ?b = n" "fst ?b = PStr (n @ '':'' @ take 8 hex)" "length (take 8 hex) = 8" "fst ?b \<notin> fst ` ?old"
      using h id by (simp_all add: owner_def new_round_id_def)
    have "?b \<in> bodies (sn_round (?net' n))" using known by simp
    from rounds_inv_start [of _ _ _ _ _ _ ?net', OF old known grow n b(1,2,3,4) this] show ?thesis .
  qed
qed

lemma step_mail:
  assumes "node_inv N cd net n" and "step_ok (net n) frs s" and "frs \<subseteq> air N net" and "air N net \<subseteq> A"
    and "inbox_look (sn_inbox s) key j = Some p"
  shows "filed_by cd A key j p"
proof -
  have cd: "w_codec (sn_world (net n)) = cd" using assms(1) by (simp add: node_inv_def Let_def)
  have "filed_by cd (air N net) key j p"
    using assms(1,2,5) filed_by_mono [OF _ assms(3)] unfolding step_ok_def node_inv_def Let_def cd by blast
  then show ?thesis by (rule filed_by_mono [OF _ assms(4)])
qed

lemma step_polls:
  assumes "node_inv N cd net n" and step: "step_ok (net n) frs s" and "frs \<subseteq> air N net" and "air N net \<subseteq> A"
    and i: "i < w_poll_i (sn_world s)" and fr: "w_polls (sn_world s) i t = Some fr"
  shows "fr \<in> A"
proof -
  have pl: "w_polls (sn_world s) = w_polls (sn_world (net n))" using step by (simp add: step_ok_def)
  have "i < w_poll_i (sn_world (net n)) \<or> frs = offers (net n) \<and> i = w_poll_i (sn_world (net n))"
    using step i by (auto simp: step_ok_def less_Suc_eq)
  then have "fr \<in> air N net"
  proof
    assume "i < w_poll_i (sn_world (net n))"
    with assms(1) fr pl show ?thesis unfolding node_inv_def Let_def by metis
  next
    assume "frs = offers (net n) \<and> i = w_poll_i (sn_world (net n))"
    then have "fr \<in> frs" using fr pl unfolding offers_def by auto
    with assms(3) show ?thesis by blast
  qed
  with assms(4) show ?thesis by blast
qed

lemma step_sends:
  assumes "node_inv N cd net n" and step: "step_ok (net n) frs s"
  shows "sends_ok s (set (w_sent (sn_world s)))"
proof -
  obtain new where sent: "w_sent (sn_world s) = w_sent (sn_world (net n)) @ new" and new: "sends_ok s (set new)"
    using step unfolding step_ok_def by blast
  have "sends_ok (net n) (set (w_sent (sn_world (net n))))" using assms(1) by (simp add: node_inv_def Let_def)
  then have "sends_ok s (set (w_sent (sn_world (net n))))"
    by (rule sends_ok_later) (use step in \<open>simp_all add: step_ok_def\<close>)
  with new show ?thesis by (auto simp: sends_ok_def sent)
qed

lemma step_inv:
  assumes inv: "\<And>n. n \<in> N \<Longrightarrow> node_inv N cd net n" and n: "n \<in> N"
    and step: "step_ok (net n) frs s" and frs: "frs \<subseteq> air N net" and net': "net' = net(n := s)" and m: "m \<in> N"
  shows "node_inv N cd net' m"
proof -
  have "set (w_sent (sn_world (net n))) \<subseteq> set (w_sent (sn_world s))" using step by (auto simp: step_ok_def)
  then have air: "air N net \<subseteq> air N net'" by (fastforce simp: air_def net')
  have grow: "bodies (sn_round (net k)) \<subseteq> bodies (sn_round (net' k))" for k
    using step by (simp add: net' step_ok_def)
  show ?thesis
  proof (cases "m = n")
    case False
    then have same: "net' m = net m" by (simp add: net')
    show ?thesis
      using inv [OF m] air grow filed_by_mono [OF _ air] unfolding node_inv_def Let_def same by blast
  next
    case True
    have "sn_id s = n \<and> swarm_ok s \<and> w_codec (sn_world s) = cd"
      using step inv [OF n] by (simp add: step_ok_def node_inv_def Let_def)
    with True step_rounds [OF inv n step frs] step_sends [OF inv [OF n] step]
      step_mail [OF inv [OF n] step frs air] step_polls [OF inv [OF n] step frs air]
    show ?thesis unfolding node_inv_def rounds_inv_def Let_def net' by simp
  qed
qed


lemma reachable_inv: "reachable N cd net \<Longrightarrow> codec_ok cd \<Longrightarrow> n \<in> N \<Longrightarrow> node_inv N cd net n"
proof (induction arbitrary: n rule: reachable.induct)
  case (Init net)
  then show ?case by (blast intro: fresh_node_inv)
next
  case (Step net net')
  have "swarm_ok (net m) \<and> w_codec (sn_world (net m)) = cd" if "m \<in> N" for m
    using Step.IH [OF Step.prems(1) that] by (simp add: node_inv_def Let_def)
  from Step.hyps(2) Step.prems(1) this show ?case
  proof (rule net_stepE)
    fix m frs s
    assume m: "m \<in> N" and s: "step_ok (net m) frs s" and frs: "frs \<subseteq> air N net" and net': "net' = net(m := s)"
    from step_inv [OF Step.IH [OF Step.prems(1)] m s frs net' Step.prems(2)] show ?thesis .
  qed
qed

text \<open>The rule for what a step of a reachable network does.\<close>

lemma reachable_stepE:
  assumes "net_step N net net'" and "reachable N cd net" and "codec_ok cd"
  obtains m frs s where "m \<in> N" and "step_ok (net m) frs s" and "frs \<subseteq> air N net" and "net' = net(m := s)"
  by (rule net_stepE [OF assms(1,3)])
    (use reachable_inv [OF assms(2,3)] in \<open>simp_all add: node_inv_def Let_def\<close>)

lemma rounds_known_once:
  assumes "reachable N cd net" and "codec_ok cd" and "n \<in> N" and "m \<in> N"
    and "b \<in> bodies (sn_round (net n))" and "b' \<in> bodies (sn_round (net m))" and "fst b = fst b'"
  shows "b = b'"
proof -
  have o: "owner c \<in> N \<and> c \<in> bodies (sn_round (net (owner c))) \<and> (\<exists>h. length h = 8 \<and> fst c = PStr (owner c @ '':'' @ h))"
    if "k \<in> N" "c \<in> bodies (sn_round (net k))" for k c
  proof -
    have "owner c \<in> N \<and> c \<in> bodies (sn_round (net (owner c)))"
      using reachable_inv [OF assms(1,2) that(1)] that(2) unfolding node_inv_def Let_def by blast
    with reachable_inv [OF assms(1,2), of "owner c"] show ?thesis unfolding node_inv_def Let_def by blast
  qed
  from o [OF assms(3,5)] o [OF assms(4,6)] assms(7) have "owner b = owner b'" by auto
  with o [OF assms(3,5)] o [OF assms(4,6)] reachable_inv [OF assms(1,2), of "owner b"] assms(7)
  show ?thesis unfolding node_inv_def Let_def by metis
qed

subsection \<open>A network of two nodes\<close>

definition pair_codec :: codec where
  "pair_codec = table_codec [(''body'', \<lparr>e_type = GEN_START, e_node_id = ''a'', e_ts = 0,
     e_payload = start_payload (PStr ''a:01234567'', ''a'', [''a'', ''b''], PStr ''hi'', PDict [])\<rparr>)]"

definition pair_net :: swarm where
  "pair_net n = \<lparr>sn_id = n, sn_transport = \<lparr>tr_pub = [tcp_addr ''relay'' 5555], tr_sub = [tcp_addr ''relay'' 5556],
       tr_subscribe = [''''], tr_open = True\<rparr>,
     sn_world = \<lparr>w_codec = pair_codec, w_clock = (\<lambda>_. 0), w_clock_i = 0,
       w_polls = (\<lambda>_ _. Some (''a'', ''body'')), w_poll_i = 0, w_sent = []\<rparr>,
     sn_peers = PeerTable n PEER_TIMEOUT, sn_round = RoundManager n, sn_inbox = []\<rparr>"

lemma pair_start:
  "snd (start_round_as_leader (pair_net ''a'') [''b'', ''a''] (PStr ''hi'') (PDict []) ''0123456789abcdef'') =
   (pair_net ''a'')\<lparr>sn_world := (sn_world (pair_net ''a''))\<lparr>w_clock_i := 3, w_sent := [(''a'', ''body'')]\<rparr>,
     sn_round := set_new_round \<lparr>round_id = PStr ''a:01234567'', leader_id = ''a'', participants = [''a'', ''b''],
       prompt = PStr ''hi'', gen_config = PDict [], started_at = 0, last_leader_seen = 0, status = Active\<rparr> (RoundManager ''a'')\<rparr>"
  by (simp add: pair_net_def start_round_as_leader_def read_clock_def time_time_def publish_msg_def publish_def pbind_def
      encode_def pair_codec_def table_codec_def start_payload_def start_round_def RoundManager_def active_round_def Let_def
      set_new_round_def)

lemma pair_receive:
  "sn_round (snd (pump_once (pair_net ''b'') 100)) =
   set_new_round \<lparr>round_id = PStr ''a:01234567'', leader_id = ''a'', participants = [''a'', ''b''],
       prompt = PStr ''hi'', gen_config = PDict [], started_at = 0, last_leader_seen = 0, status = Active\<rparr> (RoundManager ''b'')"
  by (simp add: pair_net_def pump_once_def poll_recv_def pbind_def pair_codec_def table_codec_def decode_def
      dispatch_def start_payload_def read_clock_def time_time_def note_sender_def on_gen_start_def active_round_def
      RoundManager_def sorted_strs_def pay_item_def note_leader_activity_def mutate_active_def set_new_round_def rbind_def
      Let_def)

lemma pair_reachable: "reachable {''a'', ''b''} pair_codec pair_net" "codec_ok pair_codec"
proof -
  show "codec_ok pair_codec" by (simp add: pair_codec_def table_codec_ok)
  show "reachable {''a'', ''b''} pair_codec pair_net"
  proof (rule reachable.Init)
    fix n
    have "SwarmNode (sn_world (pair_net n)) n [(''relay'', 5555, 5556)] = Inr (pair_net n)"
      by (simp add: SwarmNode_def transport_all_relays pair_net_def)
    then show "fresh_node pair_codec n (pair_net n)"
      unfolding fresh_node_def by (intro exI [of _ "sn_world (pair_net n)"] exI) (auto simp: pair_net_def)
  qed
qed

text \<open>One starts a round, the other reads of it.\<close>

lemma pair_round:
  assumes "rs = \<lparr>round_id = PStr ''a:01234567'', leader_id = ''a'', participants = [''a'', ''b''],
       prompt = PStr ''hi'', gen_config = PDict [], started_at = 0, last_leader_seen = 0, status = Active\<rparr>"
  shows "\<exists>net. reachable {''a'', ''b''} pair_codec net \<and> rs \<in> set (rm_heap (sn_round (net ''a''))) \<and>
    rs \<in> set (rm_heap (sn_round (net ''b'')))"
proof -
  let ?N = "{''a'', ''b''}"
  let ?n1 = "pair_net(''a'' := snd (start_round_as_leader (pair_net ''a'') [''b'', ''a''] (PStr ''hi'') (PDict []) ''0123456789abcdef''))"
  let ?n2 = "?n1(''b'' := snd (pump_once (pair_net ''b'') 100))"
  have "net_step ?N pair_net ?n1"
    by (rule net_step.Node [OF _ node_step.Start]) (simp_all add: pair_net_def RoundManager_def)
  with pair_reachable(1) have r1: "reachable ?N pair_codec ?n1" by (rule reachable.Step)
  have "offers (pair_net ''b'') = {(''a'', ''body'')}" by (simp add: offers_def pair_net_def)
  moreover have "node_step (?n1 ''b'') (offers (pair_net ''b'')) (snd (pump_once (pair_net ''b'') 100))"
    using node_step.Receive [of "pair_net ''b''" 100] by simp
  ultimately have "net_step ?N ?n1 ?n2" by (intro net_step.Node) (auto simp: air_def pair_start)
  with r1 have r2: "reachable ?N pair_codec ?n2" by (rule reachable.Step)
  then show ?thesis
    by (intro exI [of _ ?n2]) (simp add: assms pair_start pair_receive set_new_round_def)
qed


subsection \<open>Properties\<close>

text \<open>C25: every node that exists in a network is well formed. Whatever was started, sent, lost, repeated
  and read in whatever order, each node still has its own id everywhere, a peer table
  without duplicates, a heap of rounds whose active one, if any, is the newest, and an inbox in
  which every message lies under the type, round and sync it carries, at most one per sender.\<close>

theorem network_well_formed:
  assumes "reachable N cd net" and "codec_ok cd" and "n \<in> N"
  shows "sn_id (net n) = n \<and> pt_self_id (sn_peers (net n)) = n \<and> rm_self_id (sn_round (net n)) = n \<and>
    peers_ok (sn_peers (net n)) \<and> rm_ok (sn_round (net n)) \<and> inbox_ok (sn_inbox (net n))"
  using reachable_inv [OF assms] by (simp add: node_inv_def swarm_ok_def Let_def)

theorem network_well_formed_witness:
  "pt_self_id (sn_peers (pair_net ''a'')) = ''a'' \<and> rm_ok (sn_round (pair_net ''a''))"
  using network_well_formed [OF pair_reachable, of "''a''"] by simp

text \<open>C9: the swarm agrees about its rounds. In any network the program can reach, two rounds with the same
  identifier, known to any two nodes, current or over, first-hand or from a \<open>GEN_START\<close> that came late
  or twice, have the same leader, participants, prompt and configuration.\<close>

theorem round_agreement:
  assumes "reachable N cd net" and "codec_ok cd" and "n \<in> N" and "m \<in> N"
    and "rs \<in> set (rm_heap (sn_round (net n)))" and "rs' \<in> set (rm_heap (sn_round (net m)))"
    and "round_id rs = round_id rs'"
  shows "leader_id rs = leader_id rs' \<and> participants rs = participants rs' \<and> prompt rs = prompt rs' \<and>
    gen_config rs = gen_config rs'"
proof -
  have "round_body rs = round_body rs'"
    by (rule rounds_known_once [OF assms(1-4)])
      (use assms(5-7) in \<open>simp_all add: bodies_def\<close>, simp add: round_body_def)
  then show ?thesis by (simp add: round_body_def)
qed

theorem round_agreement_witness:
  "\<exists>net rs rs'. reachable {''a'', ''b''} pair_codec net \<and> rs \<in> set (rm_heap (sn_round (net ''a''))) \<and>
     rs' \<in> set (rm_heap (sn_round (net ''b''))) \<and> leader_id rs = leader_id rs' \<and>
     participants rs = participants rs' \<and> prompt rs = prompt rs' \<and> gen_config rs = gen_config rs'"
proof -
  obtain net and rs :: round_state where net: "reachable {''a'', ''b''} pair_codec net"
      "rs \<in> set (rm_heap (sn_round (net ''a'')))" "rs \<in> set (rm_heap (sn_round (net ''b'')))"
    using pair_round [OF refl] by blast
  from net round_agreement [OF net(1) pair_reachable(2) _ _ net(2,3)] show ?thesis by blast
qed

end
