(* ===== verification/Generation_Steps.thy ===== *)
theory Generation_Steps imports Network Completeness begin

section \<open>A generation is a run of its node\<close>

text \<open>
  \<open>Generation.run_round\<close> is one function from the state of a node to the state it ends in, the
  polls in between included. \<open>Network.node_step\<close> is the abstract view of a node: it reads its clock,
  polls once, sends a message, looks after its leader, or takes messages out of its inbox. This
  theory proves that the first refines the second, function by function and for every result,
  exceptions and the abort of a failed round included: what holds of all runs of steps
  (\<open>node_run\<close>), and so of all networks of such nodes, holds of nodes that generate.
\<close>

subsection \<open>One exchange\<close>

lemma msg_send [simp]: "COMMIT \<noteq> GEN_START" "DISPUTE_SCORE \<noteq> GEN_START" "GEN_DONE \<noteq> GEN_START"
  by simp_all

lemma exchange_gathers:
  assumes "exchange m payload rid q others sn = Some (r, sn')" and "m \<in> {COMMIT, DISPUTE_SCORE}" and "swarm_ok sn"
  shows "\<exists>frs. gathered sn (m, rid, PInt q) frs sn' (case r of Inl _ \<Rightarrow> [] | Inr received \<Rightarrow> received)"
proof -
  have m: "m \<noteq> GEN_START" using assms(2) by auto
  note send = run_send [OF node_run.Rest m, of sn "Some payload"]
  show ?thesis
  proof (cases "fst (publish_msg sn m (Some payload))")
    case (Inl e)
    with assms(1) have "r = Inl e" "sn' = snd (publish_msg sn m (Some payload))"
      by (auto simp: exchange_def tbind_def split: prod.splits)
    with send show ?thesis by (auto simp: gathered_def)
  next
    case (Inr u)
    let ?s = "snd (publish_msg sn m (Some payload))"
    have "collect_until ?s m rid q others SYNC_BARRIER_TIMEOUT = Some (r, sn')"
      using assms(1) Inr by (auto simp: exchange_def tbind_def split: prod.splits)
    moreover have "inbox_ok (sn_inbox ?s)" using assms(3) by (simp add: swarm_ok_def)
    ultimately obtain frs where g: "gathered ?s (m, rid, PInt q) frs sn' (case r of Inl _ \<Rightarrow> [] | Inr received \<Rightarrow> received)"
      using collect_gathers assms(2) by blast
    then have "node_run sn ({} \<union> frs) sn'" using node_run_trans [OF _ send] by (auto simp: gathered_def)
    with g show ?thesis by (auto simp: gathered_def)
  qed
qed

text \<open>A computation that is a run of the node it starts from.\<close>

definition runs_from :: "swarm_node \<Rightarrow> ('a result \<times> swarm_node) option \<Rightarrow> bool" where
  "runs_from sn m \<longleftrightarrow> (\<forall>r s. m = Some (r, s) \<longrightarrow> (\<exists>frs. node_run sn frs s))"

lemma runs_Some: "\<exists>frs. node_run sn frs s \<Longrightarrow> runs_from sn (Some (r, s))"
  by (simp add: runs_from_def)

lemma runs_Some_pair: "\<exists>frs. node_run sn frs (snd p) \<Longrightarrow> runs_from sn (Some p)"
  by (cases p) (auto simp: runs_from_def)

lemma runs_bind:
  assumes "runs_from sn m" and "\<And>x s. \<exists>frs. node_run sn frs s \<Longrightarrow> runs_from sn (f x s)"
  shows "runs_from sn (tbind m f)"
  using assms unfolding runs_from_def tbind_def by (auto split: option.splits sum.splits prod.splits)

lemma runs_exchange:
  assumes "\<exists>frs. node_run sn frs s" and "m \<in> {COMMIT, DISPUTE_SCORE}" and "swarm_ok sn" and "codec_ok (w_codec (sn_world sn))"
  shows "runs_from sn (exchange m payload rid q others s)"
  unfolding runs_from_def
proof (intro allI impI)
  fix r s' assume run: "exchange m payload rid q others s = Some (r, s')"
  obtain frs where frs: "node_run sn frs s" using assms(1) by blast
  have "swarm_ok s" using node_run_ok [OF frs assms(3,4)] by blast
  then obtain frs' where "gathered s (m, rid, PInt q) frs' s' (case r of Inl _ \<Rightarrow> [] | Inr received \<Rightarrow> received)"
    using exchange_gathers [OF run assms(2)] by blast
  then show "\<exists>frs. node_run sn frs s'" using node_run_trans [OF _ frs] by (auto simp: gathered_def)
qed

lemma runs_settle:
  assumes "\<exists>frs. node_run sn frs s" and "swarm_ok sn" "codec_ok (w_codec (sn_world sn))"
  shows "runs_from sn (settle_disputes py rid q others p ds s)"
  unfolding settle_disputes_def using assms by (intro runs_bind runs_Some runs_exchange) auto

lemma runs_do_sync:
  assumes "\<exists>frs. node_run sn frs s" and "swarm_ok sn" "codec_ok (w_codec (sn_world sn))"
  shows "runs_from sn (do_sync py rid q others c p x gs ge sd s)"
  unfolding do_sync_def Let_def using assms
  by (intro runs_bind runs_Some runs_exchange)
    (auto intro!: runs_bind runs_Some runs_settle split: prod.splits)

lemma run_checked:
  assumes "\<exists>frs. node_run sn frs s"
  shows "\<exists>frs. node_run sn frs ((snd (read_clock s))\<lparr>sn_round :=
    snd (check_leader_timeout (sn_round (snd (read_clock s))) None (fst (read_clock s)))\<rparr>)"
proof -
  obtain frs where "node_run sn frs s" using assms by blast
  from run_check [OF this] show ?thesis by (auto simp: case_prod_unfold)
qed

lemma runs_gen_step:
  assumes "\<exists>frs. node_run sn frs s" and ok: "swarm_ok sn" "codec_ok (w_codec (sn_world sn))"
  shows "runs_from sn (gen_step ru cfg rid others gs ge bs be spb i lv s)"
  unfolding gen_step_def
proof (rule runs_bind, goal_cases)
  case 1
  have "\<exists>frs. node_run sn frs (snd (pump_once s 10))" using assms(1) run_pump by blast
  then show ?case by (rule runs_Some_pair)
next
  case (2 x s)
  note checked = run_checked [OF this, simplified]
  show ?case
    unfolding Let_def case_prod_unfold
    by (auto intro!: runs_bind runs_Some runs_do_sync checked ok)
qed

lemma runs_steps_loop:
  assumes "\<And>i lv s. \<exists>frs. node_run sn frs s \<Longrightarrow> runs_from sn (step i lv s)" and "\<exists>frs. node_run sn frs s"
  shows "runs_from sn (steps_loop step is lv s)"
  using assms(2)
proof (induction "is" arbitrary: lv s)
  case (Cons i "is")
  show ?case
    unfolding steps_loop.simps
    by (rule runs_bind [OF assms(1) [OF Cons.prems]]) (auto intro: runs_Some Cons.IH split: option.splits)
qed (simp add: runs_Some)

lemma runs_blocks_loop:
  assumes "\<exists>frs. node_run sn frs s" and ok: "swarm_ok sn" "codec_ok (w_codec (sn_world sn))"
  shows "runs_from sn (blocks_loop ru cfg rid others gs ge spb bs lv s)"
  using assms(1)
proof (induction bs arbitrary: lv s)
  case (Cons b bs)
  have "runs_from sn (tbind (steps_loop (gen_step ru cfg rid others gs ge start stop spb) [0..<spb] lv1 s)
      (\<lambda>r sn. case r of None \<Rightarrow> Some (Inr None, sn)
          | Some lv \<Rightarrow> blocks_loop ru cfg rid others gs ge spb bs lv sn))" for start stop lv1
    by (rule runs_bind [OF runs_steps_loop [OF runs_gen_step [OF _ ok] Cons.prems]])
      (auto intro: runs_Some Cons.IH split: option.splits)
  then show ?case using Cons.prems by (auto simp: Let_def intro: runs_Some)
qed (simp add: runs_Some)

lemma runs_run_round:
  assumes "swarm_ok sn" and "codec_ok (w_codec (sn_world sn))"
  shows "runs_from sn (run_round ru prompt_ids cfg sn)"
proof -
  have start: "\<exists>frs. node_run sn frs sn" using node_run.Rest by blast
  have send: "runs_from sn (Some (publish_msg s GEN_DONE p))" if "\<exists>frs. node_run sn frs s" for s p
    using that run_send [OF _ msg_send(3)] by (intro runs_Some_pair) blast
  show ?thesis
    unfolding run_round_def Let_def
    by (auto intro!: runs_Some runs_bind runs_blocks_loop start send assms split: option.splits)
qed

text \<open>The frames of a run are frames the node polled.\<close>

lemma runs_from_polled:
  assumes "runs_from sn (Some (r, s))" and "swarm_ok sn" and "codec_ok (w_codec (sn_world sn))"
  shows "\<exists>frs. node_run sn frs s \<and> frs \<subseteq> polled sn (w_poll_i (sn_world sn)) (w_poll_i (sn_world s))"
proof -
  obtain frs where "node_run sn frs s" using assms(1) unfolding runs_from_def by blast
  with node_run_ok [OF this assms(2,3)] show ?thesis by blast
qed

subsection \<open>Property\<close>

text \<open>C12: a round is a run of node steps. Whatever the model, the participants and the frames a node
  polls, and whatever \<open>run_round\<close> results in (the generated tokens, the abort of a failed round or
  an exception), the node it leaves is one that the elementary steps of a node lead to, with
  no frame but those it polled in between. Every invariant of the steps therefore holds after a
  generation, and for everybody else while it runs.\<close>

theorem generation_is_node_run:
  assumes "run_round ru prompt_ids cfg sn = Some (r, sn')"
    and "swarm_ok sn" and "codec_ok (w_codec (sn_world sn))"
  shows "\<exists>frs. node_run sn frs sn' \<and> frs \<subseteq> polled sn (w_poll_i (sn_world sn)) (w_poll_i (sn_world sn'))"
proof -
  have "runs_from sn (Some (r, sn'))" using runs_run_round [OF assms(2,3)] assms(1) by metis
  then show ?thesis using assms(2,3) by (rule runs_from_polled)
qed

theorem generation_is_node_run_witness:
  "\<exists>sn'. run_round steady_runner [2] one_step_config lone_node = Some (Inr (Some [(0, 2), (1, 2), (2, 2)]), sn') \<and>
     (\<exists>frs. node_run lone_node frs sn')"
proof -
  obtain sn' where run: "run_round steady_runner [2] one_step_config lone_node = Some (Inr (Some [(0, 2), (1, 2), (2, 2)]), sn')"
    using lone_round by blast
  have "swarm_ok lone_node"
    using quiet_node_ok [of "''node-b''" open_codec] rm_ok_new [of "example_round\<lparr>participants := [''node-b'']\<rparr>"]
    by (simp add: swarm_ok_def lone_node_def example_round_def) (simp add: set_new_round_def)
  moreover have "codec_ok (w_codec (sn_world lone_node))" by (simp add: lone_node_def lone_codec_def table_codec_ok)
  ultimately show ?thesis using generation_is_node_run [OF run] run by blast
qed

end
