(* ===== verification/Swarm_Sync.thy ===== *)
theory Swarm_Sync imports Generation_Steps begin

section \<open>Syncs inside a network\<close>

text \<open>
  \<open>Generation.heard_syncs_agree\<close> compares two syncs given what each of them heard. Here the
  participants are nodes of one reachable network (\<open>Network.reachable\<close>): they run their syncs in
  it, at different times and interleaved with everything the others do, and read only what was
  sent. \<open>synced\<close> says that a node's \<open>do_sync\<close> happened on the way to a network, \<open>heard_from_all\<close>
  that it gave up on nobody, and \<open>one_report\<close> that a node published no two different reports
  for the same sync. What a node hears is then what its sender reported (\<open>inbox_authentic\<close>),
  so that all participants add up the same reports, each in its own order; if the order does not
  matter to the sums (\<open>settled_sums\<close>), they agree (\<open>swarm_converges\<close>). A node that hears nobody in
  time runs solo (\<open>unheard_sync_runs_solo\<close>), which is why agreement needs \<open>heard_from_all\<close>.
\<close>

subsection \<open>Networks in time\<close>

abbreviation net_run :: "string set \<Rightarrow> swarm \<Rightarrow> swarm \<Rightarrow> bool" where
  "net_run N \<equiv> (net_step N)\<^sup>*\<^sup>*"

lemma reachable_run: "net_run N net net' \<Longrightarrow> reachable N cd net \<Longrightarrow> reachable N cd net'"
  by (induction rule: rtranclp_induct) (auto intro: reachable.Step)

lemma net_step_sent:
  assumes "net_step N net net'" and "reachable N cd net" and "codec_ok cd"
  shows "set (w_sent (sn_world (net n))) \<subseteq> set (w_sent (sn_world (net' n)))"
  by (rule reachable_stepE [OF assms]) (auto simp: step_ok_def)

lemma net_run_sent:
  assumes "net_run N net net'" and "reachable N cd net" and "codec_ok cd"
  shows "set (w_sent (sn_world (net n))) \<subseteq> set (w_sent (sn_world (net' n)))"
  using assms(1)
proof (induction rule: rtranclp_induct)
  case (step net1 net2)
  then show ?case using net_step_sent reachable_run [OF step.hyps(1) assms(2)] assms(3) by blast
qed simp

lemma net_run_air:
  "net_run N net net' \<Longrightarrow> reachable N cd net \<Longrightarrow> codec_ok cd \<Longrightarrow> air N net \<subseteq> air N net'"
  unfolding air_def by (rule UN_mono [OF order_refl]) (rule net_run_sent)

text \<open>A node reports a payload under a key if it has sent it.\<close>

definition reports :: "codec \<Rightarrow> swarm_node \<Rightarrow> inbox_key \<Rightarrow> payload \<Rightarrow> bool" where
  "reports cd sn key p \<longleftrightarrow> (\<exists>fr \<in> set (w_sent (sn_world sn)). \<exists>env. says cd fr env \<and>
     payload_key (e_type env) (e_payload env) = key \<and> e_payload env = p)"

lemma filed_reported:
  assumes "reachable N cd net" and "codec_ok cd" and "filed_by cd (air N net) key j p"
  shows "j \<in> N \<and> reports cd (net j) key p"
proof -
  obtain fr env where fr: "fr \<in> air N net" "says cd fr env" "(key, j, p) \<in> set (filings env)"
    using assms(3) unfolding filed_by_def by blast
  then have eq: "key = payload_key (e_type env) (e_payload env)" "j = e_node_id env" "p = e_payload env"
    by (auto simp: filings_def Let_def split: if_splits)
  have inv: "node_inv N cd net n" if "n \<in> N" for n by (rule reachable_inv [OF assms(1,2) that])
  have "j \<in> N" "fr \<in> set (w_sent (sn_world (net j)))"
    using air_source(1,2) [OF inv fr(1,2)] by (simp_all add: eq)
  with fr(2) eq show ?thesis unfolding reports_def by (intro conjI bexI [of _ fr] exI [of _ env]) simp_all
qed

lemma reports_later:
  "reports cd (net n) key p \<Longrightarrow> net_run N net net' \<Longrightarrow> reachable N cd net \<Longrightarrow> codec_ok cd \<Longrightarrow> reports cd (net' n) key p"
  using net_run_sent unfolding reports_def by blast

lemma exchange_reports:
  assumes "exchange m payload rid q others sn = Some (Inr received, sn')" and "m \<in> {COMMIT, DISPUTE_SCORE}"
    and "swarm_ok sn" and "codec_ok (w_codec (sn_world sn))" and "payload_key m payload = key"
  shows "reports (w_codec (sn_world sn)) sn' key payload"
proof -
  let ?s = "snd (publish_msg sn m (Some payload))" and ?cd = "w_codec (sn_world sn)"
  have "fst (publish_msg sn m (Some payload)) = Inr ()"
    and run: "collect_until ?s m rid q others SYNC_BARRIER_TIMEOUT = Some (Inr received, sn')"
    using assms(1) by (auto simp: exchange_def tbind_Inr)
  then have rep: "reports ?cd ?s key payload"
    using assms(4,5)
    by (auto simp: publish_msg_def publish_def time_time_def encode_def rbind_def reports_def says_def decode_def
        codec_ok_def split: sum.splits prod.splits)
  have "swarm_ok ?s" using swarm_publish assms(3) by blast
  moreover from this have "inbox_ok (sn_inbox ?s)" by (simp add: swarm_ok_def)
  ultimately have "set (w_sent (sn_world ?s)) \<subseteq> set (w_sent (sn_world sn'))"
    using collect_gathers [OF run assms(2)] node_run_ok [of ?s _ sn'] assms(4) unfolding gathered_def
    by (metis publish_msg_fields(5))
  with rep show ?thesis unfolding reports_def by blast
qed


subsection \<open>A sync inside the network\<close>

text \<open>A node that ends up in a network with its sync done heard only what was reported there.\<close>

lemma gathered_reports:
  assumes "reachable N cd net0" and "codec_ok cd" and "a \<in> N" and "net_run N net0 net1" and "net_run N net1 net"
    and "node_run (net0 a) frs0 sn" and "gathered sn key frs s d" and "node_run s frs' (net1 a)" and "(j, p) \<in> set d"
  shows "j \<in> N \<and> reports cd (net j) key p"
proof -
  have r1: "reachable N cd net1" by (rule reachable_run [OF assms(4,1)])
  have inv0: "node_inv N cd net0 a" and inv1: "node_inv N cd net1 a"
    using reachable_inv [OF assms(1-3)] reachable_inv [OF r1 assms(2,3)] by blast+
  have ok: "swarm_ok (net0 a)" "codec_ok (w_codec (sn_world (net0 a)))" and cd: "w_codec (sn_world (net0 a)) = cd"
    using inv0 assms(2) by (simp_all add: node_inv_def Let_def)
  note ok0 = node_run_ok [OF assms(6) ok]
  have run: "node_run sn frs s" using assms(7) by (simp add: gathered_def)
  have "node_run (net0 a) (frs0 \<union> (frs \<union> frs')) (net1 a)"
    using node_run_trans [OF node_run_trans [OF assms(8) run] assms(6)] .
  note all = node_run_ok [OF this ok]
  have "polled (net0 a) (w_poll_i (sn_world (net0 a))) (w_poll_i (sn_world (net1 a))) \<subseteq> air N net1"
    using all inv1 by (force simp: polled_def node_inv_def Let_def)
  then have frs: "frs0 \<union> frs \<subseteq> air N net1" using all by blast
  have air0: "air N net0 \<subseteq> air N net1" by (rule net_run_air [OF assms(4,1,2)])
  have "inbox_look (sn_inbox sn) key j = Some p \<or> filed_by cd frs key j p"
    using assms(7,9) ok0 cd unfolding gathered_def by metis
  then have "filed_by cd (air N net1) key j p"
  proof
    assume "inbox_look (sn_inbox sn) key j = Some p"
    then have "inbox_look (sn_inbox (net0 a)) key j = Some p \<or> filed_by cd frs0 key j p"
      using ok0 unfolding cd by blast
    then show ?thesis
    proof
      assume "inbox_look (sn_inbox (net0 a)) key j = Some p"
      with inv0 have "filed_by cd (air N net0) key j p" unfolding node_inv_def Let_def by blast
      with air0 show ?thesis by (rule filed_by_mono [rotated])
    qed (use frs filed_by_mono in blast)
  qed (use frs filed_by_mono in blast)
  from filed_reported [OF r1 assms(2) this] reports_later [OF _ assms(5) r1 assms(2)] show ?thesis by blast
qed


definition heard_from_all ::
  "python \<Rightarrow> pyval \<Rightarrow> int \<Rightarrow> string set \<Rightarrow> commit \<Rightarrow> real list list \<Rightarrow> swarm_node \<Rightarrow> bool" where
  "heard_from_all py rid q P c my_p sn \<longleftrightarrow> (let others = P - {sn_id sn} in
     \<exists>raw sn1. exchange COMMIT (commit_payload rid q c) rid q others sn = Some (Inr raw, sn1) \<and>
       others \<subseteq> set (keys raw) \<and>
       (\<forall>all s sraw sn2. with_others parse_commit (sn_id sn) c raw = Inr all \<longrightarrow> detect_disputes all \<noteq> [] \<longrightarrow>
          own_scores (py_set_iter py) my_p (detect_disputes all) = Inr s \<longrightarrow>
          exchange DISPUTE_SCORE (score_payload rid q s) rid q others sn1 = Some (Inr sraw, sn2) \<longrightarrow>
          others \<subseteq> set (keys sraw)))"

definition synced ::
  "string set \<Rightarrow> codec \<Rightarrow> swarm \<Rightarrow> string \<Rightarrow> python \<Rightarrow> pyval \<Rightarrow> int \<Rightarrow> string set \<Rightarrow> commit
   \<Rightarrow> real list list \<Rightarrow> (int, int) dict \<Rightarrow> int \<Rightarrow> int \<Rightarrow> stop_detector
   \<Rightarrow> (int, int) dict \<times> int option \<times> stop_detector \<Rightarrow> bool" where
  "synced N cd net a py rid q P c my_p x gs ge sd res \<longleftrightarrow>
     (\<exists>net0 net1 frs frs' sn sn'. reachable N cd net0 \<and> net_run N net0 net1 \<and> net_run N net1 net \<and>
        node_run (net0 a) frs sn \<and> node_run sn' frs' (net1 a) \<and>
        do_sync py rid q (P - {a}) c my_p x gs ge sd sn = Some (Inr res, sn') \<and>
        heard_from_all py rid q P c my_p sn)"

lemma syncedI:
  assumes "reachable N cd net0" and "net_run N net0 net1" and "net_run N net1 net"
    and "do_sync py rid q (P - {a}) c my_p x gs ge sd (net0 a) = Some (Inr res, net1 a)"
    and "heard_from_all py rid q P c my_p (net0 a)"
  shows "synced N cd net a py rid q P c my_p x gs ge sd res"
  using assms node_run.Rest unfolding synced_def by blast

definition one_report :: "codec \<Rightarrow> swarm_node \<Rightarrow> pyval \<Rightarrow> int \<Rightarrow> bool" where
  "one_report cd sn rid q \<longleftrightarrow> (\<forall>m \<in> {COMMIT, DISPUTE_SCORE}. \<forall>p p'.
     reports cd sn (m, rid, PInt q) p \<longrightarrow> reports cd sn (m, rid, PInt q) p' \<longrightarrow> p = p')"

text \<open>What \<open>n\<close> reported, or an empty payload if it did not.\<close>

definition report_of :: "codec \<Rightarrow> swarm \<Rightarrow> string \<Rightarrow> pyval \<Rightarrow> int \<Rightarrow> string \<Rightarrow> payload" where
  "report_of cd net m rid q n =
     (if \<exists>p. reports cd (net n) (m, rid, PInt q) p then SOME p. reports cd (net n) (m, rid, PInt q) p else [])"

lemma report_of_eq:
  "reports cd (net n) (m, rid, PInt q) p \<Longrightarrow> one_report cd (net n) rid q \<Longrightarrow> m \<in> {COMMIT, DISPUTE_SCORE} \<Longrightarrow>
   report_of cd net m rid q n = p"
  unfolding report_of_def one_report_def by (metis (mono_tags, lifting) someI)

text \<open>
  The scores that the participants \<open>P\<close> have reported for a sync add up to the same sums in whatever order
  they are taken. Nothing is asked where somebody reported none, so of a sync without a dispute.
\<close>

definition settled_sums :: "(real \<Rightarrow> f64 option) \<Rightarrow> codec \<Rightarrow> swarm \<Rightarrow> pyval \<Rightarrow> int \<Rightarrow> string set \<Rightarrow> bool" where
  "settled_sums mexp cd net rid q P \<longleftrightarrow> (\<forall>S.
     (\<forall>n \<in> P. \<exists>p. reports cd (net n) (DISPUTE_SCORE, rid, PInt q) p \<and> parse_scores p = Inr (S n)) \<longrightarrow>
     sums_agree mexp P S)"

lemma settled_reports:
  assumes "settled_sums mexp cd net rid q P" and "\<forall>n \<in> P. parse_scores (report_of cd net DISPUTE_SCORE rid q n) = Inr (S n)"
  shows "sums_agree mexp P S"
proof -
  have "\<exists>p. reports cd (net n) (DISPUTE_SCORE, rid, PInt q) p \<and> parse_scores p = Inr (S n)" if "n \<in> P" for n
  proof -
    have parsed: "parse_scores (report_of cd net DISPUTE_SCORE rid q n) = Inr (S n)" using assms(2) that by blast
    have "parse_scores [] \<noteq> Inr (S n)" by (simp add: parse_scores_def pay_item_def)
    with parsed have ex: "\<exists>p. reports cd (net n) (DISPUTE_SCORE, rid, PInt q) p" unfolding report_of_def by metis
    then have "reports cd (net n) (DISPUTE_SCORE, rid, PInt q) (report_of cd net DISPUTE_SCORE rid q n)"
      unfolding report_of_def by (simp add: someI_ex)
    with parsed show ?thesis by blast
  qed
  with assms(1) show ?thesis unfolding settled_sums_def by blast
qed

text \<open>Of one or two participants this is true in double precision.\<close>

lemma settled_pair:
  assumes "finite P" and "card P \<le> 2" and "exp_ok mexp"
  shows "settled_sums mexp cd net rid q P"
  unfolding settled_sums_def using parse_scores_ok by (blast intro: sums_agree_pair [OF assms])

lemma with_others_parsed:
  assumes "with_others parse k own received = Inr all" and "(j, p) \<in> set received"
  shows "\<exists>v. parse p = Inr v"
proof -
  have "\<exists>v. parse p = Inr v"
    if "foldM (\<lambda>(node_id, payload) acc. rbind (parse payload) (\<lambda>v. Inr (dset node_id v acc))) rec acc = Inr all"
      "(j, p) \<in> set rec" for rec acc
    using that by (induction rec arbitrary: acc) (auto simp: rbind_eq_Inr)
  then show ?thesis using assms by (simp add: with_others_def)
qed

text \<open>What a node has sent in an exchange it has reported, for good.\<close>

lemma exchange_reported:
  assumes "reachable N cd net0" and "codec_ok cd" and "a \<in> N" and "net_run N net0 net1" and "net_run N net1 net"
    and "node_run (net0 a) frs0 sn" and ex: "exchange m payload rid q others sn = Some (Inr received, s)"
    and "node_run s frs' (net1 a)" and m: "m \<in> {COMMIT, DISPUTE_SCORE}" and key: "payload_key m payload = (m, rid, PInt q)"
  shows "reports cd (net a) (m, rid, PInt q) payload"
proof -
  have "swarm_ok (net0 a)" "codec_ok (w_codec (sn_world (net0 a)))" "w_codec (sn_world (net0 a)) = cd"
    using reachable_inv [OF assms(1-3)] assms(2) by (simp_all add: node_inv_def Let_def)
  with node_run_ok [OF assms(6)] have sn: "swarm_ok sn" "codec_ok (w_codec (sn_world sn))" "w_codec (sn_world sn) = cd" by simp_all
  obtain frs where "node_run sn frs s" using exchange_gathers [OF ex m sn(1)] by (auto simp: gathered_def)
  note node_run_ok [OF this sn(1,2)]
  then have "set (w_sent (sn_world s)) \<subseteq> set (w_sent (sn_world (net1 a)))"
    using node_run_ok [OF assms(8)] sn(2) by simp
  moreover have "reports cd s (m, rid, PInt q) payload" using exchange_reports [OF ex m sn(1,2) key] by (simp add: sn(3))
  ultimately have "reports cd (net1 a) (m, rid, PInt q) payload" unfolding reports_def by blast
  then show ?thesis by (rule reports_later [OF _ assms(5) reachable_run [OF assms(4,1)] assms(2)])
qed

text \<open>One exchange of a sync: the messages of the others are what they reported, and one's own is reported.\<close>

lemma exchange_heard:
  assumes "reachable N cd net0" and "codec_ok cd" and "a \<in> N" and "net_run N net0 net1" and "net_run N net1 net"
    and "node_run (net0 a) frs0 sn" and ex: "exchange m payload rid q others sn = Some (Inr received, s)"
    and "node_run s frs' (net1 a)" and m: "m \<in> {COMMIT, DISPUTE_SCORE}" and key: "payload_key m payload = (m, rid, PInt q)"
    and single: "\<forall>n \<in> insert a others. one_report cd (net n) rid q" and "others \<subseteq> set (keys received)" and "a \<notin> others"
  shows "heard_all (insert a others) a (report_of cd net m rid q) received"
    and "report_of cd net m rid q a = payload"
proof -
  have inv0: "node_inv N cd net0 a" by (rule reachable_inv [OF assms(1-3)])
  then have ok: "swarm_ok (net0 a)" "codec_ok (w_codec (sn_world (net0 a)))" "w_codec (sn_world (net0 a)) = cd"
    using assms(2) by (simp_all add: node_inv_def Let_def)
  note ok0 = node_run_ok [OF assms(6) ok(1,2)]
  then have sn: "swarm_ok sn" "w_codec (sn_world sn) = cd" by (simp_all add: ok(3))
  obtain frs where g: "gathered sn (m, rid, PInt q) frs s received"
    using exchange_gathers [OF ex m sn(1)] by auto
  have rep: "report_of cd net m rid q j = p" if "(j, p) \<in> set received" "j \<in> others" for j p
    using gathered_reports [OF assms(1-6) g assms(8) that(1)] single that(2) m by (intro report_of_eq) auto
  have "set (keys received) \<subseteq> others"
    using ex unfolding exchange_def tbind_Inr by (blast dest: collect_until_expected)
  then have keys: "set (keys received) = others" using assms(12) by blast
  then have "set received = (\<lambda>n. (n, report_of cd net m rid q n)) ` others"
    using rep by (force simp: image_iff)
  moreover have "dict_ok received" using g by (simp add: gathered_def)
  ultimately show "heard_all (insert a others) a (report_of cd net m rid q) received"
    using assms(13) by (simp add: heard_all_def)
  have "reports cd (net a) (m, rid, PInt q) payload" by (rule exchange_reported [OF assms(1-6) ex assms(8) m key])
  then show "report_of cd net m rid q a = payload" using single m by (intro report_of_eq) auto
qed


text \<open>The parts of a sync that came to its end.\<close>

lemma do_sync_parts:
  assumes "do_sync py rid q others c p x gs ge sd sn = Some (Inr res, sn')"
    and "exchange COMMIT (commit_payload rid q c) rid q others sn = Some (Inr raw, sn1)"
  obtains all where "with_others parse_commit (sn_id sn) c raw = Inr all"
    and "detect_disputes all = [] \<Longrightarrow> sn' = sn1"
    and "detect_disputes all \<noteq> [] \<Longrightarrow> \<exists>s sraw sall. own_scores (py_set_iter py) p (detect_disputes all) = Inr s \<and>
      exchange DISPUTE_SCORE (score_payload rid q s) rid q others sn1 = Some (Inr sraw, sn') \<and>
      with_others parse_scores (sn_id sn) s sraw = Inr sall"
proof -
  have id1: "sn_id sn1 = sn_id sn" by (rule exchange_id [OF assms(2)])
  obtain all where all: "with_others parse_commit (sn_id sn) c raw = Inr all"
    using assms(1) unfolding do_sync_def assms(2) tbind_simps tbind_Inr id1 by blast
  obtain x' f sd' where res: "res = (x', f, sd')" by (cases res)
  obtain w where settled: "(if detect_disputes all = [] then Some (Inr [], sn1)
        else settle_disputes py rid q others p (detect_disputes all) sn1) = Some (Inr w, sn')"
    by (rule do_sync_result [OF assms(2) _ assms(1) [unfolded res]]) (simp_all add: id1 all)
  show ?thesis
  proof (rule that [OF all])
    show "detect_disputes all = [] \<Longrightarrow> sn' = sn1" using settled by simp
    assume ne: "detect_disputes all \<noteq> []"
    obtain s sraw sn2 where s: "own_scores (py_set_iter py) p (detect_disputes all) = Inr s"
      and ex: "exchange DISPUTE_SCORE (score_payload rid q s) rid q others sn1 = Some (Inr sraw, sn2)"
      and fin: "rbind (with_others parse_scores (sn_id sn2) s sraw) (\<lambda>all_scores. resolve_disputes (py_exp py) all_scores) = Inr w"
        "sn2 = sn'"
      using settled ne unfolding settle_disputes_def by (auto simp: tbind_Inr)
    have "sn_id sn2 = sn_id sn" using exchange_id [OF ex] id1 by simp
    with fin s ex show "\<exists>s sraw sall. own_scores (py_set_iter py) p (detect_disputes all) = Inr s \<and>
      exchange DISPUTE_SCORE (score_payload rid q s) rid q others sn1 = Some (Inr sraw, sn') \<and>
      with_others parse_scores (sn_id sn) s sraw = Inr sall"
      by (auto simp: rbind_eq_Inr)
  qed
qed

lemma disputes_finite: "\<forall>T \<in> snd ` set (detect_disputes commits). finite T"
proof
  fix T assume "T \<in> snd ` set (detect_disputes commits)"
  then obtain p where "map_of (detect_disputes commits) p = Some T" by auto
  then show "finite T" by (auto simp: lookup_disputes split: if_splits)
qed

text \<open>A sync that came to its end is, after its first exchange, a run of the node.\<close>

lemma do_sync_run:
  assumes "do_sync py rid q others c p x gs ge sd sn = Some (Inr res, sn')"
    and "exchange COMMIT (commit_payload rid q c) rid q others sn = Some (Inr raw, sn1)"
    and "swarm_ok sn" and "codec_ok (w_codec (sn_world sn))"
  obtains frs1 frs2 where "gathered sn (COMMIT, rid, PInt q) frs1 sn1 raw" and "node_run sn frs1 sn1" and "node_run sn1 frs2 sn'"
proof -
  obtain frs1 where g: "gathered sn (COMMIT, rid, PInt q) frs1 sn1 raw"
    using exchange_gathers [OF assms(2) _ assms(3)] by auto
  then have run: "node_run sn frs1 sn1" by (simp add: gathered_def)
  have ok1: "swarm_ok sn1" using node_run_ok [OF run assms(3,4)] by blast
  have "sn' = sn1 \<or> (\<exists>s sraw. exchange DISPUTE_SCORE (score_payload rid q s) rid q others sn1 = Some (Inr sraw, sn'))"
    by (rule do_sync_parts [OF assms(1,2)]) blast
  then have "\<exists>frs2. node_run sn1 frs2 sn'"
  proof
    assume "sn' = sn1"
    then show ?thesis using node_run.Rest by blast
  next
    assume "\<exists>s sraw. exchange DISPUTE_SCORE (score_payload rid q s) rid q others sn1 = Some (Inr sraw, sn')"
    then obtain s sraw where
      "exchange DISPUTE_SCORE (score_payload rid q s) rid q others sn1 = Some (Inr sraw, sn')" by blast
    from exchange_gathers [OF this _ ok1] show ?thesis by (auto simp: gathered_def)
  qed
  with g run that show thesis by blast
qed

text \<open>What happened in a network that holds a node with its sync done.\<close>

lemma synced_run:
  assumes cd: "codec_ok cd" and a: "a \<in> N" and sync: "synced N cd net a py rid q P c my_p x gs ge sd res"
  obtains net0 net1 sn sn' raw sn1 all frs0 frs1 frs2 frs3
    where "reachable N cd net0" and "net_run N net0 net1" and "net_run N net1 net" and "node_run (net0 a) frs0 sn"
    and "sn_id sn = a" and "do_sync py rid q (P - {a}) c my_p x gs ge sd sn = Some (Inr res, sn')"
    and "exchange COMMIT (commit_payload rid q c) rid q (P - {a}) sn = Some (Inr raw, sn1)"
    and "P - {a} \<subseteq> set (keys raw)" and "with_others parse_commit a c raw = Inr all"
    and "node_run sn frs1 sn1" and "node_run sn1 frs2 (net1 a)" and "node_run sn' frs3 (net1 a)"
    and "detect_disputes all \<noteq> [] \<Longrightarrow> \<exists>s sraw sall. own_scores (py_set_iter py) my_p (detect_disputes all) = Inr s \<and>
      exchange DISPUTE_SCORE (score_payload rid q s) rid q (P - {a}) sn1 = Some (Inr sraw, sn') \<and>
      with_others parse_scores a s sraw = Inr sall \<and> P - {a} \<subseteq> set (keys sraw)"
proof -
  obtain net0 net1 frs0 frs3 sn sn' where r0: "reachable N cd net0" and runs: "net_run N net0 net1" "net_run N net1 net"
    and run0: "node_run (net0 a) frs0 sn" and run3: "node_run sn' frs3 (net1 a)"
    and fin: "do_sync py rid q (P - {a}) c my_p x gs ge sd sn = Some (Inr res, sn')"
    and heard: "heard_from_all py rid q P c my_p sn"
    using sync unfolding synced_def by blast
  have "sn_id (net0 a) = a" "swarm_ok (net0 a)" "codec_ok (w_codec (sn_world (net0 a)))"
    using reachable_inv [OF r0 cd a] cd by (simp_all add: node_inv_def Let_def)
  with node_run_ok [OF run0] have id: "sn_id sn = a" and ok: "swarm_ok sn" "codec_ok (w_codec (sn_world sn))" by simp_all
  obtain raw sn1 where ex1: "exchange COMMIT (commit_payload rid q c) rid q (P - {a}) sn = Some (Inr raw, sn1)"
    and got: "P - {a} \<subseteq> set (keys raw)"
      "\<forall>all s sraw sn2. with_others parse_commit a c raw = Inr all \<longrightarrow> detect_disputes all \<noteq> [] \<longrightarrow>
          own_scores (py_set_iter py) my_p (detect_disputes all) = Inr s \<longrightarrow>
          exchange DISPUTE_SCORE (score_payload rid q s) rid q (P - {a}) sn1 = Some (Inr sraw, sn2) \<longrightarrow>
          P - {a} \<subseteq> set (keys sraw)"
    using heard unfolding heard_from_all_def id Let_def by blast
  obtain all where all: "with_others parse_commit a c raw = Inr all" and "detect_disputes all = [] \<Longrightarrow> sn' = sn1"
    and dispute: "detect_disputes all \<noteq> [] \<Longrightarrow> \<exists>s sraw sall. own_scores (py_set_iter py) my_p (detect_disputes all) = Inr s \<and>
      exchange DISPUTE_SCORE (score_payload rid q s) rid q (P - {a}) sn1 = Some (Inr sraw, sn') \<and>
      with_others parse_scores a s sraw = Inr sall"
    using do_sync_parts [OF fin ex1] unfolding id by blast
  obtain frs1 frs2 where run1: "node_run sn frs1 sn1" and "node_run sn1 frs2 sn'"
    by (rule do_sync_run [OF fin ex1 ok])
  from node_run_trans [OF run3 this(2)] show ?thesis
    by (rule that [OF r0 runs run0 id fin ex1 got(1) all run1 _ run3]) (use dispute got(2) all in blast)
qed

lemma heard_parsed:
  assumes "heard_all P a M received" and "with_others parse a own received = Inr all" and "parse (M a) = Inr own" and "n \<in> P"
  shows "parse (M n) = Inr (projr (parse (M n)))"
proof (cases "n = a")
  case False
  with assms(1,4) have "(n, M n) \<in> set received" by (simp add: heard_all_def)
  with with_others_parsed [OF assms(2)] show ?thesis by fastforce
qed (simp add: assms(3))

lemma synced_heard:
  assumes cd: "codec_ok cd" and P: "finite P" "P \<subseteq> N" "a \<in> P" and it: "set_order (py_set_iter py)" and c: "dict_ok c"
    and single: "\<forall>n \<in> P. one_report cd (net n) rid q"
    and sync: "synced N cd net a py rid q P c my_p x gs ge sd res"
    and C: "C = (\<lambda>n. projr (parse_commit (report_of cd net COMMIT rid q n)))"
    and S: "S = (\<lambda>n. projr (parse_scores (report_of cd net DISPUTE_SCORE rid q n)))"
  shows "C a = c \<and> (\<exists>sn sn'. sn_id sn = a \<and> do_sync py rid q (P - {a}) c my_p x gs ge sd sn = Some (Inr res, sn') \<and>
    heard_sync py rid q P (report_of cd net COMMIT rid q) (report_of cd net DISPUTE_SCORE rid q) C S my_p sn)"
proof -
  let ?Mc = "report_of cd net COMMIT rid q" and ?Ms = "report_of cd net DISPUTE_SCORE rid q"
  have a: "a \<in> N" and Pa: "insert a (P - {a}) = P" using P by blast+
  obtain net0 net1 sn sn' raw sn1 all frs0 frs1 frs2 frs3
    where r0: "reachable N cd net0" and runs: "net_run N net0 net1" "net_run N net1 net" and run0: "node_run (net0 a) frs0 sn"
    and id: "sn_id sn = a" and fin: "do_sync py rid q (P - {a}) c my_p x gs ge sd sn = Some (Inr res, sn')"
    and ex1: "exchange COMMIT (commit_payload rid q c) rid q (P - {a}) sn = Some (Inr raw, sn1)"
    and got: "P - {a} \<subseteq> set (keys raw)" and all: "with_others parse_commit a c raw = Inr all"
    and run1: "node_run sn frs1 sn1" and run2: "node_run sn1 frs2 (net1 a)" and run3: "node_run sn' frs3 (net1 a)"
    and dispute: "detect_disputes all \<noteq> [] \<Longrightarrow> \<exists>s sraw sall. own_scores (py_set_iter py) my_p (detect_disputes all) = Inr s \<and>
      exchange DISPUTE_SCORE (score_payload rid q s) rid q (P - {a}) sn1 = Some (Inr sraw, sn') \<and>
      with_others parse_scores a s sraw = Inr sall \<and> P - {a} \<subseteq> set (keys sraw)"
    by (rule synced_run [OF cd a sync]) (rule that, (assumption | blast)+)
  have hc: "heard_all P a ?Mc raw" and own: "parse_commit (?Mc a) = Inr c"
    using exchange_heard [OF r0 cd a runs run0 ex1 run2 _ payload_keys(1) _ got] single parse_commit_own [OF c]
    unfolding Pa by simp_all
  have parse_c: "\<forall>n \<in> P. parse_commit (?Mc n) = Inr (C n)" using heard_parsed [OF hc all own] by (simp add: C)
  have Ca: "C a = c" by (simp add: C own)
  have all_eq: "all = map (\<lambda>n. (n, C n)) (a # keys raw)"
    using heard_all_with_others(1) [OF hc _ P(3,1), of parse_commit C] parse_c all Ca by simp
  have "(\<forall>n \<in> P. parse_scores (?Ms n) = Inr (S n)) \<and> own_scores (py_set_iter py) my_p (detect_disputes all) = Inr (S a) \<and>
      (\<exists>sraw sn2. exchange DISPUTE_SCORE (score_payload rid q (S a)) rid q (P - {a}) sn1 = Some (Inr sraw, sn2) \<and>
         heard_all P a ?Ms sraw)" if ne: "detect_disputes all \<noteq> []"
  proof -
    obtain s sraw sall where s: "own_scores (py_set_iter py) my_p (detect_disputes all) = Inr s"
      and ex2: "exchange DISPUTE_SCORE (score_payload rid q s) rid q (P - {a}) sn1 = Some (Inr sraw, sn')"
      and sall: "with_others parse_scores a s sraw = Inr sall" and got2: "P - {a} \<subseteq> set (keys sraw)"
      using dispute [OF ne] by blast
    have "scores_ok s" by (rule own_scores_spec(2) [OF s it dict_ok_disputes disputes_finite])
    then have hs: "heard_all P a ?Ms sraw" and own_s: "parse_scores (?Ms a) = Inr s"
      using exchange_heard [OF r0 cd a runs node_run_trans [OF run1 run0] ex2 run3 _ payload_keys(2) _ got2] single parse_scores_own
      unfolding Pa by simp_all
    have "\<forall>n \<in> P. parse_scores (?Ms n) = Inr (S n)" using heard_parsed [OF hs sall own_s] by (simp add: S)
    moreover have "S a = s" by (simp add: S own_s)
    ultimately show ?thesis using s ex2 hs by blast
  qed
  with P(1,3) id parse_c ex1 hc Ca all_eq have "heard_sync py rid q P ?Mc ?Ms C S my_p sn"
    unfolding heard_sync_def Let_def by (intro conjI exI [of _ raw] exI [of _ sn1]) auto
  with Ca id fin show ?thesis by blast
qed


subsection \<open>Agreement\<close>

lemma syncs_converge:
  assumes "codec_ok cd" and "finite P" and "P \<subseteq> N" and "a \<in> P" and "b \<in> P"
    and "\<forall>n \<in> P. one_report cd (net n) rid q"
    and "synced N cd net a py_a rid q P c_a p_a x_a gs ge sd (x_a', f_a, sd_a)"
    and "synced N cd net b py_b rid q P c_b p_b x_b gs ge sd (x_b', f_b, sd_b)"
    and "set_order (py_set_iter py_a)" and "set_order (py_set_iter py_b)" and "dict_ok c_a" and "dict_ok c_b" and "map_of x_a = map_of x_b"
    and "py_exp py_a = mexp" and "py_exp py_b = mexp" and "settled_sums mexp cd net rid q P"
  shows "map_of x_a' = map_of x_b' \<and> f_a = f_b \<and> sd_a = sd_b"
proof -
  let ?C = "\<lambda>n. projr (parse_commit (report_of cd net COMMIT rid q n))"
    and ?S = "\<lambda>n. projr (parse_scores (report_of cd net DISPUTE_SCORE rid q n))"
  obtain na na' where a: "?C a = c_a" "sn_id na = a"
      "do_sync py_a rid q (P - {a}) c_a p_a x_a gs ge sd na = Some (Inr (x_a', f_a, sd_a), na')"
      "heard_sync py_a rid q P (report_of cd net COMMIT rid q) (report_of cd net DISPUTE_SCORE rid q) ?C ?S p_a na"
    using synced_heard [OF assms(1-4,9,11,6,7) refl refl] by blast
  obtain nb nb' where b: "?C b = c_b" "sn_id nb = b"
      "do_sync py_b rid q (P - {b}) c_b p_b x_b gs ge sd nb = Some (Inr (x_b', f_b, sd_b), nb')"
      "heard_sync py_b rid q P (report_of cd net COMMIT rid q) (report_of cd net DISPUTE_SCORE rid q) ?C ?S p_b nb"
    using synced_heard [OF assms(1-3,5,10,12,6,8) refl refl] by blast
  show ?thesis
    by (rule heard_syncs_agree [OF a(4) b(4) _ _ assms(9,10,13-15) settled_reports [OF assms(16)]])
      (use a(1-3) b(1-3) in simp_all)
qed

text \<open>C4: a sync makes the swarm agree, as far as adding doubles lets it. In any network the program can
  reach, in whatever order its nodes acted and messages were read, take two participants of a round
  that have both come through the same sync with a report from every participant. If nobody reported
  twice for that sync and the two shared the same state before, and if the scores reported for the
  sync, if there was a dispute, add up to the same doubles in whatever order they are taken
  (\<open>settled_sums\<close>; so it is for one or two participants, \<open>settled_pair\<close>, and whenever no addition rounds,
  \<open>sums_agree_exact\<close>, but with three it may fail, \<open>summation_order_splits\<close>), they now hold the same
  shared state, the same frozen boundary and the same stop detector, although each drew its own
  proposals, iterates sets in its own order and heard the others in its own order.\<close>

theorem swarm_converges:
  assumes "codec_ok cd" and "finite P" and "P \<subseteq> N" and "a \<in> P" and "b \<in> P"
    and "\<forall>n \<in> P. one_report cd (net n) rid q"
    and "synced N cd net a py_a rid q P c_a p_a x_a gs ge sd (x_a', f_a, sd_a)"
    and "synced N cd net b py_b rid q P c_b p_b x_b gs ge sd (x_b', f_b, sd_b)"
    and "set_order (py_set_iter py_a)" and "set_order (py_set_iter py_b)" and "dict_ok c_a" and "dict_ok c_b" and "map_of x_a = map_of x_b"
    and "py_exp py_a = mexp" and "py_exp py_b = mexp" and "settled_sums mexp cd net rid q P"
  shows "map_of x_a' = map_of x_b' \<and> f_a = f_b \<and> sd_a = sd_b"
  using assms by (rule syncs_converge)

text \<open>A network of two nodes that send one commit each and read the other's.\<close>

lemma net_run_node:
  assumes "node_run sn frs s" and "n \<in> N" and "frs \<subseteq> air N net" and "net n = sn" and "reachable N cd net" and "codec_ok cd"
  shows "net_run N net (net(n := s))"
  using assms
proof (induction rule: node_run.induct)
  case (Rest sn)
  then show ?case by (simp add: fun_upd_idem)
next
  case (More sn frs s frs' t)
  then have run: "net_run N net (net(n := s))" by blast
  have "frs' \<subseteq> air N (net(n := s))" using net_run_air [OF run More.prems(4,5)] More.prems(2) by blast
  then have "net_step N (net(n := s)) ((net(n := s))(n := t))"
    using More.hyps(2) More.prems(1) by (intro net_step.Node) auto
  with run show ?case using rtranclp.rtrancl_into_rtrancl [of "net_step N"] by (metis fun_upd_upd)
qed

lemma exchange_polled:
  assumes "publish_msg sn m (Some payload) = (Inr (), sn1)" and "key_hashable (m, rid, PInt q)"
    and "inbox_bucket (sn_inbox sn) (m, rid, PInt q) = []"
    and "w_clock (sn_world sn) = (\<lambda>_. t)"
    and "pump_once (snd (read_clock (snd (read_clock sn1)))) 100 = (Inr (Some env), sn2)"
    and "payload_key (e_type env) (e_payload env) = (m, rid, PInt q)" and "e_node_id env = other"
  shows "exchange m payload rid q {other} sn =
    Some (Inr [(other, e_payload env)], sn2\<lparr>sn_inbox := inbox_drop (m, rid, PInt q) (sn_inbox sn2)\<rparr>)"
proof -
  have "sn_inbox sn1 = sn_inbox sn" "w_clock (sn_world sn1) = (\<lambda>_. t)"
    using publish_msg_fields(4,8) [of sn m "Some payload"] assms(1,4) by simp_all
  then show ?thesis
    using assms
    by (simp add: exchange_def collect_until_def Let_def case_prod_unfold collect_loop.simps collect_take_def
        SYNC_BARRIER_TIMEOUT_def)
qed


text \<open>Eighths, to evaluate an example with: they are doubles, and so are their sums.\<close>

definition eighth :: "int \<Rightarrow> f64" where
  "eighth m = F64 (m * 2 ^ 1071)"

lemma eighth_simps [simp]:
  "\<bar>a\<bar> < 2 ^ 53 \<Longrightarrow> 0 + eighth a = eighth a"
  "\<bar>a + b\<bar> < 2 ^ 53 \<Longrightarrow> eighth a + eighth b = eighth (a + b)"
  "eighth a < eighth b \<longleftrightarrow> a < b"
  "eighth a = eighth b \<longleftrightarrow> a = b"
  using f64_add_exact [of 0 a 1071] f64_add_exact [of a b 1071]
  by (simp_all add: eighth_def zero_f64_def less_f64_def del: power_numeral)

lemma exp_eighth:
  assumes "0 < m" and "m \<le> 8"
  shows "double_exp (ln (real_of_int m / 8)) = Some (eighth m)"
proof -
  have "exp (ln (real_of_int m / 8)) = real_of_int m / 8" using assms(1) by simp
  moreover have "real_of_int m / 8 * 2 ^ 1074 = of_int (m * 2 ^ 1071)" by simp
  then have "\<lfloor>real_of_int m / 8 * 2 ^ 1074\<rfloor> = m * 2 ^ 1071" by (metis floor_of_int)
  moreover have "real_of_int m / 8 < 2 ^ 1024 - 2 ^ 970" using assms(2) by simp
  ultimately have "double_exp (ln (real_of_int m / 8)) = Some (0 + eighth m)"
    unfolding double_exp_def eighth_def by (simp only: if_True)
  then show ?thesis using assms by simp
qed

lemma exp_eighths:
  "double_exp (ln (3 / 4)) = Some (eighth 6)" "double_exp (ln (1 / 4)) = Some (eighth 2)"
  "double_exp (ln (1 / 8)) = Some (eighth 1)" "double_exp (ln (7 / 8)) = Some (eighth 7)"
  using exp_eighth [of 6] exp_eighth [of 2] exp_eighth [of 1] exp_eighth [of 7] by simp_all

text \<open>
  Two nodes that dispute: for position 1, \<open>a\<close> has proposed token 0 and \<open>b\<close> token 1, and each has its own
  probabilities of both. Each reads the other's commit and then the other's scores.
\<close>

definition duo_other :: "string \<Rightarrow> string" where
  "duo_other n = (if n = ''a'' then ''b'' else ''a'')"

definition duo_commit :: "string \<Rightarrow> commit" where
  "duo_commit n = (if n = ''a'' then [(1, (0, 3 / 4))] else [(1, (1, 7 / 8))])"

definition duo_probs :: "string \<Rightarrow> real list list" where
  "duo_probs n = [[1 / 2, 1 / 2], if n = ''a'' then [3 / 4, 1 / 4] else [1 / 8, 7 / 8]]"

definition duo_scores :: "string \<Rightarrow> position_scores" where
  "duo_scores n = [(1, if n = ''a'' then [(0, ln (3 / 4)), (1, ln (1 / 4))] else [(0, ln (1 / 8)), (1, ln (7 / 8))])]"

definition duo_pay :: "string \<Rightarrow> string \<Rightarrow> payload" where
  "duo_pay m n = (if m = COMMIT then commit_payload (PStr ''r'') 0 (duo_commit n) else score_payload (PStr ''r'') 0 (duo_scores n))"

definition duo_env :: "string \<Rightarrow> string \<Rightarrow> envelope" where
  "duo_env m n = \<lparr>e_type = m, e_node_id = n, e_ts = 0, e_payload = duo_pay m n\<rparr>"

definition duo_frame :: "string \<Rightarrow> string \<Rightarrow> string \<times> string" where
  "duo_frame m n = (n, if m = COMMIT then (if n = ''a'' then ''A'' else ''B'') else (if n = ''a'' then ''S'' else ''T''))"

definition duo_codec :: codec where
  "duo_codec = table_codec [(''A'', duo_env COMMIT ''a''), (''B'', duo_env COMMIT ''b''),
     (''S'', duo_env DISPUTE_SCORE ''a''), (''T'', duo_env DISPUTE_SCORE ''b'')]"

definition duo_world :: "string \<Rightarrow> world" where
  "duo_world n = \<lparr>w_codec = duo_codec, w_clock = (\<lambda>_. 0), w_clock_i = 0,
     w_polls = (\<lambda>i t. if i = 0 then Some (duo_frame COMMIT (duo_other n))
       else if i = 1 then Some (duo_frame DISPUTE_SCORE (duo_other n)) else None), w_poll_i = 0, w_sent = []\<rparr>"

definition duo_node :: swarm where
  "duo_node n = \<lparr>sn_id = n, sn_transport = \<lparr>tr_pub = [tcp_addr ''relay'' 5555], tr_sub = [tcp_addr ''relay'' 5556],
       tr_subscribe = [''''], tr_open = True\<rparr>, sn_world = duo_world n,
     sn_peers = PeerTable n PEER_TIMEOUT, sn_round = RoundManager n, sn_inbox = []\<rparr>"

lemma duo_names:
  assumes "n \<in> {''a'', ''b''}"
  shows "duo_other n \<in> {''a'', ''b''}" and "duo_other n \<noteq> n" and "{''a'', ''b''} - {n} = {duo_other n}"
  using assms by (auto simp: duo_other_def)

lemma duo_oks: "dict_ok (duo_commit n)" "scores_ok (duo_scores n)"
  by (simp_all add: duo_commit_def duo_scores_def scores_ok_def)

lemma duo_codec_facts:
  "codec_ok duo_codec"
  "m \<in> {COMMIT, DISPUTE_SCORE} \<Longrightarrow> n \<in> {''a'', ''b''} \<Longrightarrow> packb duo_codec (duo_env m n) = Inr (snd (duo_frame m n))"
  "m \<in> {COMMIT, DISPUTE_SCORE} \<Longrightarrow> n \<in> {''a'', ''b''} \<Longrightarrow> says duo_codec (duo_frame m n) (duo_env m n)"
  by (auto simp: duo_codec_def table_codec_ok) (auto simp: table_codec_def duo_env_def duo_frame_def says_def decode_def)

lemma duo_keys: "m \<in> {COMMIT, DISPUTE_SCORE} \<Longrightarrow> payload_key m (duo_pay m n) = (m, PStr ''r'', PInt 0)"
  by (auto simp: duo_pay_def payload_keys)

lemma duo_reachable: "reachable {''a'', ''b''} duo_codec duo_node"
proof (rule reachable.Init)
  fix n
  have "SwarmNode (duo_world n) n [(''relay'', 5555, 5556)] = Inr (duo_node n)"
    by (simp add: SwarmNode_def transport_all_relays duo_node_def)
  then show "fresh_node duo_codec n (duo_node n)"
    unfolding fresh_node_def by (intro exI [of _ "duo_world n"] exI) (auto simp: duo_world_def)
qed

text \<open>A node \<open>n\<close> of the two that has read \<open>i\<close> messages.\<close>

definition duo_at :: "string \<Rightarrow> nat \<Rightarrow> swarm_node \<Rightarrow> bool" where
  "duo_at n i sn \<longleftrightarrow> sn_id sn = n \<and> swarm_ok sn \<and> w_codec (sn_world sn) = duo_codec \<and> w_clock (sn_world sn) = (\<lambda>_. 0) \<and>
     w_polls (sn_world sn) = w_polls (duo_world n) \<and> w_poll_i (sn_world sn) = i \<and>
     (\<forall>m \<in> {COMMIT, DISPUTE_SCORE}. inbox_bucket (sn_inbox sn) (m, PStr ''r'', PInt 0) = [])"

lemma duo_start: "n \<in> {''a'', ''b''} \<Longrightarrow> duo_at n 0 (duo_node n)"
  using reachable_inv [OF duo_reachable duo_codec_facts(1), of n]
  by (simp add: duo_at_def node_inv_def Let_def) (simp add: duo_node_def duo_world_def inbox_bucket_def dget_default_def)

lemma duo_pump:
  assumes "poll_recv (sn_world sn) 100 = (Inr (Some (duo_env m j)), w)" and "m \<in> {COMMIT, DISPUTE_SCORE}"
  obtains s where "pump_once sn 100 = (Inr (Some (duo_env m j)), s)"
    and "sn_inbox s = inbox_file (m, PStr ''r'', PInt 0) j (duo_pay m j) (sn_inbox sn)"
  using assms(2) duo_keys [OF assms(2), of j]
  by (auto simp: pump_once_def assms(1) pbind_def dispatch_def duo_env_def Let_def case_prod_unfold)

text \<open>One phase: the node sends its message, and reads the other's.\<close>

lemma duo_phase:
  assumes n: "n \<in> {''a'', ''b''}" and m: "m = (if i = 0 then COMMIT else DISPUTE_SCORE)" and i: "i \<le> 1" and sn: "duo_at n i sn"
  shows "\<exists>mid s frs. exchange m (duo_pay m n) (PStr ''r'') 0 {duo_other n} sn = Some (Inr [(duo_other n, duo_pay m (duo_other n))], s) \<and>
    node_run sn {} mid \<and> w_sent (sn_world mid) = w_sent (sn_world sn) @ [duo_frame m n] \<and>
    node_run mid frs s \<and> frs \<subseteq> {duo_frame m (duo_other n)} \<and> w_sent (sn_world s) = w_sent (sn_world mid) \<and> duo_at n (Suc i) s"
proof -
  let ?o = "duo_other n" and ?key = "(m, PStr ''r'', PInt 0)"
  have ms: "m \<in> {COMMIT, DISPUTE_SCORE}" using m by simp
  note o = duo_names(1) [OF n]
  have id: "sn_id sn = n" and ok: "swarm_ok sn" and cd: "w_codec (sn_world sn) = duo_codec" and clock: "w_clock (sn_world sn) = (\<lambda>_. 0)"
    and empty: "inbox_bucket (sn_inbox sn) ?key = []"
    using sn ms by (auto simp: duo_at_def)
  let ?mid = "sn\<lparr>sn_world := (sn_world sn)\<lparr>w_clock_i := Suc (w_clock_i (sn_world sn)), w_sent := w_sent (sn_world sn) @ [duo_frame m n]\<rparr>\<rparr>"
  have "packb duo_codec \<lparr>e_type = m, e_node_id = n, e_ts = 0, e_payload = duo_pay m n\<rparr> = Inr (snd (duo_frame m n))"
    using duo_codec_facts(2) [OF ms n] by (simp add: duo_env_def)
  then have pub: "publish_msg sn m (Some (duo_pay m n)) = (Inr (), ?mid)"
    by (simp add: publish_msg_def publish_def time_time_def encode_def id cd clock) (simp add: duo_frame_def)
  let ?sn3 = "snd (read_clock (snd (read_clock ?mid)))"
  let ?w = "(sn_world ?sn3)\<lparr>w_poll_i := Suc i\<rparr>"
  have "w_polls (sn_world ?sn3) (w_poll_i (sn_world ?sn3)) 100 = Some (duo_frame m ?o)" "w_poll_i (sn_world ?sn3) = i"
    "w_codec (sn_world ?sn3) = duo_codec"
    using sn i by (auto simp: duo_at_def duo_world_def m)
  then have poll: "poll_recv (sn_world ?sn3) 100 = (Inr (Some (duo_env m ?o)), ?w)"
    using duo_codec_facts(3) [OF ms o] by (simp add: poll_recv_def says_def case_prod_unfold)
  obtain sn4 where pump: "pump_once ?sn3 100 = (Inr (Some (duo_env m ?o)), sn4)"
    and inbox: "sn_inbox sn4 = inbox_file ?key ?o (duo_pay m ?o) (sn_inbox sn)"
    using duo_pump [OF poll ms] by auto
  let ?s = "sn4\<lparr>sn_inbox := inbox_drop ?key (sn_inbox sn4)\<rparr>"
  have ids: "e_node_id (duo_env m ?o) = ?o" "e_type (duo_env m ?o) = m" "e_payload (duo_env m ?o) = duo_pay m ?o"
    by (simp_all add: duo_env_def)
  have ex: "exchange m (duo_pay m n) (PStr ''r'') 0 {?o} sn = Some (Inr [(?o, duo_pay m ?o)], ?s)"
    using exchange_polled [OF pub _ empty clock pump, of ?o] by (simp add: ids duo_keys [OF ms])
  have run: "node_run sn {} ?mid"
    using run_send [OF node_run.Rest, of m sn "Some (duo_pay m n)"] ms by (auto simp: pub)
  have okm: "swarm_ok ?mid" using node_run_ok [OF run ok] duo_codec_facts(1) cd by simp
  have coll: "collect_until ?mid m (PStr ''r'') 0 {?o} SYNC_BARRIER_TIMEOUT = Some (Inr [(?o, duo_pay m ?o)], ?s)"
    using ex by (simp add: exchange_def pub)
  obtain frs where run': "node_run ?mid frs ?s"
    using collect_gathers [OF coll ms] okm by (auto simp: swarm_ok_def gathered_def)
  have kept: "sn_id sn4 = n" "w_codec (sn_world sn4) = duo_codec" "w_clock (sn_world sn4) = (\<lambda>_. 0)" "w_polls (sn_world sn4) = w_polls (duo_world n)"
    "w_poll_i (sn_world sn4) = Suc i" "w_sent (sn_world sn4) = w_sent (sn_world sn) @ [duo_frame m n]"
    using pump_once_fields [of ?sn3 100] sn unfolding pump by (simp_all add: duo_at_def)
  note end_ok = node_run_ok [OF run' okm]
  have "frs \<subseteq> {duo_frame m ?o}"
    using end_ok duo_codec_facts(1) sn i by (auto simp: polled_def kept duo_at_def duo_world_def m split: if_splits)
  moreover have "duo_at n (Suc i) ?s"
    using end_ok duo_codec_facts(1) sn by (auto simp: duo_at_def kept inbox inbox_bucket_drop inbox_bucket_file)
  ultimately show ?thesis
    using ex run run' kept by (intro exI [of _ ?mid] exI [of _ ?s] exI [of _ frs]) simp
qed

lemma duo_dispute:
  assumes "n \<in> {''a'', ''b''}"
  shows "detect_disputes [(n, duo_commit n), (duo_other n, duo_commit (duo_other n))] = [(1, {0, 1})]"
    and "own_scores (py_set_iter plain_python) (duo_probs n) [(1, {0, 1})] = Inr (duo_scores n)"
    and "resolve_disputes (py_exp plain_python) [(n, duo_scores n), (duo_other n, duo_scores (duo_other n))] = Inr [(1, 1)]"
proof -
  have cases: "n = ''a'' \<and> duo_other n = ''b'' \<or> n = ''b'' \<and> duo_other n = ''a''"
    using assms by (auto simp: duo_other_def)
  then show "detect_disputes [(n, duo_commit n), (duo_other n, duo_commit (duo_other n))] = [(1, {0, 1})]"
    by (auto simp: detect_disputes_def proposals_by_position_def propose_def dget_default_def duo_commit_def)
  show "own_scores (py_set_iter plain_python) (duo_probs n) [(1, {0, 1})] = Inr (duo_scores n)"
    by (simp add: own_scores_def col_index_def clamped_log_def duo_probs_def duo_scores_def)
  show "resolve_disputes (py_exp plain_python) [(n, duo_scores n), (duo_other n, duo_scores (duo_other n))] = Inr [(1, 1)]"
    using cases by (elim disjE conjE) (simp_all add: resolve_disputes_def tally_def tally_candidates_def dget_default_def
      key_less_def plain_python_exp exp_eighths duo_scores_def)
qed

text \<open>The sync of one of them, message by message.\<close>

definition duo_synced :: "string \<Rightarrow> (int, int) dict \<times> int option \<times> stop_detector \<Rightarrow> swarm_node \<Rightarrow> bool" where
  "duo_synced n res s \<longleftrightarrow>
     do_sync plain_python (PStr ''r'') 0 {duo_other n} (duo_commit n) (duo_probs n) [(0, 9)] 1 4 (StopDetector example_cfg)
       (duo_node n) = Some (Inr res, s) \<and>
     heard_from_all plain_python (PStr ''r'') 0 {''a'', ''b''} (duo_commit n) (duo_probs n) (duo_node n) \<and>
     map_of (fst res) 1 = Some 1"

lemma duo_sync:
  assumes n: "n \<in> {''a'', ''b''}"
  obtains res mid1 s1 mid2 s2 frs1 frs2 where "duo_synced n res s2"
    and "node_run (duo_node n) {} mid1" and "w_sent (sn_world mid1) = [duo_frame COMMIT n]"
    and "node_run mid1 frs1 s1" and "frs1 \<subseteq> {duo_frame COMMIT (duo_other n)}"
    and "node_run s1 {} mid2" and "w_sent (sn_world mid2) = [duo_frame COMMIT n, duo_frame DISPUTE_SCORE n]"
    and "node_run mid2 frs2 s2" and "frs2 \<subseteq> {duo_frame DISPUTE_SCORE (duo_other n)}" and "w_sent (sn_world s2) = w_sent (sn_world mid2)"
proof -
  let ?o = "duo_other n" and ?c = "duo_commit n"
  note other = duo_names [OF n]
  have pays: "duo_pay COMMIT k = commit_payload (PStr ''r'') 0 (duo_commit k)"
    "duo_pay DISPUTE_SCORE k = score_payload (PStr ''r'') 0 (duo_scores k)" for k
    by (simp_all add: duo_pay_def)
  have sent0: "w_sent (sn_world (duo_node n)) = []" by (simp add: duo_node_def duo_world_def)
  obtain mid1 s1 frs1 where ex1: "exchange COMMIT (duo_pay COMMIT n) (PStr ''r'') 0 {?o} (duo_node n) = Some (Inr [(?o, duo_pay COMMIT ?o)], s1)"
    and run1: "node_run (duo_node n) {} mid1" "w_sent (sn_world mid1) = [duo_frame COMMIT n]" "node_run mid1 frs1 s1"
      "frs1 \<subseteq> {duo_frame COMMIT ?o}" "w_sent (sn_world s1) = [duo_frame COMMIT n]" and at1: "duo_at n 1 s1"
    using duo_phase [OF n _ _ duo_start [OF n], of COMMIT] by (auto simp: sent0)
  obtain mid2 s2 frs2 where ex2: "exchange DISPUTE_SCORE (duo_pay DISPUTE_SCORE n) (PStr ''r'') 0 {?o} s1 = Some (Inr [(?o, duo_pay DISPUTE_SCORE ?o)], s2)"
    and run2: "node_run s1 {} mid2" "w_sent (sn_world mid2) = [duo_frame COMMIT n, duo_frame DISPUTE_SCORE n]" "node_run mid2 frs2 s2"
      "frs2 \<subseteq> {duo_frame DISPUTE_SCORE ?o}" "w_sent (sn_world s2) = w_sent (sn_world mid2)"
    using duo_phase [OF n _ _ at1, of DISPUTE_SCORE] by (auto simp: run1(5))
  have ids: "sn_id s1 = n" "sn_id s2 = n" "sn_id (duo_node n) = n"
    using at1 exchange_id [OF ex2] by (simp_all add: duo_at_def duo_node_def)
  let ?all = "[(n, ?c), (?o, duo_commit ?o)]"
  have all: "with_others parse_commit n ?c [(?o, duo_pay COMMIT ?o)] = Inr ?all"
    and scores: "with_others parse_scores n (duo_scores n) [(?o, duo_pay DISPUTE_SCORE ?o)] = Inr [(n, duo_scores n), (?o, duo_scores ?o)]"
    using other(2) by (simp_all add: with_others_def pays parse_commit_own parse_scores_own duo_oks)
  note dispute = duo_dispute [OF n]
  let ?x = "merge_consensus (py_set_iter plain_python) [(0, 9)] ?all [(1, 1)]"
  obtain f sd where chk: "check (StopDetector example_cfg) ?x 1 4 = (f, sd)" by (metis prod.collapse)
  have settled: "settle_disputes plain_python (PStr ''r'') 0 {?o} (duo_probs n) [(1, {0, 1})] s1 = Some (Inr [(1, 1)], s2)"
    unfolding settle_disputes_def dispute(2) tbind_simps ex2 [unfolded pays(2)] by (simp add: ids scores [unfolded pays] dispute(3) pays)
  have "do_sync plain_python (PStr ''r'') 0 {?o} ?c (duo_probs n) [(0, 9)] 1 4 (StopDetector example_cfg) (duo_node n) =
      Some (Inr (?x, f, sd), s2)"
    unfolding do_sync_def ex1 [unfolded pays(1)] tbind_simps ids all [unfolded pays] dispute(1) Let_def
    by (simp add: settled chk del: plain_python_sets)
  moreover have "heard_from_all plain_python (PStr ''r'') 0 {''a'', ''b''} ?c (duo_probs n) (duo_node n)"
    unfolding heard_from_all_def Let_def ids(3) other(3) ex1 [unfolded pays(1)]
    using all dispute(1,2) ex2 by (auto simp: pays simp del: plain_python_sets)
  moreover have "map_of ?x 1 = Some 1"
  proof -
    have "proposed ?all 1 \<noteq> {}" by (simp add: proposed_rec duo_commit_def)
    then show ?thesis by (simp add: merge_lookup)
  qed
  ultimately have "duo_synced n (?x, f, sd) s2" by (simp add: duo_synced_def)
  then show thesis by (rule that [OF _ run1(1-4) run2])
qed

lemma duo_one_report:
  assumes "n \<in> {''a'', ''b''}" and "w_sent (sn_world sn) = [duo_frame COMMIT n, duo_frame DISPUTE_SCORE n]"
  shows "one_report duo_codec sn (PStr ''r'') 0"
proof -
  have "env = duo_env k n" if "says duo_codec (duo_frame k n) env" "k \<in> {COMMIT, DISPUTE_SCORE}" for k env
    using that says_unique duo_codec_facts(3) assms(1) by blast
  then have "p = duo_pay m n" if "reports duo_codec sn (m, PStr ''r'', PInt 0) p" "m \<in> {COMMIT, DISPUTE_SCORE}" for m p
    using that by (fastforce simp: reports_def assms(2) duo_env_def payload_key_def)
  then show ?thesis unfolding one_report_def by blast
qed

theorem swarm_converges_witness:
  "\<exists>net res_a res_b. reachable {''a'', ''b''} duo_codec net \<and>
     synced {''a'', ''b''} duo_codec net ''a'' plain_python (PStr ''r'') 0 {''a'', ''b''} [(1, (0, 3 / 4))]
       [[1 / 2, 1 / 2], [3 / 4, 1 / 4]] [(0, 9)] 1 4 (StopDetector example_cfg) res_a \<and>
     synced {''a'', ''b''} duo_codec net ''b'' plain_python (PStr ''r'') 0 {''a'', ''b''} [(1, (1, 7 / 8))]
       [[1 / 2, 1 / 2], [1 / 8, 7 / 8]] [(0, 9)] 1 4 (StopDetector example_cfg) res_b \<and>
     map_of (fst res_a) 1 = Some 1 \<and> map_of (fst res_a) = map_of (fst res_b)"
proof -
  let ?N = "{''a'', ''b''}" and ?cd = duo_codec
  have others: "duo_other ''a'' = ''b''" "duo_other ''b'' = ''a''" "?N - {''a''} = {''b''}" "?N - {''b''} = {''a''}"
    by (auto simp: duo_other_def)
  obtain ra a1 a2 a3 a4 fa ga where a: "duo_synced ''a'' ra a4"
      "node_run (duo_node ''a'') {} a1" "w_sent (sn_world a1) = [duo_frame COMMIT ''a'']" "node_run a1 fa a2" "fa \<subseteq> {duo_frame COMMIT ''b''}"
      "node_run a2 {} a3" "w_sent (sn_world a3) = [duo_frame COMMIT ''a'', duo_frame DISPUTE_SCORE ''a'']" "node_run a3 ga a4"
      "ga \<subseteq> {duo_frame DISPUTE_SCORE ''b''}" "w_sent (sn_world a4) = w_sent (sn_world a3)"
    using duo_sync [of "''a''"] unfolding others by (metis insertCI)
  obtain rb b1 b2 b3 b4 fb gb where b: "duo_synced ''b'' rb b4"
      "node_run (duo_node ''b'') {} b1" "w_sent (sn_world b1) = [duo_frame COMMIT ''b'']" "node_run b1 fb b2" "fb \<subseteq> {duo_frame COMMIT ''a''}"
      "node_run b2 {} b3" "w_sent (sn_world b3) = [duo_frame COMMIT ''b'', duo_frame DISPUTE_SCORE ''b'']" "node_run b3 gb b4"
      "gb \<subseteq> {duo_frame DISPUTE_SCORE ''a''}" "w_sent (sn_world b4) = w_sent (sn_world b3)"
    using duo_sync [of "''b''"] unfolding others by (metis insertCI)
  let ?n1 = "duo_node(''b'' := b1)"
  let ?n2 = "?n1(''a'' := a3)"
  let ?n3 = "?n2(''b'' := b4)"
  let ?n4 = "?n3(''a'' := a4)"
  note ok = duo_codec_facts(1)
  have r01: "net_run ?N duo_node ?n1" by (rule net_run_node [OF b(2) _ _ _ duo_reachable ok]) simp_all
  note r1 = reachable_run [OF r01 duo_reachable]
  have runa: "node_run (duo_node ''a'') (({} \<union> fa) \<union> {}) a3" by (intro node_run_trans [OF a(6)] node_run_trans [OF a(4)] a(2))
  have aira: "({} \<union> fa) \<union> {} \<subseteq> air ?N ?n1" using a(5) b(3) by (auto simp: air_def)
  have r12: "net_run ?N ?n1 ?n2" by (rule net_run_node [OF runa _ aira _ r1 ok]) simp_all
  note r2 = reachable_run [OF r12 r1]
  have runb: "node_run b1 ((fb \<union> {}) \<union> gb) b4" by (intro node_run_trans [OF b(8)] node_run_trans [OF b(6)] b(4))
  have airb: "(fb \<union> {}) \<union> gb \<subseteq> air ?N ?n2" using b(5,9) a(7) by (auto simp: air_def)
  have r23: "net_run ?N ?n2 ?n3" by (rule net_run_node [OF runb _ airb _ r2 ok]) simp_all
  note r3 = reachable_run [OF r23 r2]
  have "ga \<subseteq> air ?N ?n3" using a(9) b(7,10) by (auto simp: air_def)
  then have r34: "net_run ?N ?n3 ?n4" by (intro net_run_node [OF a(8) _ _ _ r3 ok]) simp_all
  note r4 = reachable_run [OF r34 r3]
  have r14: "net_run ?N ?n1 ?n4" and r04: "net_run ?N duo_node ?n4" using r01 r12 r23 r34 by (meson rtranclp_trans)+
  have sync_a: "synced ?N ?cd ?n4 ''a'' plain_python (PStr ''r'') 0 ?N (duo_commit ''a'') (duo_probs ''a'')
       [(0, 9)] 1 4 (StopDetector example_cfg) ra"
    by (rule syncedI [OF r1 r14 rtranclp.rtrancl_refl], unfold others) (use a(1) in \<open>simp_all add: duo_synced_def others\<close>)
  have sync_b: "synced ?N ?cd ?n4 ''b'' plain_python (PStr ''r'') 0 ?N (duo_commit ''b'') (duo_probs ''b'')
       [(0, 9)] 1 4 (StopDetector example_cfg) rb"
    by (rule syncedI [OF duo_reachable r04 rtranclp.rtrancl_refl], unfold others) (use b(1) in \<open>simp_all add: duo_synced_def others\<close>)
  have "\<forall>n \<in> ?N. one_report ?cd (?n4 n) (PStr ''r'') 0"
    using duo_one_report [of "''a''" a4] duo_one_report [of "''b''" b4] a(7,10) b(7,10) by simp
  moreover have "settled_sums double_exp ?cd ?n4 (PStr ''r'') 0 ?N"
    using settled_pair [OF _ _ plain_python_exp_ok] by (simp add: plain_python_exp card_insert_if)
  moreover obtain x_a f_a sd_a x_b f_b sd_b where res: "ra = (x_a, f_a, sd_a)" "rb = (x_b, f_b, sd_b)" by (metis prod_cases3)
  ultimately have "map_of (fst ra) = map_of (fst rb)"
    using swarm_converges [OF ok _ _ _ _ _ sync_a [unfolded res] sync_b [unfolded res]
      plain_python_order plain_python_order duo_oks(1) duo_oks(1) refl plain_python_exp plain_python_exp] by simp
  moreover have "map_of (fst ra) 1 = Some 1" using a(1) by (simp add: duo_synced_def)
  ultimately show ?thesis
    using r4 sync_a sync_b by (intro exI [of _ ?n4] exI [of _ ra] exI [of _ rb]) (simp add: duo_commit_def duo_probs_def)
qed

subsection \<open>Authenticity\<close>

text \<open>C15: no report is made up or misfiled. Whatever the swarm has been through, a message that waits in
  the inbox of a node for some type, round and sync, under the name of a sender, was sent by a
  node of the swarm with that name, for exactly that type, round and sync, with that payload.\<close>

theorem inbox_authentic:
  assumes "reachable N cd net" and "codec_ok cd" and "n \<in> N" and "inbox_look (sn_inbox (net n)) key j = Some p"
  shows "j \<in> N \<and> reports cd (net j) key p"
proof -
  have "filed_by cd (air N net) key j p"
    using reachable_inv [OF assms(1-3)] assms(4) unfolding node_inv_def Let_def by blast
  then show ?thesis by (rule filed_reported [OF assms(1,2)])
qed

theorem inbox_authentic_witness:
  "\<exists>net p. reachable {''a'', ''b''} duo_codec net \<and>
     inbox_look (sn_inbox (net ''a'')) (COMMIT, PStr ''r'', PInt 0) ''b'' = Some p \<and>
     reports duo_codec (net ''b'') (COMMIT, PStr ''r'', PInt 0) p"
proof -
  let ?N = "{''a'', ''b''}" and ?key = "(COMMIT, PStr ''r'', PInt 0)" and ?p = "duo_pay COMMIT ''b''"
  obtain b where b: "node_run (duo_node ''b'') {} b" "w_sent (sn_world b) = [duo_frame COMMIT ''b'']"
    using duo_sync [of "''b''"] by (metis insertCI)
  let ?a = "snd (pump_once (duo_node ''a'') 100)"
  let ?n1 = "duo_node(''b'' := b)"
  let ?n2 = "?n1(''a'' := ?a)"
  have "net_run ?N duo_node ?n1" by (rule net_run_node [OF b(1) _ _ _ duo_reachable duo_codec_facts(1)]) simp_all
  then have r1: "reachable ?N duo_codec ?n1" by (rule reachable_run [OF _ duo_reachable])
  have "offers (duo_node ''a'') = {duo_frame COMMIT ''b''}" by (auto simp: offers_def duo_node_def duo_world_def duo_other_def)
  moreover have "node_step (?n1 ''a'') (offers (duo_node ''a'')) ?a"
    using node_step.Receive [of "duo_node ''a''" 100] by simp
  ultimately have "net_step ?N ?n1 ?n2"
    by (intro net_step.Node) (auto simp: air_def b(2))
  with r1 have r2: "reachable ?N duo_codec ?n2" by (rule reachable.Step)
  have poll: "poll_recv (sn_world (duo_node ''a'')) 100 = (Inr (Some (duo_env COMMIT ''b'')), (duo_world ''a'')\<lparr>w_poll_i := 1\<rparr>)"
    using duo_codec_facts(3) [of COMMIT "''b''"] by (simp add: poll_recv_def says_def duo_node_def duo_world_def duo_other_def case_prod_unfold)
  obtain s where "pump_once (duo_node ''a'') 100 = (Inr (Some (duo_env COMMIT ''b'')), s)"
    and "sn_inbox s = inbox_file ?key ''b'' ?p (sn_inbox (duo_node ''a''))"
    using duo_pump [OF poll] by auto
  then have look: "inbox_look (sn_inbox (?n2 ''a'')) ?key ''b'' = Some ?p"
    by (simp add: inbox_look_def inbox_bucket_file)
  from inbox_authentic [OF r2 duo_codec_facts(1) _ look] r2 look show ?thesis by blast
qed

subsection \<open>A sync that hears nobody\<close>

lemma proposed_alone:
  assumes "dict_ok c"
  shows "proposed [(n, c)] p = (case map_of c p of None \<Rightarrow> {} | Some (t, conf) \<Rightarrow> {t})"
proof -
  have "proposed [(n, c)] p = {t. \<exists>conf. map_of c p = Some (t, conf)}"
    using assms by (auto simp: proposed_def)
  then show ?thesis by (auto split: option.splits)
qed

lemma no_disputes_alone:
  assumes "dict_ok c"
  shows "detect_disputes [(n, c)] = []"
proof -
  have "map_of (detect_disputes [(n, c)]) p = None" for p
    by (simp add: lookup_disputes proposed_alone [OF assms] split: option.splits prod.splits)
  then show ?thesis by (metis list.exhaust map_of_eq_None_iff image_eqI list.set_intros(1) prod.collapse)
qed

text \<open>C32: a node whose barrier runs out runs solo. If the wait for the others' commits ends with none, the sync
  raises nothing and asks nobody for scores: it takes every token the node has proposed itself, as
  if it were agreed, and leaves the rest of the shared state as it was. So a node that was heard by
  others, but did not hear them in time, keeps its own token at every position on which
  they go on to dispute and outvote it; this is the split \<open>common/config.py\<close> describes.\<close>

theorem unheard_sync_runs_solo:
  assumes "exchange COMMIT (commit_payload rid q c) rid q others sn = Some (Inr [], sn1)"
    and "dict_ok c" and "set_order (py_set_iter py)"
  shows "\<exists>x' f sd'. do_sync py rid q others c my_p x gs ge sd sn = Some (Inr (x', f, sd'), sn1) \<and>
    (f, sd') = check sd x' gs ge \<and>
    (\<forall>p. map_of x' p = (case map_of c p of Some (t, conf) \<Rightarrow> Some t | None \<Rightarrow> map_of x p))"
proof -
  let ?x = "merge_consensus (py_set_iter py) x [(sn_id sn1, c)] []"
  obtain f sd' where chk: "check sd ?x gs ge = (f, sd')" by (metis prod.collapse)
  have "do_sync py rid q others c my_p x gs ge sd sn = Some (Inr (?x, f, sd'), sn1)"
    by (simp add: do_sync_def assms(1) with_others_def no_disputes_alone [OF assms(2)] chk Let_def)
  moreover have "map_of ?x p = (case map_of c p of Some (t, conf) \<Rightarrow> Some t | None \<Rightarrow> map_of x p)" for p
    by (simp add: merge_lookup proposed_alone [OF assms(2)] set_order_singleton [OF assms(3)] split: option.splits prod.splits)
  ultimately show ?thesis using chk by metis
qed

theorem unheard_sync_runs_solo_witness:
  "let sn = lone_node\<lparr>sn_world := (sn_world lone_node)\<lparr>w_clock := (\<lambda>i. 1 + 100 * real i)\<rparr>\<rparr> in
   \<exists>x' f sd' sn1. do_sync plain_python (round_id example_round) 0 {''node-a''} lone_commit [] [(0, 2)] 1 3
     (StopDetector example_cfg) sn = Some (Inr (x', f, sd'), sn1) \<and> map_of x' 1 = Some 2 \<and> map_of x' 0 = Some 2"
proof -
  let ?sn = "lone_node\<lparr>sn_world := (sn_world lone_node)\<lparr>w_clock := (\<lambda>i. 1 + 100 * real i)\<rparr>\<rparr>"
  let ?pay = "commit_payload (round_id example_round) 0 lone_commit"
  have "packb lone_codec \<lparr>e_type = COMMIT, e_node_id = ''node-b'', e_ts = 1, e_payload = ?pay\<rparr> = Inr ''body''"
    by (simp add: lone_codec_def table_codec_def)
  then have "publish_msg ?sn COMMIT (Some ?pay) =
      (Inr (), ?sn\<lparr>sn_world := (sn_world ?sn)\<lparr>w_clock_i := 1, w_sent := [(''node-b'', ''body'')]\<rparr>\<rparr>)"
    by (simp add: publish_msg_def publish_def time_time_def encode_def lone_node_def)
  moreover have "key_hashable (COMMIT, round_id example_round, PInt 0)" by (simp add: example_round_def)
  ultimately have "\<exists>sn1. exchange COMMIT ?pay (round_id example_round) 0 {''node-a''} ?sn = Some (Inr [], sn1)"
    by (simp add: exchange_def collect_until_def collect_loop.simps read_clock_def time_time_def Let_def lone_node_def
        inbox_bucket_def dget_default_def SYNC_BARRIER_TIMEOUT_def del: example_round_fields)
  then obtain sn1 where ex: "exchange COMMIT ?pay (round_id example_round) 0 {''node-a''} ?sn = Some (Inr [], sn1)" by blast
  have "dict_ok lone_commit" by (simp add: lone_commit_def)
  from unheard_sync_runs_solo [OF ex this plain_python_order, of "[]" "[(0, 2)]" 1 3 "StopDetector example_cfg"]
  obtain x' f sd' where run: "do_sync plain_python (round_id example_round) 0 {''node-a''} lone_commit [] [(0, 2)] 1 3
     (StopDetector example_cfg) ?sn = Some (Inr (x', f, sd'), sn1)"
    and x': "\<forall>p. map_of x' p = (case map_of lone_commit p of Some (t, conf) \<Rightarrow> Some t | None \<Rightarrow> map_of [(0, 2)] p)"
    by blast
  have "map_of x' 1 = Some 2 \<and> map_of x' 0 = Some 2" unfolding spec [OF x'] by (simp add: lone_commit_def)
  with run show ?thesis unfolding Let_def by blast
qed

end
