(* ===== verification/Own_Reports.thy ===== *)
theory Own_Reports imports Swarm_Sync begin

section \<open>What a node reports in a round\<close>

text \<open>
  The nodes of a swarm can only agree on a sync if each of them says one thing in it. Here: a node
  that runs \<open>run_round\<close> publishes at most one \<open>COMMIT\<close> and one \<open>DISPUTE_SCORE\<close> for each number
  \<open>sync_seq\<close>, whatever it hears and however the round ends. \<open>neat\<close> is the invariant: one report for
  each sync so far, and none yet for a sync still to come.
\<close>

lemma reports_sent: "w_sent (sn_world s) = w_sent (sn_world sn) \<Longrightarrow> reports cd s key p \<longleftrightarrow> reports cd sn key p"
  by (simp add: reports_def)

lemma publish_says:
  assumes "reports (w_codec (sn_world sn)) (snd (publish_msg sn m d)) key p" and "codec_ok (w_codec (sn_world sn))"
    and "payload = (case d of None \<Rightarrow> [] | Some d \<Rightarrow> d)"
  shows "reports (w_codec (sn_world sn)) sn key p \<or> key = payload_key m payload \<and> p = payload"
proof -
  obtain new where new: "w_sent (sn_world (snd (publish_msg sn m d))) = w_sent (sn_world sn) @ new"
    "\<forall>fr \<in> set new. \<exists>ts. packb (w_codec (sn_world sn)) \<lparr>e_type = m, e_node_id = sn_id sn, e_ts = ts, e_payload = payload\<rparr> = Inr (snd fr)"
    using publish_msg_sent [of sn m d] unfolding assms(3) by blast
  from new(2) have "e_type env = m \<and> e_payload env = payload" if "fr \<in> set new" "says (w_codec (sn_world sn)) fr env" for fr env
    using that assms(2) unfolding codec_ok_def says_def decode_def by fastforce
  then show ?thesis using assms(1) unfolding reports_def new(1) by auto
qed

lemmas publish_reports = publish_says [where d = "Some payload" and payload = payload for payload, simplified]

lemma collect_until_sent:
  "collect_until sn m rid sync ex t = Some (r, sn') \<Longrightarrow>
     w_sent (sn_world sn') = w_sent (sn_world sn) \<and> w_codec (sn_world sn') = w_codec (sn_world sn)"
proof -
  let ?P = "\<lambda>s. w_sent (sn_world s) = w_sent (sn_world sn) \<and> w_codec (sn_world s) = w_codec (sn_world sn)"
  have loop: "?P s'" if "collect_loop key d acc s = Some (r', s')" "?P s" for key d acc s r' s'
    using collect_loop_keeps [where P = ?P, OF that] by simp
  have start: "?P (snd (read_clock sn))" by simp
  show "collect_until sn m rid sync ex t = Some (r, sn') \<Longrightarrow> ?P sn'"
    using loop [OF _ start]
    by (auto simp: collect_until_def Let_def case_prod_unfold simp del: read_clock_fields
        split: if_splits option.splits sum.splits)
qed

lemma exchange_says:
  assumes "exchange m payload rid q others sn = Some (r, sn')" and "codec_ok cd" and "w_codec (sn_world sn) = cd"
  shows "w_codec (sn_world sn') = cd"
    and "reports cd sn' key p \<Longrightarrow> reports cd sn key p \<or> key = payload_key m payload \<and> p = payload"
proof -
  let ?s = "snd (publish_msg sn m (Some payload))"
  have "sn' = ?s \<or> (\<exists>r. collect_until ?s m rid q others SYNC_BARRIER_TIMEOUT = Some (r, sn'))"
    using assms(1) by (auto simp: exchange_def tbind_def split: prod.splits sum.splits)
  then have "w_sent (sn_world sn') = w_sent (sn_world ?s) \<and> w_codec (sn_world sn') = w_codec (sn_world ?s)"
    using collect_until_sent by blast
  then have same: "w_sent (sn_world sn') = w_sent (sn_world ?s)" "w_codec (sn_world sn') = w_codec (sn_world sn)" by simp_all
  show "w_codec (sn_world sn') = cd" using same(2) assms(3) by simp
  assume "reports cd sn' key p"
  then have "reports cd ?s key p" using reports_sent [OF same(1)] by blast
  then show "reports cd sn key p \<or> key = payload_key m payload \<and> p = payload"
    by (rule publish_reports [of sn, unfolded assms(3), OF _ assms(2)])
qed

definition silent_from :: "codec \<Rightarrow> pyval \<Rightarrow> int \<Rightarrow> swarm_node \<Rightarrow> bool" where
  "silent_from cd rid q sn \<longleftrightarrow>
     (\<forall>m \<in> {COMMIT, DISPUTE_SCORE}. \<forall>k \<ge> q. \<forall>p. \<not> reports cd sn (m, rid, PInt k) p)"

definition neat :: "codec \<Rightarrow> pyval \<Rightarrow> int \<Rightarrow> swarm_node \<Rightarrow> bool" where
  "neat cd rid q sn \<longleftrightarrow> w_codec (sn_world sn) = cd \<and> (\<forall>k. one_report cd sn rid k) \<and> silent_from cd rid q sn"

text \<open>After a sync, at most its own commits and its own scores are new.\<close>

definition own_words :: "pyval \<Rightarrow> int \<Rightarrow> payload \<Rightarrow> payload \<Rightarrow> (inbox_key \<times> payload) set" where
  "own_words rid q pc ps = {((COMMIT, rid, PInt q), pc), ((DISPUTE_SCORE, rid, PInt q), ps)}"

lemma own_words_key: "((m, rid, PInt k), pl) \<in> own_words rid q pc ps \<Longrightarrow> k = q"
  by (auto simp: own_words_def)

lemma own_words_once: "(key, pl) \<in> own_words rid q pc ps \<Longrightarrow> (key, pl') \<in> own_words rid q pc ps \<Longrightarrow> pl = pl'"
  by (auto simp: own_words_def)

lemma do_sync_says:
  assumes "do_sync py rid q others c p x gs ge sd sn = Some (r, sn')" and "codec_ok cd" and "w_codec (sn_world sn) = cd"
  shows "w_codec (sn_world sn') = cd \<and>
    (\<exists>ps. \<forall>key pl. reports cd sn' key pl \<longrightarrow> reports cd sn key pl \<or> (key, pl) \<in> own_words rid q (commit_payload rid q c) ps)"
proof -
  let ?pc = "commit_payload rid q c"
  obtain raw sn1 where ex: "exchange COMMIT ?pc rid q others sn = Some (raw, sn1)"
    using assms(1) by (auto simp: do_sync_def tbind_def split: option.splits)
  note c1 = exchange_says(1) [OF ex assms(2,3)] and r1 = exchange_says(2) [OF ex assms(2,3), unfolded payload_keys]
  have "sn' = sn1 \<or> (\<exists>s r. exchange DISPUTE_SCORE (score_payload rid q s) rid q others sn1 = Some (r, sn'))"
    using assms(1) ex unfolding do_sync_def settle_disputes_def Let_def
    by (auto simp: tbind_def split: option.splits sum.splits if_splits prod.splits)
  then show ?thesis
  proof
    assume "sn' = sn1"
    with c1 r1 show ?thesis unfolding own_words_def by blast
  next
    assume "\<exists>s r. exchange DISPUTE_SCORE (score_payload rid q s) rid q others sn1 = Some (r, sn')"
    then obtain s r where ex2: "exchange DISPUTE_SCORE (score_payload rid q s) rid q others sn1 = Some (r, sn')" by blast
    note c2 = exchange_says(1) [OF ex2 assms(2) c1] and r2 = exchange_says(2) [OF ex2 assms(2) c1, unfolded payload_keys]
    have "reports cd sn key pl \<or> (key, pl) \<in> own_words rid q ?pc (score_payload rid q s)" if "reports cd sn' key pl" for key pl
      using r2 [OF that] r1 [of key pl] unfolding own_words_def by blast
    with c2 show ?thesis by blast
  qed
qed

lemma do_sync_neat:
  assumes "do_sync py rid q others c p x gs ge sd sn = Some (r, sn')" and "codec_ok cd" and "neat cd rid q sn"
  shows "neat cd rid (q + 1) sn'"
proof -
  have sn: "w_codec (sn_world sn) = cd" using assms(3) by (simp add: neat_def)
  define pc where "pc = commit_payload rid q c"
  obtain ps where said: "reports cd sn' key pl \<Longrightarrow> reports cd sn key pl \<or> (key, pl) \<in> own_words rid q pc ps" for key pl
    using do_sync_says [OF assms(1,2) sn] unfolding pc_def by blast
  have none: "\<not> reports cd sn (m, rid, PInt k) pl" if "m \<in> {COMMIT, DISPUTE_SCORE}" "q \<le> k" for m k pl
    using assms(3) that unfolding neat_def silent_from_def by blast
  have one: "one_report cd sn rid k" for k using assms(3) unfolding neat_def by blast
  have same: "pl = pl'" if m: "m \<in> {COMMIT, DISPUTE_SCORE}" and two: "reports cd sn' (m, rid, PInt k) pl" "reports cd sn' (m, rid, PInt k) pl'"
    for m k pl pl'
  proof (cases "k = q")
    case True
    then show ?thesis using said [OF two(1)] said [OF two(2)] none [OF m] own_words_once by (metis order_refl)
  next
    case False
    then have "reports cd sn (m, rid, PInt k) pl" "reports cd sn (m, rid, PInt k) pl'"
      using said [OF two(1)] said [OF two(2)] own_words_key by blast+
    then show ?thesis using one [of k] m unfolding one_report_def by blast
  qed
  have once: "one_report cd sn' rid k" for k
    unfolding one_report_def by (intro ballI allI impI) (rule same)
  have later: "\<not> reports cd sn' (m, rid, PInt k) pl" if "m \<in> {COMMIT, DISPUTE_SCORE}" "q + 1 \<le> k" for m k pl
    using said [of "(m, rid, PInt k)" pl] none [OF that(1), of k pl] that(2) own_words_key [of m rid k pl q pc ps] by linarith
  have "silent_from cd rid (q + 1) sn'"
    unfolding silent_from_def by (intro ballI allI impI) (rule later)
  moreover have "w_codec (sn_world sn') = cd" using do_sync_says [OF assms(1,2) sn] by (rule conjunct1)
  ultimately show ?thesis using once by (simp add: neat_def)
qed

text \<open>The loops of a round.\<close>

definition stays_neat :: "codec \<Rightarrow> pyval \<Rightarrow> (loop_vars option result \<times> swarm_node) option \<Rightarrow> bool" where
  "stays_neat cd rid m \<longleftrightarrow> (\<forall>r s. m = Some (r, s) \<longrightarrow>
     (\<exists>q. neat cd rid q s \<and> (\<forall>lv. r = Inr (Some lv) \<longrightarrow> lv_seq lv = q)))"

lemma neat_sent:
  assumes "neat cd rid q sn" and "w_sent (sn_world s) = w_sent (sn_world sn)" and "w_codec (sn_world s) = w_codec (sn_world sn)"
  shows "neat cd rid q s"
proof -
  have "reports cd s = reports cd sn" using assms(2) by (intro ext) (simp add: reports_def)
  then have "neat cd rid q s \<longleftrightarrow> neat cd rid q sn"
    unfolding neat_def one_report_def silent_from_def by (simp only: assms(3))
  with assms(1) show ?thesis by blast
qed

lemma stays_neat_bind:
  assumes "stays_neat cd rid m" and "\<And>s. \<exists>q. neat cd rid q s \<Longrightarrow> stays_neat cd rid (f None s)"
    and "\<And>lv s. neat cd rid (lv_seq lv) s \<Longrightarrow> stays_neat cd rid (f (Some lv) s)"
  shows "stays_neat cd rid (tbind m f)"
proof (cases m)
  case (Some rs)
  obtain r s where rs: "rs = (r, s)" by (cases rs)
  with Some assms(1) obtain q where q: "neat cd rid q s" "\<forall>lv. r = Inr (Some lv) \<longrightarrow> lv_seq lv = q"
    unfolding stays_neat_def by blast
  show ?thesis
  proof (cases r)
    case (Inl e)
    with q show ?thesis by (auto simp: Some rs tbind_def stays_neat_def)
  next
    case (Inr v)
    with q assms(2,3) show ?thesis by (cases v) (auto simp: Some rs tbind_def)
  qed
qed (simp add: tbind_def stays_neat_def)

lemma adopt_shared_seq [simp]: "lv_seq (adopt_shared bs be lv) = lv_seq lv"
proof -
  have "lv_seq (fold (\<lambda>(pos, token) lv. if int bs \<le> pos \<and> pos < int be
       then lv\<lparr>lv_x := (lv_x lv)[nat pos := token], lv_age := (lv_age lv)[nat pos := 0]\<rparr> else lv) xs lv) = lv_seq lv" for xs
    by (induction xs arbitrary: lv) auto
  then show ?thesis by (simp add: adopt_shared_def)
qed

lemma gen_step_neat:
  assumes "neat cd rid (lv_seq lv) sn" and "codec_ok cd"
  shows "stays_neat cd rid (gen_step ru cfg rid others gs ge bs be spb i lv sn)"
proof -
  obtain m sn1 where pump: "pump_once sn 10 = (m, sn1)" by (cases "pump_once sn 10")
  obtain now sn2 where clock: "read_clock sn1 = (now, sn2)" by (cases "read_clock sn1")
  obtain failed rm where chk: "check_leader_timeout (sn_round sn2) None now = (failed, rm)"
    by (cases "check_leader_timeout (sn_round sn2) None now")
  let ?sn3 = "sn2\<lparr>sn_round := rm\<rparr>"
  have 1: "neat cd rid (lv_seq lv) sn1"
    by (rule neat_sent [OF assms(1)]) (use pump_once_fields [of sn 10] in \<open>simp_all add: pump\<close>)
  have 2: "neat cd rid (lv_seq lv) sn2"
    by (rule neat_sent [OF 1]) (use read_clock_fields [of sn1] in \<open>simp_all add: clock\<close>)
  have 3: "neat cd rid (lv_seq lv) ?sn3" by (rule neat_sent [OF 2]) simp_all
  show ?thesis
    unfolding stays_neat_def
  proof (intro allI impI)
    fix r s assume run: "gen_step ru cfg rid others gs ge bs be spb i lv sn = Some (r, s)"
    have "(r = Inl (projl r) \<or> r = Inr None) \<and> s \<in> {sn1, ?sn3} \<or>
        (\<exists>lv'. r = Inr (Some lv') \<and> s = ?sn3 \<and> lv_seq lv' = lv_seq lv) \<or>
        (\<exists>c p rs. do_sync (ru_python ru) rid (lv_seq lv) others c p (lv_shared lv) (int gs) (int ge) (lv_sd lv) ?sn3 = Some (rs, s) \<and>
          (\<forall>lv'. r = Inr (Some lv') \<longrightarrow> lv_seq lv' = lv_seq lv + 1))"
      using run unfolding gen_step_def pump Let_def
      by (auto simp: clock chk tbind_def split: sum.splits if_splits option.splits prod.splits)
    then show "\<exists>q. neat cd rid q s \<and> (\<forall>lv. r = Inr (Some lv) \<longrightarrow> lv_seq lv = q)"
      using 1 3 do_sync_neat [OF _ assms(2) 3] by (elim disjE exE conjE; force)
  qed
qed

lemma steps_loop_neat:
  assumes "neat cd rid (lv_seq lv) sn" and "codec_ok cd" and "step = gen_step ru cfg rid others gs ge bs be spb"
  shows "stays_neat cd rid (steps_loop step is lv sn)"
  using assms(1)
proof (induction "is" arbitrary: lv sn)
  case Nil
  then show ?case by (simp add: stays_neat_def)
next
  case (Cons i "is")
  have "stays_neat cd rid (step i lv sn)" unfolding assms(3) by (rule gen_step_neat [OF Cons.prems assms(2)])
  then show ?case unfolding steps_loop.simps
    by (rule stays_neat_bind) (simp_all add: Cons.IH, simp add: stays_neat_def)
qed

lemma blocks_loop_neat:
  assumes "neat cd rid (lv_seq lv) sn" and "codec_ok cd"
  shows "stays_neat cd rid (blocks_loop ru cfg rid others gs ge spb bs lv sn)"
  using assms(1)
proof (induction bs arbitrary: lv sn)
  case Nil
  then show ?case by (simp add: stays_neat_def)
next
  case (Cons b bs)
  have "neat cd rid (lv_seq (lv\<lparr>lv_age := ages, lv_pending := []\<rparr>)) sn" for ages using Cons.prems by simp
  note loop = stays_neat_bind [OF steps_loop_neat [OF this assms(2) refl]]
  show ?case
    unfolding blocks_loop.simps Let_def
    by (auto intro!: loop simp: Cons.IH) (use Cons.prems in \<open>auto simp: stays_neat_def\<close>)
qed

lemma run_round_neat:
  assumes "run_round ru prompt_ids cfg sn = Some (r, sn')" and "active_round (sn_round sn) = Some rs"
    and "codec_ok cd" and "neat cd (round_id rs) 0 sn"
  shows "\<exists>q. neat cd (round_id rs) q sn'"
proof -
  let ?nb = "gc_gen_length cfg div gc_block_length cfg" and ?rid = "round_id rs" and ?gs = "length prompt_ids"
  let ?loop = "blocks_loop ru cfg ?rid (set (participants rs) - {sn_id sn}) ?gs (?gs + gc_gen_length cfg)
      (gc_steps cfg div ?nb) [0..<?nb] (start_vars prompt_ids cfg) sn"
  have "neat cd ?rid (lv_seq (start_vars prompt_ids cfg)) sn" using assms(4) by (simp add: start_vars_def)
  note loop = blocks_loop_neat [OF this assms(3), unfolded stays_neat_def]
  consider "sn' = sn" | (loop) r' where "?loop = Some (r', sn')"
    | (led) r' sn1 where "?loop = Some (r', sn1)" "sn' = snd (publish_msg sn1 GEN_DONE (Some [(''round_id'', ?rid)]))"
    using assms(1) unfolding run_round_def assms(2) Let_def option.case
    by (auto simp: tbind_def split: if_splits option.splits sum.splits prod.splits)
  then show ?thesis
  proof cases
    case (led r' sn1)
    then obtain q where q: "neat cd ?rid q sn1" using loop by blast
    have key: "payload_key GEN_DONE pl \<noteq> (m, ?rid, PInt k)" if "m \<in> {COMMIT, DISPUTE_SCORE}" for pl m k
      using that by (auto simp: payload_key_def)
    have cd: "w_codec (sn_world sn1) = cd" using q by (simp add: neat_def)
    have old: "reports cd sn1 (m, ?rid, PInt k) pl" if "m \<in> {COMMIT, DISPUTE_SCORE}" "reports cd sn' (m, ?rid, PInt k) pl" for m k pl
      using publish_reports [of sn1, unfolded cd, OF _ assms(3)] that key unfolding led(2) by metis
    have "one_report cd sn' ?rid k" for k
      using q old unfolding neat_def one_report_def by meson
    moreover have "silent_from cd ?rid q sn'"
      using q old unfolding neat_def silent_from_def by meson
    ultimately have "neat cd ?rid q sn'" using cd by (simp add: neat_def led(2))
    then show ?thesis by blast
  qed (use assms(4) loop in blast)+
qed

lemma neat_start:
  assumes "\<forall>m \<in> {COMMIT, DISPUTE_SCORE}. \<forall>q p. \<not> reports cd sn (m, rid, PInt q) p" and "w_codec (sn_world sn) = cd"
  shows "neat cd rid k sn"
  using assms unfolding neat_def one_report_def silent_from_def by blast

text \<open>C8: one report for each sync. If a node has reported nothing yet for the round it is in, then however its
  \<open>run_round\<close> ends (with the tokens, with the abort of a failed round, or with an exception in the
  middle of a sync), it has published at most one commit message and at most one score message for
  each number \<open>sync_seq\<close>: two messages of the same type, round and number are the same message.
  This is what lets the others treat a message as the word of its sender.\<close>

theorem one_report_per_sync:
  assumes "run_round ru prompt_ids cfg sn = Some (r, sn')" and "active_round (sn_round sn) = Some rs"
    and "codec_ok (w_codec (sn_world sn))"
    and "\<forall>m \<in> {COMMIT, DISPUTE_SCORE}. \<forall>q p. \<not> reports (w_codec (sn_world sn)) sn (m, round_id rs, PInt q) p"
  shows "one_report (w_codec (sn_world sn)) sn' (round_id rs) q"
  using run_round_neat [OF assms(1-3) neat_start [OF assms(4) refl]] unfolding neat_def by blast

theorem one_report_per_sync_witness:
  "\<exists>sn'. run_round steady_runner [2] one_step_config lone_node = Some (Inr (Some [(0, 2), (1, 2), (2, 2)]), sn') \<and>
     one_report lone_codec sn' (round_id example_round) 0"
proof -
  obtain sn' where run: "run_round steady_runner [2] one_step_config lone_node = Some (Inr (Some [(0, 2), (1, 2), (2, 2)]), sn')"
    using lone_round by blast
  have rs: "active_round (sn_round lone_node) = Some (example_round\<lparr>participants := [''node-b'']\<rparr>)"
    and cd: "w_codec (sn_world lone_node) = lone_codec" and none: "w_sent (sn_world lone_node) = []"
    and rid: "round_id (example_round\<lparr>participants := [''node-b'']\<rparr>) = round_id example_round"
    by (simp_all add: lone_node_def)
  have ok: "codec_ok lone_codec" by (simp add: lone_codec_def table_codec_ok)
  have "one_report lone_codec sn' (round_id example_round) 0"
    using one_report_per_sync [OF run rs, unfolded cd rid, OF ok, of 0] by (simp add: reports_def none)
  with run show ?thesis by blast
qed

end
