(* ===== verification/Punctual.thy ===== *)
theory Punctual imports Own_Reports begin

section \<open>Syncs in time\<close>

text \<open>
  When does a node hear everybody? \<open>_do_sync\<close> of \<open>node/generation.py\<close> waits for the others for \<open>SYNC_BARRIER_TIMEOUT\<close>
  seconds, once for their commits and once for their scores. So a sync that has come to its end in
  less than this had a report from everyone in each of its phases (\<open>quick_sync_hears_all\<close>): what
  \<open>Swarm_Sync.heard_from_all\<close> says of the messages follows from the time the sync took. Nothing is assumed of
  the clock, which may even be set back: \<open>quick a b\<close> says that the readings between \<open>a\<close> and \<open>b\<close>, the node
  before and after the sync, lie close together.
\<close>

definition quick :: "swarm_node \<Rightarrow> swarm_node \<Rightarrow> bool" where
  "quick a b \<longleftrightarrow> (\<forall>i \<in> {w_clock_i (sn_world a)..<w_clock_i (sn_world b)}. \<forall>j \<in> {w_clock_i (sn_world a)..<w_clock_i (sn_world b)}.
     w_clock (sn_world a) j < w_clock (sn_world a) i + SYNC_BARRIER_TIMEOUT)"

text \<open>One phase: publish, then collect.\<close>

lemma exchange_in_time:
  assumes "exchange m pl rid q others sn = Some (Inr raw, sn')" and "swarm_ok sn" and "m \<in> {COMMIT, DISPUTE_SCORE}"
  shows "swarm_ok sn'" and "w_clock (sn_world sn') = w_clock (sn_world sn)" and "w_clock_i (sn_world sn) \<le> w_clock_i (sn_world sn')"
    and "quick sn sn' \<Longrightarrow> others \<subseteq> set (keys raw)"
proof -
  let ?mid = "snd (publish_msg sn m (Some pl))"
  have pub: "publish_msg sn m (Some pl) = (Inr (), ?mid)"
    and coll: "collect_until ?mid m rid q others SYNC_BARRIER_TIMEOUT = Some (Inr raw, sn')"
    using assms(1) by (auto simp: exchange_def tbind_def split: option.splits sum.splits prod.splits)
  have mid: "w_clock (sn_world ?mid) = w_clock (sn_world sn)" "w_clock_i (sn_world ?mid) = Suc (w_clock_i (sn_world sn))"
    by (simp_all add: publish_msg_def case_prod_unfold)
  have ok: "swarm_ok ?mid" using swarm_publish [OF assms(2)] by blast
  note after = swarm_collect [OF ok coll]
  show "swarm_ok sn'" using after by blast
  have clk: "w_clock (sn_world sn') = w_clock (sn_world ?mid)" by (rule collect_until_clock [OF coll])
  then show "w_clock (sn_world sn') = w_clock (sn_world sn)" by (simp add: mid)
  have idx: "w_clock_i (sn_world ?mid) \<le> w_clock_i (sn_world sn')" using after by (simp add: swarm_before_def)
  then show "w_clock_i (sn_world sn) \<le> w_clock_i (sn_world sn')" by (simp add: mid)
  assume quick: "quick sn sn'"
  obtain sn1 rest where "collecting (m, rid, PInt q) others (rest, raw) sn1" and late: "rest = {} \<or>
      w_clock (sn_world ?mid) (w_clock_i (sn_world ?mid)) + SYNC_BARRIER_TIMEOUT \<le> w_clock (sn_world sn') (w_clock_i (sn_world sn') - 1)"
    and more: "w_clock_i (sn_world ?mid) < w_clock_i (sn_world sn')"
    by (rule collect_until_collecting [OF coll ok assms(3)])
  then have rest: "rest = others - set (keys raw)" by (simp add: collecting_def)
  have "w_clock (sn_world ?mid) (w_clock_i (sn_world sn') - 1) < w_clock (sn_world ?mid) (w_clock_i (sn_world ?mid)) + SYNC_BARRIER_TIMEOUT"
    using quick more unfolding quick_def mid by auto
  then have "\<not> w_clock (sn_world ?mid) (w_clock_i (sn_world ?mid)) + SYNC_BARRIER_TIMEOUT \<le> w_clock (sn_world sn') (w_clock_i (sn_world sn') - 1)"
    by (simp add: clk)
  with late rest show "others \<subseteq> set (keys raw)" by auto
qed

text \<open>A whole sync.\<close>

lemma quick_sync_hears_all:
  assumes "do_sync py rid q (P - {sn_id sn}) c my_p x gs ge sd sn = Some (Inr res, sn')"
    and "swarm_ok sn" and "quick sn sn'"
  shows "heard_from_all py rid q P c my_p sn"
proof -
  let ?others = "P - {sn_id sn}"
  obtain raw sn1 where ex: "exchange COMMIT (commit_payload rid q c) rid q ?others sn = Some (Inr raw, sn1)"
    using assms(1) unfolding do_sync_def tbind_Inr by blast
  note first = exchange_in_time [OF ex assms(2)]
  obtain all where all: "with_others parse_commit (sn_id sn) c raw = Inr all"
    and calm: "detect_disputes all = [] \<Longrightarrow> sn' = sn1"
    and settled: "detect_disputes all \<noteq> [] \<Longrightarrow> \<exists>s sraw sall. own_scores (py_set_iter py) my_p (detect_disputes all) = Inr s \<and>
      exchange DISPUTE_SCORE (score_payload rid q s) rid q ?others sn1 = Some (Inr sraw, sn') \<and>
      with_others parse_scores (sn_id sn) s sraw = Inr sall"
    using do_sync_parts [OF assms(1) ex] by blast
  have second: "w_clock_i (sn_world sn1) \<le> w_clock_i (sn_world sn')"
    using calm settled exchange_in_time(3) [OF _ first(1)] by (cases "detect_disputes all = []") auto
  have "?others \<subseteq> set (keys raw)"
    using assms(3) second by (intro first(4)) (auto simp: quick_def)
  moreover have "?others \<subseteq> set (keys sraw)"
    if "with_others parse_commit (sn_id sn) c raw = Inr all'" "detect_disputes all' \<noteq> []"
      "own_scores (py_set_iter py) my_p (detect_disputes all') = Inr s"
      "exchange DISPUTE_SCORE (score_payload rid q s) rid q ?others sn1 = Some (Inr sraw, sn2)" for all' s sraw sn2
  proof -
    have "all' = all" using that(1) all by simp
    then have "sn2 = sn'" using settled that by auto
    then have "quick sn1 sn2" using assms(3) first(2,3) by (auto simp: quick_def)
    then show ?thesis using exchange_in_time(4) [OF that(4) first(1)] by simp
  qed
  ultimately show ?thesis using ex unfolding heard_from_all_def Let_def by blast
qed

end
