(* ===== verification/Heartbeat.thy ===== *)
theory Heartbeat imports Own_Reports begin

section \<open>The heartbeat thread\<close>

text \<open>
  \<open>start_heartbeat_thread\<close> of \<open>node/swarm.py\<close>: a thread of the node that sends a \<open>HEARTBEAT\<close> every
  \<open>HEARTBEAT_INTERVAL\<close> seconds, for ever, or until sending raises, which ends the thread unseen.
  \<open>heartbeat_loop n\<close> is its first \<open>n\<close> rounds. Each of them is one step of the node in the sense of
  \<open>Network\<close> (\<open>heartbeat_run\<close>), and makes no difference to what the main thread does next but that it
  reads the clock later (\<open>heartbeats_do_not_disturb\<close>). Heartbeats in the
  middle of a call are the subject of theory \<open>Threads\<close>. The
  sleeping is not modelled, and a sending is one step: the two threads use one PUB socket.
\<close>

primrec heartbeat_loop :: "nat \<Rightarrow> swarm_node \<Rightarrow> unit result \<times> swarm_node" where
  "heartbeat_loop 0 sn = (Inr (), sn)"
| "heartbeat_loop (Suc n) sn = pbind (send_heartbeat sn) (\<lambda>_ sn. heartbeat_loop n sn)"

lemma heartbeat_run: "node_run sn {} (snd (heartbeat_loop n sn))"
proof (induction n arbitrary: sn)
  case 0
  show ?case by (simp add: node_run.Rest)
next
  case (Suc n)
  have step: "node_run sn {} (snd (send_heartbeat sn))"
    unfolding send_heartbeat_def by (rule run_send [OF node_run.Rest]) simp
  show ?case
  proof (cases "fst (send_heartbeat sn)")
    case (Inl e)
    then show ?thesis using step by (cases "send_heartbeat sn") (simp add: pbind_def)
  next
    case (Inr u)
    then have "heartbeat_loop (Suc n) sn = heartbeat_loop n (snd (send_heartbeat sn))"
      by (cases "send_heartbeat sn") (simp add: pbind_def)
    with node_run_trans [OF Suc.IH step] show ?thesis by simp
  qed
qed

text \<open>The loop ends with the first exception, and sends no more.\<close>

lemma heartbeat_ends: "send_heartbeat sn = (Inl e, s) \<Longrightarrow> heartbeat_loop (Suc n) sn = (Inl e, s)"
  by (simp add: pbind_def)

text \<open>Nothing of it is a report in a round, so it may go on while the node generates.\<close>

lemma heartbeat_says_nothing:
  assumes "codec_ok (w_codec (sn_world sn))" and "m \<in> {COMMIT, DISPUTE_SCORE}"
    and "reports (w_codec (sn_world sn)) (snd (heartbeat_loop n sn)) (m, rid, q) p"
  shows "reports (w_codec (sn_world sn)) sn (m, rid, q) p"
  using assms
proof (induction n arbitrary: sn)
  case (Suc n)
  let ?s = "snd (send_heartbeat sn)" and ?cd = "w_codec (sn_world sn)"
  have cd: "w_codec (sn_world ?s) = ?cd" by (simp add: send_heartbeat_def)
  have "snd (heartbeat_loop (Suc n) sn) \<in> {?s, snd (heartbeat_loop n ?s)}"
    by (cases "send_heartbeat sn") (auto simp: pbind_def split: sum.splits)
  then have "reports ?cd ?s (m, rid, q) p"
    using Suc.IH [of ?s] Suc.prems unfolding cd by auto
  moreover have "payload_key HEARTBEAT [] \<noteq> (m, rid, q)" using Suc.prems(2) by (auto simp: payload_key_def)
  ultimately show ?case
    using publish_says [OF _ _ refl, of sn HEARTBEAT None "(m, rid, q)" p] Suc.prems(1)
    unfolding send_heartbeat_def option.case by metis
qed simp

definition beats_packed :: "swarm_node \<Rightarrow> bool" where
  "beats_packed sn \<longleftrightarrow> (\<forall>i. \<exists>b. packb (w_codec (sn_world sn))
     \<lparr>e_type = HEARTBEAT, e_node_id = sn_id sn, e_ts = w_clock (sn_world sn) i, e_payload = []\<rparr> = Inr b)"

text \<open>The thread beats on. If the codec can serialize the heartbeats of the node at all times its clock
  shows, then the thread is alive after any number of rounds: it has sent exactly one \<open>HEARTBEAT\<close> in each,
  which every other node can read, under the id of the node and with the time of its sending, and
  has changed nothing else (not the peers, the round or the inbox the main thread works on).\<close>

lemma heartbeats_go_on:
  assumes "beats_packed sn" and "codec_ok (w_codec (sn_world sn))"
  shows "\<exists>frs. heartbeat_loop n sn = (Inr (), sn\<lparr>sn_world := (sn_world sn)
      \<lparr>w_clock_i := w_clock_i (sn_world sn) + n, w_sent := w_sent (sn_world sn) @ frs\<rparr>\<rparr>) \<and> length frs = n \<and>
    (\<forall>i < n. says (w_codec (sn_world sn)) (frs ! i) \<lparr>e_type = HEARTBEAT, e_node_id = sn_id sn,
       e_ts = w_clock (sn_world sn) (w_clock_i (sn_world sn) + i), e_payload = []\<rparr>)"
  using assms
proof (induction n arbitrary: sn)
  case (Suc n)
  let ?w = "sn_world sn"
  let ?env = "\<lambda>i. \<lparr>e_type = HEARTBEAT, e_node_id = sn_id sn, e_ts = w_clock ?w (w_clock_i ?w + i), e_payload = []\<rparr>"
  obtain b where b: "packb (w_codec ?w) (?env 0) = Inr b" using Suc.prems(1) by (auto simp: beats_packed_def)
  let ?s = "sn\<lparr>sn_world := ?w\<lparr>w_clock_i := Suc (w_clock_i ?w), w_sent := w_sent ?w @ [(sn_id sn, b)]\<rparr>\<rparr>"
  have send: "send_heartbeat sn = (Inr (), ?s)"
    using b by (simp add: send_heartbeat_def publish_msg_def publish_def time_time_def encode_def)
  obtain frs where frs: "heartbeat_loop n ?s = (Inr (), ?s\<lparr>sn_world := (sn_world ?s)
      \<lparr>w_clock_i := w_clock_i (sn_world ?s) + n, w_sent := w_sent (sn_world ?s) @ frs\<rparr>\<rparr>)" "length frs = n"
    "\<forall>i < n. says (w_codec ?w) (frs ! i) (?env (Suc i))"
    using Suc.IH [of ?s] Suc.prems by (auto simp: beats_packed_def)
  have "says (w_codec ?w) (sn_id sn, b) (?env 0)"
    using b Suc.prems(2) by (auto simp: says_def decode_def codec_ok_def)
  then have "\<forall>i < Suc n. says (w_codec ?w) (((sn_id sn, b) # frs) ! i) (?env i)"
    using frs(3) by (auto simp: nth_Cons split: nat.splits)
  then show ?case
    using send frs(1,2) by (intro exI [of _ "(sn_id sn, b) # frs"]) (simp add: pbind_def)
qed simp

subsection \<open>Heartbeats and the main thread\<close>

text \<open>
  What a heartbeat leaves for the main thread to notice: a frame more on the socket, and a reading of
  the clock less. \<open>alike fa fb\<close> relates two states of a node that differ in nothing else: one had sent
  \<open>fa\<close>, the other \<open>fb\<close>, and both the same frames since, and their clocks will show the same from now on.
  Every call of the main thread does the same in both (\<open>follows\<close>).
\<close>

definition alike :: "(string \<times> string) list \<Rightarrow> (string \<times> string) list \<Rightarrow> swarm_node \<Rightarrow> swarm_node \<Rightarrow> bool" where
  "alike fa fb a b \<longleftrightarrow> sn_id a = sn_id b \<and> sn_peers a = sn_peers b \<and> sn_round a = sn_round b \<and> sn_inbox a = sn_inbox b \<and>
     sn_transport a = sn_transport b \<and> w_codec (sn_world a) = w_codec (sn_world b) \<and>
     w_polls (sn_world a) = w_polls (sn_world b) \<and> w_poll_i (sn_world a) = w_poll_i (sn_world b) \<and>
     (\<exists>l. w_sent (sn_world a) = fa @ l \<and> w_sent (sn_world b) = fb @ l) \<and>
     (\<forall>k. w_clock (sn_world a) (w_clock_i (sn_world a) + k) = w_clock (sn_world b) (w_clock_i (sn_world b) + k))"

lemma alike_fields:
  assumes "alike fa fb a b"
  shows "sn_id a = sn_id b" and "sn_round a = sn_round b" and "sn_inbox a = sn_inbox b" and "sn_peers a = sn_peers b"
  using assms by (simp_all add: alike_def)

lemma alike_update:
  assumes "alike fa fb a b"
  shows "alike fa fb (a\<lparr>sn_round := r\<rparr>) (b\<lparr>sn_round := r\<rparr>)" and "alike fa fb (a\<lparr>sn_inbox := x\<rparr>) (b\<lparr>sn_inbox := x\<rparr>)"
    and "alike fa fb (a\<lparr>sn_peers := p\<rparr>) (b\<lparr>sn_peers := p\<rparr>)"
  using assms by (simp_all add: alike_def)

lemma alike_clock:
  assumes "alike fa fb a b"
  shows "fst (read_clock a) = fst (read_clock b)" and "alike fa fb (snd (read_clock a)) (snd (read_clock b))"
proof -
  have c: "w_clock (sn_world a) (w_clock_i (sn_world a) + k) = w_clock (sn_world b) (w_clock_i (sn_world b) + k)" for k
    using assms by (simp add: alike_def)
  show "fst (read_clock a) = fst (read_clock b)" using c [of 0] by (simp add: read_clock_def time_time_def)
  show "alike fa fb (snd (read_clock a)) (snd (read_clock b))"
    using assms c [of "Suc k" for k] by (simp add: alike_def read_clock_def time_time_def)
qed

lemma publish_msg_split:
  "publish_msg sn m p = (case encode (w_codec (sn_world sn)) (sn_id sn) m p (fst (read_clock sn)) of
     Inl e \<Rightarrow> (Inl e, snd (read_clock sn))
   | Inr fr \<Rightarrow> (Inr (), (snd (read_clock sn))\<lparr>sn_world := (sn_world (snd (read_clock sn)))
       \<lparr>w_sent := w_sent (sn_world (snd (read_clock sn))) @ [fr]\<rparr>\<rparr>))"
  by (simp add: publish_msg_def publish_def read_clock_def time_time_def Let_def case_prod_unfold split: sum.splits)

lemma alike_publish:
  assumes "alike fa fb a b"
  shows "fst (publish_msg a m p) = fst (publish_msg b m p)" and "alike fa fb (snd (publish_msg a m p)) (snd (publish_msg b m p))"
proof -
  note clk = alike_clock [OF assms]
  have same: "sn_id a = sn_id b" "w_codec (sn_world a) = w_codec (sn_world b)" using assms by (simp_all add: alike_def)
  let ?e = "encode (w_codec (sn_world b)) (sn_id b) m p (fst (read_clock b))"
  show "fst (publish_msg a m p) = fst (publish_msg b m p)"
    unfolding publish_msg_split same clk(1) by (simp split: sum.splits)
  show "alike fa fb (snd (publish_msg a m p)) (snd (publish_msg b m p))"
    unfolding publish_msg_split same clk(1)
    using clk(2) by (cases ?e) (auto simp: alike_def)
qed

lemma alike_sender: "alike fa fb a b \<Longrightarrow> alike fa fb (note_sender a n m t) (note_sender b n m t)"
  by (simp add: note_sender_def Let_def alike_def)

lemma alike_dispatch:
  assumes "alike fa fb a b"
  shows "fst (dispatch a env) = fst (dispatch b env) \<and> alike fa fb (snd (dispatch a env)) (snd (dispatch b env))"
proof -
  note clk = alike_clock [OF assms]
  let ?a = "note_sender (snd (read_clock a)) (e_node_id env) (e_type env) (fst (read_clock b))"
    and ?b = "note_sender (snd (read_clock b)) (e_node_id env) (e_type env) (fst (read_clock b))"
  have al: "alike fa fb ?a ?b" by (rule alike_sender [OF clk(2)])
  then show ?thesis
    unfolding dispatch_def Let_def case_prod_unfold clk(1) alike_fields [OF al]
    by (auto simp: alike_update split: sum.splits)
qed

lemma alike_pump:
  assumes "alike fa fb a b"
  shows "fst (pump_once a t) = fst (pump_once b t) \<and> alike fa fb (snd (pump_once a t)) (snd (pump_once b t))"
proof -
  have poll: "fst (poll_recv (sn_world a) t) = fst (poll_recv (sn_world b) t)"
    and al: "alike fa fb (a\<lparr>sn_world := snd (poll_recv (sn_world a) t)\<rparr>) (b\<lparr>sn_world := snd (poll_recv (sn_world b) t)\<rparr>)"
    using assms by (auto simp: alike_def poll_recv_def Let_def split: option.splits)
  show ?thesis
    using al alike_dispatch [OF al] unfolding pump_once_def case_prod_unfold poll
    by (auto simp: pbind_def case_prod_unfold split: sum.splits option.splits)
qed

lemma alike_collect_loop:
  assumes "collect_loop key d acc a = Some (r, a')" and "alike fa fb a b"
  shows "\<exists>b'. collect_loop key d acc b = Some (r, b') \<and> alike fa fb a' b'"
  using assms
proof (induction key d acc a "(r, a')" arbitrary: r a' b rule: collect_loop.raw_induct [rotated, consumes 1, case_names 1])
  case (1 loop key d acc a)
  obtain t a1 where a1: "read_clock a = (t, a1)" by (cases "read_clock a")
  obtain b1 where b1: "read_clock b = (t, b1)" and al1: "alike fa fb a1 b1"
    using alike_clock [OF 1(3)] a1 by (cases "read_clock b") auto
  obtain r2 a2 where a2: "pump_once a1 100 = (r2, a2)" by (cases "pump_once a1 100")
  obtain b2 where b2: "pump_once b1 100 = (r2, b2)" and al2: "alike fa fb a2 b2"
    using alike_pump [OF al1, of 100] a2 by (cases "pump_once b1 100") auto
  note run = 1(2) [unfolded a1 prod.case a2] and IH = 1(1) [OF _ al2]
  show ?case
  proof (cases "fst acc = {} \<or> \<not> t < d")
    case True
    then show ?thesis using run 1(3) al1 by (auto simp: collect_loop.simps [of _ _ _ b] b1 split: if_splits)
  next
    case False
    then have "collect_loop key d acc b = (case r2 of Inl e \<Rightarrow> Some (Inl e, b2) | Inr None \<Rightarrow> collect_loop key d acc b2
        | Inr (Some env) \<Rightarrow> collect_loop key d (collect_take key env acc) b2)"
      by (subst collect_loop.simps) (simp add: b1 b2)
    moreover have "(case r2 of Inl e \<Rightarrow> Some (Inl e, a2) | Inr None \<Rightarrow> loop key d acc a2
        | Inr (Some env) \<Rightarrow> loop key d (collect_take key env acc) a2) = Some (r, a')"
      using run False by simp
    ultimately show ?thesis using al2 IH by (auto split: sum.splits option.splits)
  qed
qed

definition follows ::
  "(string \<times> string) list \<Rightarrow> (string \<times> string) list \<Rightarrow> ('a \<times> swarm_node) option \<Rightarrow> ('a \<times> swarm_node) option \<Rightarrow> bool" where
  "follows fa fb m m' \<longleftrightarrow> (\<forall>r s. m = Some (r, s) \<longrightarrow> (\<exists>t. m' = Some (r, t) \<and> alike fa fb s t))"

lemma follows_Some: "alike fa fb s t \<Longrightarrow> follows fa fb (Some (r, s)) (Some (r, t))"
  by (simp add: follows_def)

lemma follows_pair: "fst p = fst p' \<and> alike fa fb (snd p) (snd p') \<Longrightarrow> follows fa fb (Some p) (Some p')"
  by (cases p; cases p') (simp add: follows_def)

lemma follows_bind:
  assumes "follows fa fb m m'" and "\<And>x s t. alike fa fb s t \<Longrightarrow> follows fa fb (f x s) (f' x t)"
  shows "follows fa fb (tbind m f) (tbind m' f')"
  using assms unfolding follows_def tbind_def by (fastforce split: option.splits sum.splits prod.splits)

lemma follows_publish: "alike fa fb a b \<Longrightarrow> follows fa fb (Some (publish_msg a m p)) (Some (publish_msg b m p))"
  using alike_publish by (intro follows_pair) blast

lemma follows_collect_until:
  assumes "alike fa fb a b"
  shows "follows fa fb (collect_until a m rid q ex t) (collect_until b m rid q ex t)"
proof (cases "key_hashable (m, rid, PInt q)")
  case True
  let ?key = "(m, rid, PInt q)"
  let ?in = "filter (\<lambda>(k, v). k \<in> ex) (inbox_bucket (sn_inbox b) ?key)"
  let ?acc = "(ex - set (keys ?in), ?in)"
  let ?finish = "\<lambda>out. case out of None \<Rightarrow> None | Some (Inl e, s) \<Rightarrow> Some (Inl e, s)
    | Some (Inr received, s) \<Rightarrow> Some (Inr received, s\<lparr>sn_inbox := inbox_drop ?key (sn_inbox s)\<rparr>)"
  obtain now a1 where a1: "read_clock a = (now, a1)" by (cases "read_clock a")
  obtain b1 where b1: "read_clock b = (now, b1)" and al: "alike fa fb a1 b1"
    using alike_clock [OF assms] a1 by (cases "read_clock b") auto
  have a: "collect_until a m rid q ex t = ?finish (collect_loop ?key (now + t) ?acc a1)"
    using True by (simp add: collect_until_def Let_def alike_fields [OF assms] a1)
  have b: "collect_until b m rid q ex t = ?finish (collect_loop ?key (now + t) ?acc b1)"
    using True by (simp add: collect_until_def Let_def b1)
  show ?thesis
  proof (cases "collect_loop ?key (now + t) ?acc a1")
    case (Some out)
    obtain r s where out: "out = (r, s)" by (cases out)
    from alike_collect_loop [OF Some [unfolded out] al] obtain s' where
      "collect_loop ?key (now + t) ?acc b1 = Some (r, s')" and al': "alike fa fb s s'" by blast
    then show ?thesis
      using alike_update(2) [OF al'] alike_fields(3) [OF al'] unfolding a b Some out by (cases r) (simp_all add: follows_def)
  qed (simp add: a follows_def)
qed (use assms in \<open>simp add: collect_until_def follows_def\<close>)

lemma follows_exchange: "alike fa fb a b \<Longrightarrow> follows fa fb (exchange m pl rid q ex a) (exchange m pl rid q ex b)"
  unfolding exchange_def by (intro follows_bind follows_publish follows_collect_until)

lemma follows_settle:
  assumes "alike fa fb a b"
  shows "follows fa fb (settle_disputes py rid q ex p ds a) (settle_disputes py rid q ex p ds b)"
  unfolding settle_disputes_def
  by (intro follows_bind follows_Some follows_exchange assms, assumption)
    (simp add: follows_def alike_fields)

lemma follows_do_sync:
  assumes "alike fa fb a b"
  shows "follows fa fb (do_sync py rid q ex c p x gs ge sd a) (do_sync py rid q ex c p x gs ge sd b)"
  unfolding do_sync_def Let_def
proof (rule follows_bind [OF follows_exchange [OF assms]], goal_cases)
  case (1 raw s t)
  show ?case
    unfolding alike_fields(1) [OF 1]
    by (intro follows_bind follows_Some 1) (auto simp: case_prod_unfold intro: follows_bind follows_settle follows_Some)
qed

lemma follows_gen_step:
  assumes "alike fa fb a b"
  shows "follows fa fb (gen_step ru cfg rid ex gs ge bs be spb i lv a) (gen_step ru cfg rid ex gs ge bs be spb i lv b)"
  unfolding gen_step_def
proof (rule follows_bind [OF follows_pair [OF alike_pump [OF assms]]], goal_cases)
  case (1 env s t)
  note clk = alike_clock [OF 1]
  obtain now s1 where s1: "read_clock s = (now, s1)" by (cases "read_clock s")
  then obtain t1 where t1: "read_clock t = (now, t1)" and al: "alike fa fb s1 t1" using clk by (cases "read_clock t") auto
  obtain failed rm where chk: "check_leader_timeout (sn_round t1) None now = (failed, rm)"
    by (cases "check_leader_timeout (sn_round t1) None now")
  note al' = alike_update(1) [OF al, of rm]
  show ?case
    unfolding s1 t1 prod.case Let_def alike_fields(2) [OF al] chk
    using al' by (auto simp: follows_Some case_prod_unfold intro!: follows_bind follows_do_sync split: if_splits)
qed

lemma follows_steps_loop:
  assumes "\<And>i lv a b. alike fa fb a b \<Longrightarrow> follows fa fb (step i lv a) (step i lv b)" and "alike fa fb a b"
  shows "follows fa fb (steps_loop step is lv a) (steps_loop step is lv b)"
  using assms(2)
proof (induction "is" arbitrary: lv a b)
  case (Cons i "is")
  show ?case unfolding steps_loop.simps
    by (rule follows_bind [OF assms(1) [OF Cons.prems]]) (auto simp: follows_Some Cons.IH split: option.splits)
qed (simp add: follows_Some)

lemma follows_blocks_loop:
  assumes "alike fa fb a b"
  shows "follows fa fb (blocks_loop ru cfg rid ex gs ge spb bs lv a) (blocks_loop ru cfg rid ex gs ge spb bs lv b)"
  using assms
proof (induction bs arbitrary: lv a b)
  case (Cons i bs)
  note loop = follows_bind [OF follows_steps_loop [OF follows_gen_step Cons.prems]]
  show ?case unfolding blocks_loop.simps Let_def
    by (auto intro!: loop follows_Some Cons.prems Cons.IH split: option.splits)
qed (simp add: follows_Some)

lemma follows_run_round:
  assumes "alike fa fb a b"
  shows "follows fa fb (run_round ru prompt_ids cfg a) (run_round ru prompt_ids cfg b)"
  unfolding run_round_def Let_def alike_fields [OF assms]
  by (auto intro!: follows_bind follows_blocks_loop follows_publish follows_Some assms simp: alike_fields split: option.splits)

lemma alike_sym: "alike fa fb a b \<longleftrightarrow> alike fb fa b a"
  unfolding alike_def by metis

lemma follows_both:
  assumes "follows fa fb m m'" and "follows fb fa m' m"
  shows "rel_option (rel_prod (=) (alike fa fb)) m m'"
proof (cases m)
  case None
  with assms(2) have "m' = None" unfolding follows_def by (cases m') auto
  with None show ?thesis by simp
next
  case (Some x)
  then show ?thesis using assms(1) unfolding follows_def by (cases x) auto
qed

text \<open>All that a run of the heartbeat loop does: it reads the clock and sends heartbeats of the node.\<close>

definition heartbeat_of :: "codec \<Rightarrow> string \<Rightarrow> string \<times> string \<Rightarrow> bool" where
  "heartbeat_of cd n frame \<longleftrightarrow> (\<exists>t. encode cd n HEARTBEAT None t = Inr frame)"

lemma heartbeat_effect:
  "\<exists>k frs. k \<le> n \<and> (\<forall>f \<in> set frs. heartbeat_of (w_codec (sn_world sn)) (sn_id sn) f) \<and> snd (heartbeat_loop n sn) = sn\<lparr>sn_world := (sn_world sn)
     \<lparr>w_clock_i := w_clock_i (sn_world sn) + k, w_sent := w_sent (sn_world sn) @ frs\<rparr>\<rparr>"
proof (induction n arbitrary: sn)
  case (Suc n)
  obtain r s where send: "send_heartbeat sn = (r, s)" by (cases "send_heartbeat sn")
  have same: "w\<lparr>w_clock_i := i, w_sent := w_sent w @ []\<rparr> = w\<lparr>w_clock_i := i\<rparr>" for w :: world and i by (cases w) simp
  let ?beat = "heartbeat_of (w_codec (sn_world sn)) (sn_id sn)"
  have "\<exists>l. (\<forall>f \<in> set l. ?beat f) \<and>
    s = sn\<lparr>sn_world := (sn_world sn)\<lparr>w_clock_i := w_clock_i (sn_world sn) + 1, w_sent := w_sent (sn_world sn) @ l\<rparr>\<rparr>"
  proof (cases "encode (w_codec (sn_world sn)) (sn_id sn) HEARTBEAT None (fst (read_clock sn))")
    case (Inl e)
    then show ?thesis
      using send by (intro exI [of _ "[]"], unfold same) (simp add: send_heartbeat_def publish_msg_split read_clock_def time_time_def)
  next
    case (Inr fr)
    then show ?thesis
      using send by (intro exI [of _ "[fr]"]) (auto simp: heartbeat_of_def send_heartbeat_def publish_msg_split read_clock_def time_time_def)
  qed
  then obtain l where l: "\<forall>f \<in> set l. ?beat f" and s: "s = sn\<lparr>sn_world := (sn_world sn)
      \<lparr>w_clock_i := w_clock_i (sn_world sn) + 1, w_sent := w_sent (sn_world sn) @ l\<rparr>\<rparr>" by blast
  show ?case
  proof (cases r)
    case (Inl e)
    then show ?thesis by (intro exI [of _ 1] exI [of _ l]) (simp add: l send s pbind_def)
  next
    case (Inr u)
    obtain k frs where "k \<le> n" "\<forall>f \<in> set frs. ?beat f" "snd (heartbeat_loop n s) = s\<lparr>sn_world := (sn_world s)
        \<lparr>w_clock_i := w_clock_i (sn_world s) + k, w_sent := w_sent (sn_world s) @ frs\<rparr>\<rparr>"
      using Suc.IH [of s] by (auto simp: s)
    then show ?thesis
      using l by (intro exI [of _ "Suc k"] exI [of _ "l @ frs"]) (auto simp: Inr send s pbind_def)
  qed
qed (auto intro!: exI [of _ 0] exI [of _ "[]"])

text \<open>The heartbeat thread does not disturb a round. However many rounds of its loop come before a
  \<open>run_round\<close>, and whether or not they end with an exception, the generation does exactly what it
  would do without them at a later time, \<open>k\<close> readings of the clock on: it returns or does not
  return, with the same tokens, abort or exception, and leaves the same peers, round and inbox, having sent
  the same messages after the heartbeats.\<close>

lemma heartbeats_do_not_disturb:
  "\<exists>k frs. k \<le> n \<and>
     rel_option (rel_prod (=) (alike (w_sent (sn_world sn) @ frs) (w_sent (sn_world sn))))
       (run_round ru prompt_ids cfg (snd (heartbeat_loop n sn)))
       (run_round ru prompt_ids cfg (sn\<lparr>sn_world := (sn_world sn)\<lparr>w_clock_i := w_clock_i (sn_world sn) + k\<rparr>\<rparr>))"
proof -
  let ?later = "\<lambda>k. sn\<lparr>sn_world := (sn_world sn)\<lparr>w_clock_i := w_clock_i (sn_world sn) + k\<rparr>\<rparr>"
  obtain k frs where k: "k \<le> n" and beat: "snd (heartbeat_loop n sn) = sn\<lparr>sn_world := (sn_world sn)
      \<lparr>w_clock_i := w_clock_i (sn_world sn) + k, w_sent := w_sent (sn_world sn) @ frs\<rparr>\<rparr>"
    using heartbeat_effect by blast
  have "alike (w_sent (sn_world sn) @ frs) (w_sent (sn_world sn)) (snd (heartbeat_loop n sn)) (?later k)"
    by (simp add: beat alike_def)
  then show ?thesis using k by (metis follows_both follows_run_round alike_sym)
qed

end
