(* ===== verification/Threads.thy ===== *)
theory Threads imports Heartbeat begin

section \<open>A round with the heartbeat thread beside it\<close>

text \<open>
  \<open>run_round\<close> of \<open>node/generation.py\<close> in a process whose other thread is the loop of theory \<open>Heartbeat\<close>.
  The interpreter may switch threads anywhere, but the main thread can notice it only where it reads the
  clock, polls, or hands a frame to the socket. So each of these is preceded by any number of rounds of the heartbeat loop: \<open>beat k sn\<close>, where the schedule
  \<open>k\<close> says how many, as a function of the whole state, and is arbitrary. The definitions with the suffix
  \<open>_th\<close> are those of \<open>Swarm\<close> and \<open>Generation\<close> with \<open>beat k\<close> at these points, and are these with the
  schedule that never beats (\<open>run_round_no_beat\<close>). After an exception, which ends the thread, the schedule may go on
  beating: that only adds runs.

  \<open>tracks a m f\<close> is a forward simulation with the clock as a prophecy: the computation \<open>m\<close> with heartbeats,
  from the state \<open>a\<close>, returns, and the computation \<open>f\<close> without them returns the same from every state that agrees
  with \<open>a\<close> (\<open>twin\<close>) and whose clock will show what the main thread reads in \<open>m\<close>. It is proved operation
  by operation, with a rule for sequencing, and gives \<open>heartbeats_interleave\<close>: with heartbeats anywhere
  inside it, a round still does what a round does, on a clock with some of its readings left out.
\<close>

subsection \<open>The main thread with heartbeats\<close>

definition beat :: "(swarm_node \<Rightarrow> nat) \<Rightarrow> swarm_node \<Rightarrow> swarm_node" where
  "beat k sn = snd (heartbeat_loop (k sn) sn)"

definition pump_once_th ::
  "(swarm_node \<Rightarrow> nat) \<Rightarrow> swarm_node \<Rightarrow> int \<Rightarrow> envelope option result \<times> swarm_node" where
  "pump_once_th k sn timeout_ms =
     (let sn = beat k sn in
      case poll_recv (sn_world sn) timeout_ms of
        (Inl e, w) \<Rightarrow> (Inl e, sn\<lparr>sn_world := w\<rparr>)
      | (Inr None, w) \<Rightarrow> (Inr None, sn\<lparr>sn_world := w\<rparr>)
      | (Inr (Some env), w) \<Rightarrow>
          pbind (dispatch (beat k (sn\<lparr>sn_world := w\<rparr>)) env) (\<lambda>env sn'. (Inr (Some env), sn')))"

text \<open>The time stamp of a message is read first; heartbeats may go out before its frame does.\<close>

definition publish_msg_th ::
  "(swarm_node \<Rightarrow> nat) \<Rightarrow> swarm_node \<Rightarrow> string \<Rightarrow> payload option \<Rightarrow> unit result \<times> swarm_node" where
  "publish_msg_th k sn msg_type payload =
     (case read_clock (beat k sn) of (clock, sn1) \<Rightarrow>
        case encode (w_codec (sn_world sn1)) (sn_id sn1) msg_type payload clock of
          Inl e \<Rightarrow> (Inl e, sn1)
        | Inr frame \<Rightarrow>
            let sn2 = beat k sn1
            in (Inr (), sn2\<lparr>sn_world := (sn_world sn2)\<lparr>w_sent := w_sent (sn_world sn2) @ [frame]\<rparr>\<rparr>))"

partial_function (option) collect_loop_th ::
  "(swarm_node \<Rightarrow> nat) \<Rightarrow> inbox_key \<Rightarrow> real \<Rightarrow> string set \<times> (string, payload) dict \<Rightarrow> swarm_node
   \<Rightarrow> ((string, payload) dict result \<times> swarm_node) option" where
  "collect_loop_th k key deadline acc sn =
     (if fst acc = {} then Some (Inr (snd acc), sn)
      else (case read_clock (beat k sn) of (now, sn1) \<Rightarrow>
        if now < deadline then
          (case pump_once_th k sn1 100 of
             (Inl e, sn2) \<Rightarrow> Some (Inl e, sn2)
           | (Inr None, sn2) \<Rightarrow> collect_loop_th k key deadline acc sn2
           | (Inr (Some env), sn2) \<Rightarrow> collect_loop_th k key deadline (collect_take key env acc) sn2)
        else Some (Inr (snd acc), sn1)))"

definition collect_until_th ::
  "(swarm_node \<Rightarrow> nat) \<Rightarrow> swarm_node \<Rightarrow> string \<Rightarrow> pyval \<Rightarrow> int \<Rightarrow> string set \<Rightarrow> real
   \<Rightarrow> ((string, payload) dict result \<times> swarm_node) option" where
  "collect_until_th k sn msg_type rid sync_seq expected_from timeout =
     (let key = (msg_type, rid, PInt sync_seq) in
      if \<not> key_hashable key then Some (Inl TypeError, sn)
      else
        let received = filter (\<lambda>(n, v). n \<in> expected_from) (inbox_bucket (sn_inbox sn) key);
            remaining = expected_from - set (keys received);
            (now, sn1) = read_clock (beat k sn);
            deadline = now + timeout
        in case collect_loop_th k key deadline (remaining, received) sn1 of
             None \<Rightarrow> None
           | Some (Inl e, sn2) \<Rightarrow> Some (Inl e, sn2)
           | Some (Inr received, sn2) \<Rightarrow>
               Some (Inr received, sn2\<lparr>sn_inbox := inbox_drop key (sn_inbox sn2)\<rparr>))"

definition exchange_th ::
  "(swarm_node \<Rightarrow> nat) \<Rightarrow> string \<Rightarrow> payload \<Rightarrow> pyval \<Rightarrow> int \<Rightarrow> string set \<Rightarrow> swarm_node
   \<Rightarrow> ((string, payload) dict result \<times> swarm_node) option" where
  "exchange_th k msg_type payload rid sync_seq other_participants sn =
     tbind (Some (publish_msg_th k sn msg_type (Some payload))) (\<lambda>_ sn.
       collect_until_th k sn msg_type rid sync_seq other_participants SYNC_BARRIER_TIMEOUT)"

definition settle_disputes_th ::
  "(swarm_node \<Rightarrow> nat) \<Rightarrow> python \<Rightarrow> pyval \<Rightarrow> int \<Rightarrow> string set \<Rightarrow> real list list
   \<Rightarrow> (int, int set) dict \<Rightarrow> swarm_node \<Rightarrow> ((int, int) dict result \<times> swarm_node) option" where
  "settle_disputes_th k py rid sync_seq other_participants my_p disputes sn =
     tbind (Some (own_scores (py_set_iter py) my_p disputes, sn)) (\<lambda>my_scores sn.
     tbind (exchange_th k DISPUTE_SCORE (score_payload rid sync_seq my_scores) rid sync_seq other_participants sn)
       (\<lambda>others_scores_raw sn.
     Some (rbind (with_others parse_scores (sn_id sn) my_scores others_scores_raw)
             (\<lambda>all_scores. resolve_disputes (py_exp py) all_scores), sn)))"

definition do_sync_th ::
  "(swarm_node \<Rightarrow> nat) \<Rightarrow> python \<Rightarrow> pyval \<Rightarrow> int \<Rightarrow> string set \<Rightarrow> commit \<Rightarrow> real list list
   \<Rightarrow> (int, int) dict \<Rightarrow> int \<Rightarrow> int \<Rightarrow> stop_detector \<Rightarrow> swarm_node
   \<Rightarrow> (((int, int) dict \<times> int option \<times> stop_detector) result \<times> swarm_node) option" where
  "do_sync_th k py rid sync_seq other_participants my_commits my_p shared_x gen_start gen_end sd sn =
     tbind (exchange_th k COMMIT (commit_payload rid sync_seq my_commits) rid sync_seq other_participants sn)
       (\<lambda>others_raw sn.
     tbind (Some (with_others parse_commit (sn_id sn) my_commits others_raw, sn)) (\<lambda>all_commits sn.
     let disputes = detect_disputes all_commits in
     tbind (if disputes = [] then Some (Inr [], sn)
            else settle_disputes_th k py rid sync_seq other_participants my_p disputes sn) (\<lambda>resolved sn.
     let shared_x = merge_consensus (py_set_iter py) shared_x all_commits resolved;
         (new_frozen_from, sd) = check sd shared_x gen_start gen_end
     in Some (Inr (shared_x, new_frozen_from, sd), sn))))"

definition gen_step_th ::
  "(swarm_node \<Rightarrow> nat) \<Rightarrow> runner \<Rightarrow> gen_config \<Rightarrow> pyval \<Rightarrow> string set \<Rightarrow> nat \<Rightarrow> nat \<Rightarrow> nat \<Rightarrow> nat \<Rightarrow> nat \<Rightarrow> nat
   \<Rightarrow> loop_vars \<Rightarrow> swarm_node \<Rightarrow> (loop_vars option result \<times> swarm_node) option" where
  "gen_step_th k ru cfg rid other_participants gen_start gen_end block_start block_end steps_per_block step_idx lv sn =
     tbind (Some (pump_once_th k sn 10)) (\<lambda>_ sn.
       let (now, sn1) = read_clock (beat k sn);
           (failed, rm) = check_leader_timeout (sn_round sn1) None now;
           sn2 = sn1\<lparr>sn_round := rm\<rparr>
       in if failed then Some (Inr None, sn2)
       else
         let steps_remaining = int steps_per_block - int step_idx in
         tbind (Some (local_step (ru_torch ru) (ru_model ru) (ru_noise ru (lv_steps_done lv)) (lv_x lv) (lv_age lv)
                  steps_remaining block_start block_end (int steps_per_block) (gc_step_cfg cfg)
                  (map_option nat (lv_frozen lv)), sn2)) (\<lambda>r sn3.
         let lv1 = lv\<lparr>lv_x := sr_x r, lv_age := sr_age r,
                      lv_pending := note_transfers r (lv_pending lv),
                      lv_steps_done := Suc (lv_steps_done lv)\<rparr>;
             is_last_step = (step_idx = steps_per_block - 1)
         in if gc_sync_every cfg = 0 then Some (Inl ZeroDivisionError, sn3)
            else if (step_idx + 1) mod gc_sync_every cfg = 0 \<or> is_last_step then
              tbind (do_sync_th k (ru_python ru) rid (lv_seq lv1) other_participants (lv_pending lv1) (sr_p r)
                       (lv_shared lv1) (int gen_start) (int gen_end) (lv_sd lv1) sn3)
                (\<lambda>(shared_x, frozen_from, sd) sn4.
                  Some (Inr (Some (adopt_shared block_start block_end
                    (lv1\<lparr>lv_shared := shared_x, lv_frozen := frozen_from, lv_sd := sd,
                         lv_seq := lv_seq lv1 + 1, lv_pending := []\<rparr>))), sn4))
            else Some (Inr (Some lv1), sn3)))"

fun blocks_loop_th ::
  "(swarm_node \<Rightarrow> nat) \<Rightarrow> runner \<Rightarrow> gen_config \<Rightarrow> pyval \<Rightarrow> string set \<Rightarrow> nat \<Rightarrow> nat \<Rightarrow> nat \<Rightarrow> nat list
   \<Rightarrow> loop_vars \<Rightarrow> swarm_node \<Rightarrow> (loop_vars option result \<times> swarm_node) option" where
  "blocks_loop_th k ru cfg rid others gen_start gen_end steps_per_block [] lv sn = Some (Inr (Some lv), sn)"
| "blocks_loop_th k ru cfg rid others gen_start gen_end steps_per_block (b # bs) lv sn =
     (let block_start = gen_start + b * gc_block_length cfg;
          block_end = gen_start + (b + 1) * gc_block_length cfg
      in if (case lv_frozen lv of None \<Rightarrow> False | Some f \<Rightarrow> int block_start \<ge> f)
      then Some (Inr (Some lv), sn)
      else
        tbind (steps_loop
            (gen_step_th k ru cfg rid others gen_start gen_end block_start block_end steps_per_block)
            [0..<steps_per_block]
            (lv\<lparr>lv_age := replicate (length (lv_x lv)) 0, lv_pending := []\<rparr>) sn) (\<lambda>r sn.
          case r of None \<Rightarrow> Some (Inr None, sn)
          | Some lv \<Rightarrow> blocks_loop_th k ru cfg rid others gen_start gen_end steps_per_block bs lv sn))"

definition run_round_th ::
  "(swarm_node \<Rightarrow> nat) \<Rightarrow> runner \<Rightarrow> int list \<Rightarrow> gen_config \<Rightarrow> swarm_node
   \<Rightarrow> ((int, int) dict option result \<times> swarm_node) option" where
  "run_round_th k ru prompt_ids cfg sn =
     (case active_round (sn_round sn) of
        None \<Rightarrow> Some (Inl AttributeError, sn)
      | Some round_state \<Rightarrow>
          let rid = round_id round_state;
              others = set (participants round_state) - {sn_id sn};
              gen_start = length prompt_ids;
              gen_end = gen_start + gc_gen_length cfg
          in if gc_block_length cfg = 0 then Some (Inl ZeroDivisionError, sn)
          else let num_blocks = gc_gen_length cfg div gc_block_length cfg
          in if num_blocks = 0 then Some (Inl ZeroDivisionError, sn)
          else
            let steps_per_block = gc_steps cfg div num_blocks
            in tbind (blocks_loop_th k ru cfg rid others gen_start gen_end steps_per_block [0..<num_blocks]
                  (start_vars prompt_ids cfg) sn)
                 (\<lambda>r sn. case r of
                    None \<Rightarrow> Some (Inr None, sn)
                  | Some lv \<Rightarrow>
                      if is_round_leader (sn_round sn)
                      then tbind (Some (publish_msg_th k sn GEN_DONE (Some [(''round_id'', rid)])))
                             (\<lambda>_ sn. Some (Inr (Some (lv_shared lv)), sn))
                      else Some (Inr (Some (lv_shared lv)), sn)))"

subsection \<open>What the main thread sees\<close>

text \<open>
  \<open>beaten B l l'\<close>: the frames \<open>l\<close> are the frames \<open>l'\<close> with some frames that satisfy \<open>B\<close> in between.
  \<open>twin a b\<close>: all that the main thread can see of the two states is the same, but for the clock, and \<open>a\<close> has
  sent what \<open>b\<close> has sent, with heartbeats of its own in between.
\<close>

inductive beaten :: "(string \<times> string \<Rightarrow> bool) \<Rightarrow> (string \<times> string) list \<Rightarrow> (string \<times> string) list \<Rightarrow> bool" for B where
  Same: "beaten B l l"
| Main: "beaten B l l' \<Longrightarrow> beaten B (l @ [f]) (l' @ [f])"
| Beat: "beaten B l l' \<Longrightarrow> B f \<Longrightarrow> beaten B (l @ [f]) l'"

lemma beaten_beats: "beaten B l l' \<Longrightarrow> \<forall>f \<in> set fs. B f \<Longrightarrow> beaten B (l @ fs) l'"
proof (induction fs rule: rev_induct)
  case (snoc f fs)
  then show ?case using beaten.Beat [of B "l @ fs" l' f] by simp
qed simp

definition twin :: "swarm_node \<Rightarrow> swarm_node \<Rightarrow> bool" where
  "twin a b \<longleftrightarrow> sn_id a = sn_id b \<and> sn_peers a = sn_peers b \<and> sn_round a = sn_round b \<and> sn_inbox a = sn_inbox b \<and>
     sn_transport a = sn_transport b \<and> w_codec (sn_world a) = w_codec (sn_world b) \<and>
     w_polls (sn_world a) = w_polls (sn_world b) \<and> w_poll_i (sn_world a) = w_poll_i (sn_world b) \<and>
     beaten (heartbeat_of (w_codec (sn_world a)) (sn_id a)) (w_sent (sn_world a)) (w_sent (sn_world b))"

lemma twin_fields:
  assumes "twin a b"
  shows "sn_id b = sn_id a" and "sn_round b = sn_round a" and "sn_inbox b = sn_inbox a" and "sn_peers b = sn_peers a"
    and "w_codec (sn_world b) = w_codec (sn_world a)"
  using assms by (simp_all add: twin_def)

text \<open>
  From \<open>a\<close> to \<open>b\<close> the clock was read on, by the main thread at the readings \<open>I\<close>, in this order (\<open>along\<close>), or
  by whomever (\<open>later\<close>). \<open>shows_at a I b\<close>: the next readings of \<open>b\<close> are those that \<open>a\<close> has at \<open>I\<close>.
  \<open>ticks a n b\<close>: from \<open>a\<close> to \<open>b\<close> the clock was read \<open>n\<close> times.
\<close>

definition along :: "swarm_node \<Rightarrow> nat list \<Rightarrow> swarm_node \<Rightarrow> bool" where
  "along a I b \<longleftrightarrow> w_clock (sn_world b) = w_clock (sn_world a) \<and> w_clock_i (sn_world a) \<le> w_clock_i (sn_world b) \<and>
     sorted_wrt (<) I \<and> set I \<subseteq> {w_clock_i (sn_world a)..<w_clock_i (sn_world b)}"

definition later :: "swarm_node \<Rightarrow> swarm_node \<Rightarrow> bool" where
  "later a b \<longleftrightarrow> w_clock (sn_world b) = w_clock (sn_world a) \<and> w_clock_i (sn_world a) \<le> w_clock_i (sn_world b)"

definition shows_at :: "swarm_node \<Rightarrow> nat list \<Rightarrow> swarm_node \<Rightarrow> bool" where
  "shows_at a I b \<longleftrightarrow> (\<forall>j < length I. w_clock (sn_world b) (w_clock_i (sn_world b) + j) = w_clock (sn_world a) (I ! j))"

definition ticks :: "swarm_node \<Rightarrow> nat \<Rightarrow> swarm_node \<Rightarrow> bool" where
  "ticks a n b \<longleftrightarrow> w_clock (sn_world b) = w_clock (sn_world a) \<and> w_clock_i (sn_world b) = w_clock_i (sn_world a) + n"

definition tracks ::
  "swarm_node \<Rightarrow> ('a \<times> swarm_node) option \<Rightarrow> (swarm_node \<Rightarrow> ('a \<times> swarm_node) option) \<Rightarrow> bool" where
  "tracks a m f \<longleftrightarrow> (\<exists>r a' I. m = Some (r, a') \<and> along a I a' \<and>
     (\<forall>b. twin a b \<longrightarrow> shows_at a I b \<longrightarrow> (\<exists>b'. f b = Some (r, b') \<and> twin a' b' \<and> ticks b (length I) b')))"

subsection \<open>Rules\<close>

lemma along_trans: "along a I b \<Longrightarrow> along b J c \<Longrightarrow> along a (I @ J) c"
  by (fastforce simp: along_def sorted_wrt_append)

lemma shows_at_append:
  assumes "shows_at a (I @ J) b" and "w_clock (sn_world a') = w_clock (sn_world a)"
  shows "shows_at a I b" and "ticks b (length I) b' \<Longrightarrow> shows_at a' J b'"
proof -
  have s: "w_clock (sn_world b) (w_clock_i (sn_world b) + j) = w_clock (sn_world a) ((I @ J) ! j)" if "j < length I + length J" for j
    using assms(1) that by (simp add: shows_at_def)
  show "shows_at a I b" unfolding shows_at_def using s by (simp add: nth_append)
  show "ticks b (length I) b' \<Longrightarrow> shows_at a' J b'"
    unfolding shows_at_def ticks_def using s [of "length I + j" for j] by (simp add: nth_append assms(2) add.assoc)
qed

lemma later_advances: "later a s \<Longrightarrow> clock_advances (sn_world a) \<Longrightarrow> clock_advances (sn_world s)"
  by (simp add: later_def clock_advances_def)

lemma tracks_seq:
  assumes "tracks a m f" and "\<And>r s. m = Some (r, s) \<Longrightarrow> later a s \<Longrightarrow> tracks s (g r s) (g' r)"
  shows "tracks a (case m of None \<Rightarrow> None | Some (r, s) \<Rightarrow> g r s) (\<lambda>b. case f b of None \<Rightarrow> None | Some (r, t) \<Rightarrow> g' r t)"
proof -
  obtain r s I where m: "m = Some (r, s)" and I: "along a I s"
    and f: "\<And>b. twin a b \<Longrightarrow> shows_at a I b \<Longrightarrow> \<exists>b'. f b = Some (r, b') \<and> twin s b' \<and> ticks b (length I) b'"
    using assms(1) unfolding tracks_def by blast
  have clk: "w_clock (sn_world s) = w_clock (sn_world a)" using I by (simp add: along_def)
  have "later a s" using I by (simp add: along_def later_def)
  from assms(2) [OF m this] obtain q s' J where g: "g r s = Some (q, s')" and J: "along s J s'"
    and g': "\<And>b. twin s b \<Longrightarrow> shows_at s J b \<Longrightarrow> \<exists>b'. g' r b = Some (q, b') \<and> twin s' b' \<and> ticks b (length J) b'"
    unfolding tracks_def by blast
  have "\<exists>b'. (case f b of None \<Rightarrow> None | Some (r, t) \<Rightarrow> g' r t) = Some (q, b') \<and> twin s' b' \<and> ticks b (length (I @ J)) b'"
    if b: "twin a b" "shows_at a (I @ J) b" for b
  proof -
    note sh = shows_at_append [OF b(2) clk]
    obtain t where t: "f b = Some (r, t)" "twin s t" "ticks b (length I) t" using f [OF b(1) sh(1)] by blast
    obtain b' where "g' r t = Some (q, b')" "twin s' b'" "ticks t (length J) b'" using g' [OF t(2) sh(2) [OF t(3)]] by blast
    with t show ?thesis by (intro exI [of _ b']) (simp add: ticks_def)
  qed
  then show ?thesis using g along_trans [OF I J] unfolding tracks_def m by auto
qed

lemma tracks_bind:
  assumes "tracks a m f" and "\<And>x s. m = Some (Inr x, s) \<Longrightarrow> later a s \<Longrightarrow> tracks s (g x s) (g' x)"
  shows "tracks a (tbind m g) (\<lambda>b. tbind (f b) g')"
proof -
  let ?h = "\<lambda>g r s. case r of Inl e \<Rightarrow> Some (Inl e, s) | Inr x \<Rightarrow> g x s"
  have stop: "tracks s (Some (r, s)) (\<lambda>b. Some (r, b))" for r :: "'c result" and s
    unfolding tracks_def by (intro exI [of _ r] exI [of _ s] exI [of _ "[]"]) (simp add: along_def ticks_def)
  have eq: "tbind m g = (case m of None \<Rightarrow> None | Some (r, s) \<Rightarrow> ?h g r s)" for m g
    by (auto simp: tbind_def split: option.splits sum.splits)
  show ?thesis unfolding eq by (rule tracks_seq [OF assms(1)]) (auto simp: stop assms(2) split: sum.splits)
qed

lemma tracks_case:
  assumes "tracks a (Some p) (\<lambda>b. Some (f b))" and "\<And>r s. p = (r, s) \<Longrightarrow> later a s \<Longrightarrow> tracks s (g r s) (g' r)"
  shows "tracks a (case p of (r, s) \<Rightarrow> g r s) (\<lambda>b. case f b of (r, t) \<Rightarrow> g' r t)"
  using tracks_seq [OF assms(1), of g g'] assms(2) by (simp add: case_prod_unfold)

lemma tracks_now:
  assumes "ticks a 0 a'" and "\<And>b. twin a b \<Longrightarrow> \<exists>b'. f b = Some (r, b') \<and> twin a' b' \<and> ticks b 0 b'"
  shows "tracks a (Some (r, a')) f"
  unfolding tracks_def
  by (intro exI [of _ r] exI [of _ a'] exI [of _ "[]"]) (use assms in \<open>auto simp: along_def ticks_def\<close>)

lemma tracks_same:
  assumes "\<And>b. twin a b \<Longrightarrow> f b = Some (r, b)"
  shows "tracks a (Some (r, a)) f"
  by (rule tracks_now) (use assms in \<open>auto simp: ticks_def\<close>)

lemma tracks_cong:
  assumes "\<And>b. twin a b \<Longrightarrow> f b = f' b" and "tracks a m f'"
  shows "tracks a m f"
  using assms unfolding tracks_def by metis

lemma tracks_clock: "tracks a (Some (read_clock a)) (\<lambda>b. Some (read_clock b))"
  unfolding tracks_def
  by (intro exI [of _ "w_clock (sn_world a) (w_clock_i (sn_world a))"] exI [of _ "snd (read_clock a)"] exI [of _ "[w_clock_i (sn_world a)]"])
    (auto simp: along_def shows_at_def ticks_def read_clock_def time_time_def twin_def)

lemma tracks_after:
  assumes "\<And>b. twin a b \<Longrightarrow> twin a' b" and "along a [] a'" and "tracks a' m f"
  shows "tracks a m f"
proof -
  obtain r s I where m: "m = Some (r, s)" "along a' I s"
    and f: "\<And>b. twin a' b \<Longrightarrow> shows_at a' I b \<Longrightarrow> \<exists>b'. f b = Some (r, b') \<and> twin s b' \<and> ticks b (length I) b'"
    using assms(3) unfolding tracks_def by blast
  have "shows_at a I b \<longleftrightarrow> shows_at a' I b" for b using assms(2) by (simp add: shows_at_def along_def)
  with f assms(1) along_trans [OF assms(2) m(2)] m(1) show ?thesis unfolding tracks_def by auto
qed

lemma later_beat: "later a (beat k a)"
  using heartbeat_effect [of "k a" a] by (auto simp: beat_def later_def)

lemma tracks_beat:
  assumes "tracks (beat k a) m f"
  shows "tracks a m f"
proof -
  obtain i frs where frs: "\<forall>f \<in> set frs. heartbeat_of (w_codec (sn_world a)) (sn_id a) f" and b: "beat k a = a\<lparr>sn_world := (sn_world a)
     \<lparr>w_clock_i := w_clock_i (sn_world a) + i, w_sent := w_sent (sn_world a) @ frs\<rparr>\<rparr>"
    unfolding beat_def using heartbeat_effect by blast
  have "twin a t \<Longrightarrow> twin (beat k a) t" for t
    using beaten_beats [OF _ frs] by (auto simp: twin_def b)
  then show ?thesis by (rule tracks_after [OF _ _ assms]) (simp_all add: b along_def)
qed

subsection \<open>The operations of the main thread\<close>

lemma twin_update:
  assumes "twin a b"
  shows "twin (a\<lparr>sn_round := r\<rparr>) (b\<lparr>sn_round := r\<rparr>)" and "twin (a\<lparr>sn_inbox := x\<rparr>) (b\<lparr>sn_inbox := x\<rparr>)"
    and "twin (a\<lparr>sn_peers := p\<rparr>) (b\<lparr>sn_peers := p\<rparr>)"
  using assms by (auto simp: twin_def)

lemma tracks_dispatch: "tracks a (Some (dispatch a env)) (\<lambda>b. Some (dispatch b env))"
proof -
  let ?D = "\<lambda>t s. let sn1 = note_sender s (e_node_id env) (e_type env) t in
    if e_type env = GEN_START then
      (case on_gen_start (sn_round sn1) env (Some t) t of Inl e \<Rightarrow> (Inl e, sn1) | Inr rm \<Rightarrow> (Inr env, sn1\<lparr>sn_round := rm\<rparr>))
    else if e_type env = GEN_DONE then (Inr env, sn1\<lparr>sn_round := on_gen_done (sn_round sn1) env\<rparr>)
    else if e_type env \<in> {COMMIT, DISPUTE_SCORE} then
      (let payload = e_payload env; key = payload_key (e_type env) payload
       in if key_hashable key then (Inr env, sn1\<lparr>sn_inbox := inbox_file key (e_node_id env) payload (sn_inbox sn1)\<rparr>)
          else (Inl TypeError, sn1))
    else (Inr env, sn1)"
  have eq: "Some (dispatch s env) = (case read_clock s of (t, s) \<Rightarrow> Some (?D t s))" for s
    by (simp add: dispatch_def case_prod_unfold Let_def)
  have rest: "tracks s (Some (?D t s)) (\<lambda>b. Some (?D t b))" for t s
  proof (cases "?D t s")
    case (Pair r s')
    have "fst (?D t b) = r \<and> twin s' (snd (?D t b)) \<and> ticks b 0 (snd (?D t b))" if b: "twin s b" for b
    proof -
      have n: "twin (note_sender s n m t) (note_sender b n m t)" for n m
        using b by (auto simp: note_sender_def Let_def twin_def)
      have "fst (?D t b) = fst (?D t s) \<and> twin (snd (?D t s)) (snd (?D t b))"
        unfolding Let_def twin_fields [OF n] by (auto simp: n twin_update split: sum.splits)
      moreover have "ticks b 0 (snd (?D t b))" by (auto simp: ticks_def Let_def split: sum.splits)
      ultimately show ?thesis by (simp only: Pair fst_conv snd_conv)
    qed
    moreover have "ticks s 0 s'" using Pair by (auto simp: ticks_def Let_def split: sum.splits if_splits)
    ultimately show ?thesis unfolding Pair by (intro tracks_now) (auto simp: prod_eq_iff)
  qed
  show ?thesis unfolding eq by (rule tracks_case [OF tracks_clock rest])
qed

lemma tracks_poll:
  "tracks a (Some (fst (poll_recv (sn_world a) t), a\<lparr>sn_world := snd (poll_recv (sn_world a) t)\<rparr>))
     (\<lambda>b. Some (fst (poll_recv (sn_world b) t), b\<lparr>sn_world := snd (poll_recv (sn_world b) t)\<rparr>))"
proof (rule tracks_now)
  fix b assume b: "twin a b"
  have same: "w_polls (sn_world b) = w_polls (sn_world a)" "w_poll_i (sn_world b) = w_poll_i (sn_world a)"
    "w_codec (sn_world b) = w_codec (sn_world a)"
    using b by (simp_all add: twin_def)
  then have r: "fst (poll_recv (sn_world b) t) = fst (poll_recv (sn_world a) t)" by (simp add: poll_recv_def Let_def split: option.splits)
  show "\<exists>b'. Some (fst (poll_recv (sn_world b) t), b\<lparr>sn_world := snd (poll_recv (sn_world b) t)\<rparr>) =
      Some (fst (poll_recv (sn_world a) t), b') \<and> twin (a\<lparr>sn_world := snd (poll_recv (sn_world a) t)\<rparr>) b' \<and> ticks b 0 b'"
    unfolding r using b by (auto simp: twin_def ticks_def)
qed (simp add: ticks_def)

lemma tracks_pump: "tracks a (Some (pump_once_th k a t)) (\<lambda>b. Some (pump_once b t))"
proof -
  let ?next = "\<lambda>b s. \<lambda>r. case r of Inl e \<Rightarrow> Some (Inl e, s) | Inr None \<Rightarrow> Some (Inr None, s)
    | Inr (Some env) \<Rightarrow> tbind (Some (dispatch (b s) env)) (\<lambda>env s. Some (Inr (Some env), s))"
  let ?poll = "\<lambda>b. (fst (poll_recv (sn_world b) t), b\<lparr>sn_world := snd (poll_recv (sn_world b) t)\<rparr>)"
  have got: "Some (pbind p (\<lambda>env s. (Inr (Some env), s))) = tbind (Some p) (\<lambda>env s. Some (Inr (Some env), s))"
    for p :: "envelope result \<times> swarm_node"
    by (auto simp: pbind_def tbind_def split: prod.splits sum.splits)
  have plain: "Some (pump_once b t) = (case ?poll b of (r, s) \<Rightarrow> ?next (\<lambda>s. s) s r)" for b
    unfolding pump_once_def by (simp add: case_prod_unfold got [symmetric] split: sum.splits option.splits)
  have th: "Some (pump_once_th k a t) = (case ?poll (beat k a) of (r, s) \<Rightarrow> ?next (beat k) s r)"
    unfolding pump_once_th_def Let_def by (simp add: case_prod_unfold got [symmetric] split: sum.splits option.splits)
  have rest: "tracks s (?next (beat k) s r) (\<lambda>b. ?next (\<lambda>s. s) b r)" for r s
  proof (cases r)
    case (Inr m)
    show ?thesis
    proof (cases m)
      case (Some env)
      show ?thesis unfolding Inr Some sum.case option.case
        by (rule tracks_bind [OF tracks_beat [OF tracks_dispatch]]) (rule tracks_same, rule refl)
    qed (simp add: Inr tracks_same)
  qed (simp add: tracks_same)
  show ?thesis unfolding plain th by (rule tracks_beat [where k = k], rule tracks_case [OF tracks_poll rest])
qed

lemma tracks_publish: "tracks a (Some (publish_msg_th k a m p)) (\<lambda>b. Some (publish_msg b m p))"
proof -
  let ?out = "\<lambda>s fr. s\<lparr>sn_world := (sn_world s)\<lparr>w_sent := w_sent (sn_world s) @ [fr]\<rparr>\<rparr>"
  let ?next = "\<lambda>b t s. case encode (w_codec (sn_world s)) (sn_id s) m p t of Inl e \<Rightarrow> Some (Inl e, s) | Inr fr \<Rightarrow> Some (Inr (), ?out (b s) fr)"
  have plain: "Some (publish_msg b m p) = (case read_clock b of (t, s) \<Rightarrow> ?next (\<lambda>s. s) t s)" for b
    unfolding publish_msg_split by (simp add: case_prod_unfold split: sum.splits)
  have th: "Some (publish_msg_th k a m p) = (case read_clock (beat k a) of (t, s) \<Rightarrow> ?next (beat k) t s)"
    unfolding publish_msg_th_def Let_def by (simp add: case_prod_unfold split: sum.splits)
  have out: "tracks s (Some (Inr (), ?out s fr)) (\<lambda>b. Some (Inr (), ?out b fr))" for s fr
    by (rule tracks_now) (auto simp: twin_def ticks_def intro: beaten.Main)
  have rest: "tracks s (?next (beat k) t s) (\<lambda>b. ?next (\<lambda>s. s) t b)" for t s
  proof (cases "encode (w_codec (sn_world s)) (sn_id s) m p t")
    case (Inl e)
    then show ?thesis by (auto intro!: tracks_same simp: twin_fields)
  next
    case (Inr fr)
    show ?thesis
    proof (rule tracks_cong)
      show "tracks s (?next (beat k) t s) (\<lambda>b. Some (Inr (), ?out b fr))"
        using tracks_beat [OF out] by (simp add: Inr)
    qed (simp add: twin_fields Inr)
  qed
  show ?thesis unfolding plain th by (rule tracks_beat [where k = k], rule tracks_case [OF tracks_clock rest])
qed

text \<open>A round of the loop of \<open>collect_until\<close>, as a sequence of tracked operations.\<close>

lemma collect_round:
  assumes "fst acc \<noteq> {}"
  shows "collect_loop key d acc sn = (case read_clock sn of (now, s) \<Rightarrow> if now < d
      then (case pump_once s 100 of (r, s) \<Rightarrow> case r of Inl e \<Rightarrow> Some (Inl e, s) | Inr None \<Rightarrow> collect_loop key d acc s
        | Inr (Some env) \<Rightarrow> collect_loop key d (collect_take key env acc) s) else Some (Inr (snd acc), s))"
    and "collect_loop_th k key d acc sn = (case read_clock (beat k sn) of (now, s) \<Rightarrow> if now < d
      then (case pump_once_th k s 100 of (r, s) \<Rightarrow> case r of Inl e \<Rightarrow> Some (Inl e, s) | Inr None \<Rightarrow> collect_loop_th k key d acc s
        | Inr (Some env) \<Rightarrow> collect_loop_th k key d (collect_take key env acc) s) else Some (Inr (snd acc), s))"
  by (subst collect_loop.simps, simp add: assms case_prod_unfold split: sum.splits option.splits)
    (subst collect_loop_th.simps, simp add: assms case_prod_unfold split: sum.splits option.splits)

lemma tracks_collect_loop:
  assumes "\<forall>m \<ge> n. d \<le> w_clock (sn_world a) m"
  shows "tracks a (collect_loop_th k key d acc a) (collect_loop key d acc)"
  using assms
proof (induction "n - w_clock_i (sn_world a)" arbitrary: a acc rule: less_induct)
  case less
  show ?case
  proof (cases "fst acc = {}")
    case True
    then show ?thesis
      by (subst collect_loop_th.simps) (simp add: tracks_same collect_loop.simps)
  next
    case False
    show ?thesis
    proof (subst collect_round(1) [OF False, abs_def], subst collect_round(2) [OF False], rule tracks_beat [where k = k], rule tracks_case [OF tracks_clock], goal_cases)
      case (1 now s)
      then have now: "now = w_clock (sn_world a) (w_clock_i (sn_world (beat k a)))"
        and s: "w_clock (sn_world s) = w_clock (sn_world a)" "w_clock_i (sn_world (beat k a)) < w_clock_i (sn_world s)"
        using later_beat [of a k] by (auto simp: read_clock_def time_time_def later_def)
      show ?case
      proof (cases "now < d")
        case True
        then have "w_clock_i (sn_world (beat k a)) < n" using less.prems now by (meson not_less)
        then have IH: "tracks s' (collect_loop_th k key d acc' s') (collect_loop key d acc')" if "later s s'" for s' acc'
          using that s later_beat [of a k] less.prems by (intro less.hyps) (auto simp: later_def)
        show ?thesis unfolding if_P [OF True]
        proof (rule tracks_case [OF tracks_pump], goal_cases)
          case (1 r s')
          then show ?case by (cases r; cases "projr r") (simp_all add: tracks_same IH)
        qed
      qed (simp add: tracks_same)
    qed
  qed
qed

lemma tracks_collect_until:
  assumes "clock_advances (sn_world a)"
  shows "tracks a (collect_until_th k a m rid q ex t) (\<lambda>b. collect_until b m rid q ex t)"
proof (cases "key_hashable (m, rid, PInt q)")
  case True
  let ?key = "(m, rid, PInt q)"
  let ?in = "filter (\<lambda>(n, v). n \<in> ex) (inbox_bucket (sn_inbox a) ?key)"
  let ?acc = "(ex - set (keys ?in), ?in)"
  let ?drop = "\<lambda>s. s\<lparr>sn_inbox := inbox_drop ?key (sn_inbox s)\<rparr>"
  have plain: "collect_until b m rid q ex t = (case read_clock b of (now, s) \<Rightarrow>
      tbind (collect_loop ?key (now + t) ?acc s) (\<lambda>x s. Some (Inr x, ?drop s)))" if "twin a b" for b
    using True by (auto simp: collect_until_def Let_def twin_fields [OF that] tbind_def case_prod_unfold
      split: option.splits sum.splits)
  have th: "collect_until_th k a m rid q ex t = (case read_clock (beat k a) of (now, s) \<Rightarrow>
      tbind (collect_loop_th k ?key (now + t) ?acc s) (\<lambda>x s. Some (Inr x, ?drop s)))"
    using True by (auto simp: collect_until_th_def Let_def tbind_def case_prod_unfold split: option.splits sum.splits)
  note adv = later_advances [OF later_beat assms]
  have drop: "tracks s (Some (Inr x, ?drop s)) (\<lambda>b. Some (Inr x, ?drop b))" for x :: "(string, payload) dict" and s
    by (rule tracks_now) (auto simp: twin_fields twin_update ticks_def)
  have "tracks (beat k a) (collect_until_th k a m rid q ex t) (\<lambda>b. case read_clock b of (now, s) \<Rightarrow>
      tbind (collect_loop ?key (now + t) ?acc s) (\<lambda>x s. Some (Inr x, ?drop s)))"
    unfolding th
  proof (rule tracks_case [OF tracks_clock], rule tracks_bind [OF _ drop])
    fix now s assume "later (beat k a) s"
    then obtain n where "\<forall>m \<ge> n. now + t \<le> w_clock (sn_world s) m"
      using adv later_advances unfolding clock_advances_def by blast
    then show "tracks s (collect_loop_th k ?key (now + t) ?acc s) (collect_loop ?key (now + t) ?acc)"
      by (rule tracks_collect_loop)
  qed
  from tracks_beat [OF this] show ?thesis by (rule tracks_cong [rotated]) (rule plain)
qed (simp add: collect_until_th_def collect_until_def tracks_same)

lemma tracks_exchange:
  "clock_advances (sn_world a) \<Longrightarrow> tracks a (exchange_th k m pl rid q ex a) (exchange m pl rid q ex)"
  unfolding exchange_th_def exchange_def
  by (rule tracks_bind [OF tracks_publish]) (rule tracks_collect_until, rule later_advances)

lemma tracks_settle:
  assumes "clock_advances (sn_world a)"
  shows "tracks a (settle_disputes_th k py rid q ex p ds a) (settle_disputes py rid q ex p ds)"
  unfolding settle_disputes_th_def settle_disputes_def
  by (intro tracks_bind tracks_same refl tracks_exchange later_advances [OF _ assms], assumption)
    (auto simp: twin_fields intro: tracks_same)

lemma tracks_do_sync:
  assumes "clock_advances (sn_world a)"
  shows "tracks a (do_sync_th k py rid q ex c p x gs ge sd a) (do_sync py rid q ex c p x gs ge sd)"
  unfolding do_sync_th_def do_sync_def Let_def
proof (rule tracks_bind [OF tracks_exchange [OF assms]], goal_cases)
  case (1 raw s)
  note adv = later_advances [OF 1(2) assms]
  show ?case
  proof (rule tracks_bind, goal_cases)
    case 1
    show ?case by (rule tracks_same) (simp add: twin_fields)
  next
    case (2 all t)
    note adv = later_advances [OF 2(2) adv]
    show ?case
    proof (rule tracks_bind, goal_cases)
      case 1
      show ?case by (auto intro: tracks_same tracks_settle adv)
    next
      case (2 w u)
      show ?case by (simp add: case_prod_unfold tracks_same)
    qed
  qed
qed

lemma tracks_gen_step:
  assumes "clock_advances (sn_world a)"
  shows "tracks a (gen_step_th k ru cfg rid ex gs ge bs be spb i lv a) (gen_step ru cfg rid ex gs ge bs be spb i lv)"
  unfolding gen_step_th_def gen_step_def Let_def
proof (rule tracks_bind [OF tracks_pump], rule tracks_beat [where k = k], rule tracks_case [OF tracks_clock], goal_cases)
  case (1 env s now t)
  note adv = later_advances [OF 1(4) later_advances [OF later_beat later_advances [OF 1(2) assms]]]
  obtain failed rm where chk: "check_leader_timeout (sn_round t) None now = (failed, rm)"
    by (cases "check_leader_timeout (sn_round t) None now")
  let ?t = "t\<lparr>sn_round := rm\<rparr>"
  have set: "tracks t (Some (x, ?t)) (\<lambda>b. Some (x, b\<lparr>sn_round := rm\<rparr>))" for x :: "'c result"
    by (rule tracks_now) (simp_all add: twin_update ticks_def)
  have sync: "tracks u (tbind (do_sync_th k py rid q ex c p x gs ge sd u) (\<lambda>(x, f, d) s. Some (Inr (g x f d), s)))
      (\<lambda>b. tbind (do_sync py rid q ex c p x gs ge sd b) (\<lambda>(x, f, d) s. Some (Inr (g x f d), s)))"
    if "later t u" for u py q c p x gs ge sd and g :: "_ \<Rightarrow> _ \<Rightarrow> _ \<Rightarrow> loop_vars option"
    by (rule tracks_bind [OF tracks_do_sync [OF later_advances [OF that adv]]]) (simp add: case_prod_unfold tracks_same)
  show ?case
    by (rule tracks_cong, unfold twin_fields(2) chk prod.case, rule refl)
      (cases failed; simp add: set tracks_bind [OF set] tracks_same sync)
qed

lemma tracks_steps_loop:
  assumes "\<And>i lv s. clock_advances (sn_world s) \<Longrightarrow> tracks s (step i lv s) (step' i lv)" and "clock_advances (sn_world a)"
  shows "tracks a (steps_loop step is lv a) (steps_loop step' is lv)"
  using assms(2)
proof (induction "is" arbitrary: lv a)
  case (Cons i "is")
  show ?case unfolding steps_loop.simps
    by (rule tracks_bind [OF assms(1) [OF Cons.prems]])
      (auto simp: tracks_same Cons.IH later_advances [OF _ Cons.prems] split: option.splits)
qed (simp add: tracks_same)

lemma tracks_blocks_loop:
  assumes "clock_advances (sn_world a)"
  shows "tracks a (blocks_loop_th k ru cfg rid ex gs ge spb bs lv a) (blocks_loop ru cfg rid ex gs ge spb bs lv)"
  using assms
proof (induction bs arbitrary: lv a)
  case (Cons b bs)
  note loop = tracks_bind [OF tracks_steps_loop [OF tracks_gen_step Cons.prems]]
  show ?case unfolding blocks_loop.simps blocks_loop_th.simps Let_def
    by (auto intro!: loop tracks_same Cons.IH later_advances [OF _ Cons.prems] split: option.splits)
qed (simp add: tracks_same)

lemma tracks_run_round:
  assumes "clock_advances (sn_world a)"
  shows "tracks a (run_round_th k ru prompt_ids cfg a) (run_round ru prompt_ids cfg)"
proof -
  let ?done = "\<lambda>rid x b. tbind (Some (publish_msg b GEN_DONE (Some [(''round_id'', rid)]))) (\<lambda>_ s. Some (Inr (Some x), s))"
  have leader: "tracks s (tbind (Some (publish_msg_th k s GEN_DONE (Some [(''round_id'', rid)]))) (\<lambda>_ s. Some (Inr (Some x), s)))
      (\<lambda>b. if is_round_leader (sn_round b) then ?done rid x b else Some (Inr (Some x), b))"
    if "is_round_leader (sn_round s)" for s rid and x :: "(int, int) dict"
  proof (rule tracks_cong)
    show "tracks s (tbind (Some (publish_msg_th k s GEN_DONE (Some [(''round_id'', rid)]))) (\<lambda>_ s. Some (Inr (Some x), s))) (?done rid x)"
      by (rule tracks_bind [OF tracks_publish]) (simp add: tracks_same)
  qed (simp add: that twin_fields)
  show ?thesis
    by (rule tracks_cong, unfold run_round_def run_round_th_def Let_def twin_fields, rule refl)
      (auto simp: twin_fields split: option.splits intro!: tracks_same tracks_bind [OF tracks_blocks_loop [OF assms]] leader)
qed

subsection \<open>No heartbeats\<close>

text \<open>With the schedule that never beats, the definitions are the original ones.\<close>

lemma no_beat: "beat (\<lambda>_. 0) sn = sn"
  by (simp add: beat_def)

lemma pump_once_no_beat: "pump_once_th (\<lambda>_. 0) sn t = pump_once sn t"
  unfolding pump_once_th_def pump_once_def no_beat Let_def ..

lemma publish_msg_no_beat: "publish_msg_th (\<lambda>_. 0) sn m p = publish_msg sn m p"
  unfolding publish_msg_split by (simp add: publish_msg_th_def no_beat case_prod_unfold split: sum.splits)

lemma collect_loop_no_beat: "collect_loop_th (\<lambda>_. 0) key d acc sn = collect_loop key d acc sn"
proof -
  have "collect_loop_th k key d acc sn = Some out \<Longrightarrow> k = (\<lambda>_. 0) \<Longrightarrow> collect_loop key d acc sn = Some out" for k out
  proof (induction k key d acc sn out rule: collect_loop_th.raw_induct [rotated, consumes 1, case_names 1])
    case (1 loop k key d acc sn out)
    then show ?case
      by (subst collect_loop.simps) (auto simp: no_beat pump_once_no_beat split: if_splits prod.splits sum.splits option.splits)
  qed
  moreover have "collect_loop key d acc sn = Some out \<Longrightarrow> collect_loop_th (\<lambda>_. 0) key d acc sn = Some out" for out
  proof (induction key d acc sn out rule: collect_loop.raw_induct [rotated, consumes 1, case_names 1])
    case (1 loop key d acc sn out)
    then show ?case
      by (subst collect_loop_th.simps) (auto simp: no_beat pump_once_no_beat split: if_splits prod.splits sum.splits option.splits)
  qed
  ultimately show ?thesis by (metis not_None_eq)
qed

lemmas no_beats = no_beat pump_once_no_beat publish_msg_no_beat collect_loop_no_beat

lemma do_sync_no_beat: "do_sync_th (\<lambda>_. 0) = do_sync"
proof -
  have "exchange_th (\<lambda>_. 0) = exchange"
    by (intro ext) (unfold exchange_th_def exchange_def collect_until_th_def collect_until_def no_beats, rule refl)
  moreover from this have "settle_disputes_th (\<lambda>_. 0) = settle_disputes"
    by (intro ext) (unfold settle_disputes_th_def settle_disputes_def, simp only:)
  ultimately show ?thesis by (intro ext) (unfold do_sync_th_def do_sync_def, simp only:)
qed

lemma run_round_no_beat: "run_round_th (\<lambda>_. 0) = run_round"
proof -
  have step: "gen_step_th (\<lambda>_. 0) = gen_step"
    by (intro ext) (unfold gen_step_th_def gen_step_def no_beats do_sync_no_beat, rule refl)
  have "blocks_loop_th (\<lambda>_. 0) ru cfg rid others gs ge spb bs lv sn = blocks_loop ru cfg rid others gs ge spb bs lv sn"
    for ru cfg rid others gs ge spb bs lv sn
    by (induction bs arbitrary: lv sn) (simp_all add: step cong: option.case_cong)
  then show ?thesis by (intro ext) (unfold run_round_th_def run_round_def no_beats, simp only:)
qed

subsection \<open>Properties\<close>

lemma strict_mono_extend:
  assumes "sorted_wrt (<) I" and "set I \<subseteq> {..<n}"
  shows "strict_mono (\<lambda>j. if j < length I then I ! j else n + (j - length I) :: nat)"
proof (rule strict_monoI)
  have below: "I ! i < n" if "i < length I" for i using assms(2) nth_mem [OF that] by blast
  fix i j :: nat assume "i < j"
  then show "(if i < length I then I ! i else n + (i - length I)) < (if j < length I then I ! j else n + (j - length I))"
    using sorted_wrt_nth_less [OF assms(1), of i j] below [of i] by auto
qed

text \<open>The clock without those readings still advances, so what is shown of \<open>run_round\<close> on such a clock holds with
  heartbeats too; and the frames that are no heartbeats are the same, in the same order.\<close>

lemma subclock_advances:
  assumes "clock_advances w" and "strict_mono g"
  shows "clock_advances (w\<lparr>w_clock := \<lambda>i. w_clock w (g i), w_clock_i := 0\<rparr>)"
  using assms unfolding clock_advances_def by (simp) (metis le_trans strict_mono_imp_increasing)

lemma beaten_filter: "beaten B l l' \<Longrightarrow> filter (\<lambda>f. \<not> B f) l = filter (\<lambda>f. \<not> B f) l'"
  by (induction rule: beaten.induct) auto

text \<open>C31: heartbeats inside a round do not disturb it. Whatever schedule puts heartbeats of the node's own
  thread between the clock readings, polls and sendings of the main thread, \<open>run_round\<close> returns on a clock
  that advances. What it returns (tokens, abort or exception) is what a round without any heartbeat returns on
  the clock that shows only some of the readings, in their order; both leave the same peers, round and inbox;
  and the messages of the two differ only in heartbeats in between.\<close>

theorem heartbeats_interleave:
  assumes "clock_advances (sn_world sn)"
  shows "\<exists>r sn' g sn''. run_round_th k ru prompt_ids cfg sn = Some (r, sn') \<and>
    strict_mono g \<and> w_clock_i (sn_world sn) \<le> g 0 \<and>
    run_round ru prompt_ids cfg (sn\<lparr>sn_world := (sn_world sn)\<lparr>w_clock := \<lambda>i. w_clock (sn_world sn) (g i), w_clock_i := 0\<rparr>\<rparr>) =
      Some (r, sn'') \<and> twin sn' sn''"
proof -
  obtain r sn' I where run: "run_round_th k ru prompt_ids cfg sn = Some (r, sn')" and I: "along sn I sn'"
    and plain: "\<And>b. twin sn b \<Longrightarrow> shows_at sn I b \<Longrightarrow> \<exists>b'. run_round ru prompt_ids cfg b = Some (r, b') \<and> twin sn' b' \<and> ticks b (length I) b'"
    using tracks_run_round [OF assms] unfolding tracks_def by blast
  let ?n = "w_clock_i (sn_world sn')"
  let ?g = "\<lambda>j. if j < length I then I ! j else ?n + (j - length I)"
  let ?b = "sn\<lparr>sn_world := (sn_world sn)\<lparr>w_clock := \<lambda>i. w_clock (sn_world sn) (?g i), w_clock_i := 0\<rparr>\<rparr>"
  have "strict_mono ?g" using I by (intro strict_mono_extend) (auto simp: along_def)
  moreover have "w_clock_i (sn_world sn) \<le> ?g 0" using I nth_mem [of 0 I] by (auto simp: along_def subset_iff)
  moreover have "twin sn ?b" by (simp add: twin_def beaten.Same)
  moreover have "shows_at sn I ?b" by (simp add: shows_at_def)
  ultimately show ?thesis using run plain [of ?b] by blast
qed

theorem heartbeats_interleave_witness:
  "let w = \<lparr>w_codec = open_codec, w_clock = real, w_clock_i = 0, w_polls = (\<lambda>_ _. None), w_poll_i = 0, w_sent = []\<rparr>;
       sn = (quiet_node ''node-b'' open_codec)\<lparr>sn_round := set_new_round example_round (RoundManager ''node-b'')\<rparr>
   in \<exists>r sn' g sn''. run_round_th (\<lambda>_. 2) example_runner [2] example_gen_config sn = Some (r, sn') \<and> strict_mono g \<and>
     run_round example_runner [2] example_gen_config (sn\<lparr>sn_world := w\<lparr>w_clock := \<lambda>i. real (g i)\<rparr>\<rparr>) = Some (r, sn'') \<and>
     twin sn' sn''"
proof -
  let ?sn = "(quiet_node ''node-b'' open_codec)\<lparr>sn_round := set_new_round example_round (RoundManager ''node-b'')\<rparr>"
  have "clock_advances (sn_world ?sn)" using clock_advances_quiet by simp
  from heartbeats_interleave [OF this, of "\<lambda>_. 2" example_runner "[2]" example_gen_config]
  show ?thesis by (auto simp: quiet_node_def Let_def)
qed

end
