(* ===== verification/Whole_Round.thy ===== *)
theory Whole_Round imports Punctual begin

section \<open>A whole round, in the whole swarm\<close>

text \<open>
  From one sync to the whole of \<open>run_round\<close> of \<open>node/generation.py\<close>. \<open>round_syncs\<close> lists the calls of
  \<open>do_sync\<close> a run makes, with their arguments and the node each starts from; a finished run has
  each of them on its way (\<open>round_path\<close>). Two runs whose shared state, frozen boundary, detector and
  number of the next sync are equal (\<open>same_view\<close>) stay so through the steps in between, which never
  touch these, and through every sync that agrees (\<open>rounds_agree\<close>). With \<open>Swarm_Sync.syncs_converge\<close>
  for the syncs, \<open>Network.rounds_known_once\<close> for the participants and \<open>Own_Reports.run_round_neat\<close> for
  what each of them reports, all participants of a round return the same text
  (\<open>swarm_generates_one_text\<close>), as long as the order of a dispute's reports does not matter to its
  sums of doubles (\<open>Swarm_Sync.settled_sums\<close>), which holds in a round of two.
\<close>

subsection \<open>The syncs of a round\<close>

type_synonym sync_call = "int \<times> commit \<times> real list list \<times> (int, int) dict \<times> stop_detector \<times> swarm_node"

definition step_syncs ::
  "runner \<Rightarrow> gen_config \<Rightarrow> nat \<Rightarrow> nat \<Rightarrow> nat \<Rightarrow> nat \<Rightarrow> loop_vars \<Rightarrow> swarm_node \<Rightarrow> sync_call list" where
  "step_syncs ru cfg bs be spb i lv sn =
     (case pump_once sn 10 of
        (Inl e, sn0) \<Rightarrow> []
      | (Inr m, sn0) \<Rightarrow>
          (let (now, sn1) = read_clock sn0; (failed, rm) = check_leader_timeout (sn_round sn1) None now
           in if failed then []
           else case local_step (ru_torch ru) (ru_model ru) (ru_noise ru (lv_steps_done lv)) (lv_x lv) (lv_age lv)
                  (int spb - int i) bs be (int spb) (gc_step_cfg cfg) (map_option nat (lv_frozen lv)) of
                  Inl e \<Rightarrow> []
                | Inr r \<Rightarrow>
                    if (i + 1) mod gc_sync_every cfg = 0 \<or> i = spb - 1
                    then [(lv_seq lv, note_transfers r (lv_pending lv), sr_p r, lv_shared lv, lv_sd lv, sn1\<lparr>sn_round := rm\<rparr>)]
                    else []))"

fun loop_syncs ::
  "(nat \<Rightarrow> loop_vars \<Rightarrow> swarm_node \<Rightarrow> (loop_vars option result \<times> swarm_node) option)
   \<Rightarrow> (nat \<Rightarrow> loop_vars \<Rightarrow> swarm_node \<Rightarrow> sync_call list) \<Rightarrow> nat list \<Rightarrow> loop_vars \<Rightarrow> swarm_node \<Rightarrow> sync_call list" where
  "loop_syncs step syncs [] lv sn = []"
| "loop_syncs step syncs (i # is) lv sn = syncs i lv sn @
     (case step i lv sn of Some (Inr (Some lv'), sn') \<Rightarrow> loop_syncs step syncs is lv' sn' | _ \<Rightarrow> [])"

fun block_syncs ::
  "runner \<Rightarrow> gen_config \<Rightarrow> pyval \<Rightarrow> string set \<Rightarrow> nat \<Rightarrow> nat \<Rightarrow> nat \<Rightarrow> nat list \<Rightarrow> loop_vars \<Rightarrow> swarm_node
   \<Rightarrow> sync_call list" where
  "block_syncs ru cfg rid others gs ge spb [] lv sn = []"
| "block_syncs ru cfg rid others gs ge spb (b # bs) lv sn =
     (let block_start = gs + b * gc_block_length cfg;
          block_end = gs + (b + 1) * gc_block_length cfg;
          step = gen_step ru cfg rid others gs ge block_start block_end spb;
          lv0 = lv\<lparr>lv_age := replicate (length (lv_x lv)) 0, lv_pending := []\<rparr>
      in if (case lv_frozen lv of None \<Rightarrow> False | Some f \<Rightarrow> int block_start \<ge> f) then []
      else loop_syncs step (step_syncs ru cfg block_start block_end spb) [0..<spb] lv0 sn @
        (case steps_loop step [0..<spb] lv0 sn of
           Some (Inr (Some lv'), sn') \<Rightarrow> block_syncs ru cfg rid others gs ge spb bs lv' sn' | _ \<Rightarrow> []))"

definition round_syncs :: "runner \<Rightarrow> int list \<Rightarrow> gen_config \<Rightarrow> swarm_node \<Rightarrow> sync_call list" where
  "round_syncs ru prompt_ids cfg sn =
     (case active_round (sn_round sn) of
        None \<Rightarrow> []
      | Some rs \<Rightarrow>
          let gs = length prompt_ids; nb = gc_gen_length cfg div gc_block_length cfg
          in block_syncs ru cfg (round_id rs) (set (participants rs) - {sn_id sn}) gs (gs + gc_gen_length cfg)
               (gc_steps cfg div nb) [0..<nb] (start_vars prompt_ids cfg) sn)"

definition run_call ::
  "runner \<Rightarrow> pyval \<Rightarrow> string set \<Rightarrow> nat \<Rightarrow> nat \<Rightarrow> sync_call
   \<Rightarrow> (((int, int) dict \<times> int option \<times> stop_detector) result \<times> swarm_node) option" where
  "run_call ru rid others gs ge =
     (\<lambda>(q, c, p, x, sd, s). do_sync (ru_python ru) rid q others c p x (int gs) (int ge) sd s)"

text \<open>What a participant shares with the others between two steps.\<close>

definition view :: "loop_vars \<Rightarrow> (int, int) dict \<times> int option \<times> stop_detector \<times> int" where
  "view lv = (lv_shared lv, lv_frozen lv, lv_sd lv, lv_seq lv)"

lemma view_adopt [simp]: "view (adopt_shared bs be lv) = view lv"
  by (simp add: view_def adopt_shared_spec)

lemma dict_note_transfers: "dict_ok pending \<Longrightarrow> dict_ok (note_transfers r pending)"
  unfolding note_transfers_def by (rule fold_invariant [where Q = "\<lambda>_. True"]) simp_all

lemma gen_step_sync:
  assumes "gen_step ru cfg rid others gs ge bs be spb i lv sn = Some (Inr (Some lv'), sn')"
  shows "if (i + 1) mod gc_sync_every cfg = 0 \<or> i = spb - 1
    then \<exists>c p s x f sd. step_syncs ru cfg bs be spb i lv sn = [(lv_seq lv, c, p, lv_shared lv, lv_sd lv, s)] \<and>
      run_call ru rid others gs ge (lv_seq lv, c, p, lv_shared lv, lv_sd lv, s) = Some (Inr (x, f, sd), sn') \<and>
      view lv' = (x, f, sd, lv_seq lv + 1) \<and> (\<exists>frs. node_run sn frs s) \<and> w_sent (sn_world s) = w_sent (sn_world sn) \<and>
      w_codec (sn_world s) = w_codec (sn_world sn) \<and> lv_pending lv' = [] \<and>
      (dict_ok (lv_pending lv) \<longrightarrow> dict_ok c)
    else step_syncs ru cfg bs be spb i lv sn = [] \<and> view lv' = view lv \<and>
      w_sent (sn_world sn') = w_sent (sn_world sn) \<and> w_codec (sn_world sn') = w_codec (sn_world sn) \<and>
      (dict_ok (lv_pending lv) \<longrightarrow> dict_ok (lv_pending lv'))"
proof -
  obtain m sn1 where pump: "pump_once sn 10 = (Inr m, sn1)"
    using assms unfolding gen_step_def tbind_Inr by blast
  obtain now sn2 where clock: "read_clock sn1 = (now, sn2)" by (cases "read_clock sn1")
  obtain failed rm where chk: "check_leader_timeout (sn_round sn2) None now = (failed, rm)"
    by (cases "check_leader_timeout (sn_round sn2) None now")
  let ?sn3 = "sn2\<lparr>sn_round := rm\<rparr>"
  note run = assms [unfolded gen_step_def pump tbind_simps clock chk prod.case Let_def]
  from run have ok: "\<not> failed" by (auto split: if_splits)
  note run = run [unfolded if_not_P [OF ok] tbind_Inr]
  then obtain r where r: "local_step (ru_torch ru) (ru_model ru) (ru_noise ru (lv_steps_done lv)) (lv_x lv) (lv_age lv)
          (int spb - int i) bs be (int spb) (gc_step_cfg cfg) (map_option nat (lv_frozen lv)) = Inr r"
    by auto
  have "\<exists>frs. node_run sn frs (snd (pump_once sn 10))" using node_run.Rest run_pump by blast
  from run_checked [OF this] have path: "\<exists>frs. node_run sn frs ?sn3" by (simp add: pump clock chk)
  have quiet: "w_sent (sn_world sn2) = w_sent (sn_world sn)" "w_codec (sn_world sn2) = w_codec (sn_world sn)"
    using pump_once_fields(3,7) [of sn 10] read_clock_fields [of sn1] by (simp_all add: pump clock)
  have calls: "step_syncs ru cfg bs be spb i lv sn =
      (if (i + 1) mod gc_sync_every cfg = 0 \<or> i = spb - 1
       then [(lv_seq lv, note_transfers r (lv_pending lv), sr_p r, lv_shared lv, lv_sd lv, ?sn3)] else [])"
    by (simp add: step_syncs_def pump clock chk ok r)
  show ?thesis
    using run path quiet by (auto simp: r calls run_call_def tbind_Inr view_def adopt_shared_spec dict_note_transfers split: if_splits prod.splits)
qed

subsection \<open>Two participants in step\<close>

definition same_view :: "loop_vars \<Rightarrow> loop_vars \<Rightarrow> bool" where
  "same_view lva lvb \<longleftrightarrow> map_of (lv_shared lva) = map_of (lv_shared lvb) \<and> lv_frozen lva = lv_frozen lvb \<and>
     lv_sd lva = lv_sd lvb \<and> lv_seq lva = lv_seq lvb"

definition calls_agree ::
  "(sync_call \<Rightarrow> (((int, int) dict \<times> int option \<times> stop_detector) result \<times> swarm_node) option)
   \<Rightarrow> (sync_call \<Rightarrow> (((int, int) dict \<times> int option \<times> stop_detector) result \<times> swarm_node) option)
   \<Rightarrow> sync_call set \<Rightarrow> sync_call set \<Rightarrow> bool" where
  "calls_agree sync_a sync_b A B \<longleftrightarrow>
     (\<forall>q sd c_a p_a x_a s_a c_b p_b x_b s_b x_a' f_a sd_a sn_a x_b' f_b sd_b sn_b.
        (q, c_a, p_a, x_a, sd, s_a) \<in> A \<longrightarrow> (q, c_b, p_b, x_b, sd, s_b) \<in> B \<longrightarrow> map_of x_a = map_of x_b \<longrightarrow>
        sync_a (q, c_a, p_a, x_a, sd, s_a) = Some (Inr (x_a', f_a, sd_a), sn_a) \<longrightarrow>
        sync_b (q, c_b, p_b, x_b, sd, s_b) = Some (Inr (x_b', f_b, sd_b), sn_b) \<longrightarrow>
        map_of x_a' = map_of x_b' \<and> f_a = f_b \<and> sd_a = sd_b)"

lemma gen_steps_agree:
  assumes "gen_step ru_a cfg rid others_a gs ge bs be spb i lva sna = Some (Inr (Some lva'), sna')"
    and "gen_step ru_b cfg rid others_b gs ge bs be spb i lvb snb = Some (Inr (Some lvb'), snb')"
    and "same_view lva lvb"
    and "calls_agree (run_call ru_a rid others_a gs ge) (run_call ru_b rid others_b gs ge)
       (set (step_syncs ru_a cfg bs be spb i lva sna)) (set (step_syncs ru_b cfg bs be spb i lvb snb))"
  shows "same_view lva' lvb'"
proof (cases "(i + 1) mod gc_sync_every cfg = 0 \<or> i = spb - 1")
  case True
  obtain c_a p_a s_a x_a f_a sd_a where a: "step_syncs ru_a cfg bs be spb i lva sna = [(lv_seq lva, c_a, p_a, lv_shared lva, lv_sd lva, s_a)]"
      "run_call ru_a rid others_a gs ge (lv_seq lva, c_a, p_a, lv_shared lva, lv_sd lva, s_a) = Some (Inr (x_a, f_a, sd_a), sna')"
      "view lva' = (x_a, f_a, sd_a, lv_seq lva + 1)"
    using gen_step_sync [OF assms(1)] True by auto
  obtain c_b p_b s_b x_b f_b sd_b where b: "step_syncs ru_b cfg bs be spb i lvb snb = [(lv_seq lvb, c_b, p_b, lv_shared lvb, lv_sd lvb, s_b)]"
      "run_call ru_b rid others_b gs ge (lv_seq lvb, c_b, p_b, lv_shared lvb, lv_sd lvb, s_b) = Some (Inr (x_b, f_b, sd_b), snb')"
      "view lvb' = (x_b, f_b, sd_b, lv_seq lvb + 1)"
    using gen_step_sync [OF assms(2)] True by auto
  have same: "lv_seq lva = lv_seq lvb" "lv_sd lva = lv_sd lvb" "map_of (lv_shared lva) = map_of (lv_shared lvb)"
    using assms(3) by (simp_all add: same_view_def)
  have "map_of x_a = map_of x_b \<and> f_a = f_b \<and> sd_a = sd_b"
    using assms(4) a(2) b(2) same unfolding calls_agree_def a(1) b(1) by (metis list.set_intros(1))
  with a(3) b(3) same(1) show ?thesis by (simp add: same_view_def view_def)
next
  case False
  then show ?thesis
    using gen_step_sync [OF assms(1)] gen_step_sync [OF assms(2)] assms(3) by (simp add: same_view_def view_def)
qed

lemma calls_agree_mono:
  "calls_agree f g A B \<Longrightarrow> A' \<subseteq> A \<Longrightarrow> B' \<subseteq> B \<Longrightarrow> calls_agree f g A' B'"
  unfolding calls_agree_def by (meson subsetD)

lemma steps_loop_Cons:
  "steps_loop step (i # is) lv sn = Some (Inr (Some lv'), sn') \<longleftrightarrow>
     (\<exists>lv1 sn1. step i lv sn = Some (Inr (Some lv1), sn1) \<and> steps_loop step is lv1 sn1 = Some (Inr (Some lv'), sn'))"
  by (auto simp: tbind_Inr split: option.splits)

lemma steps_loops_agree:
  assumes "steps_loop step_a is lva sna = Some (Inr (Some lva'), sna')"
    and "steps_loop step_b is lvb snb = Some (Inr (Some lvb'), snb')"
    and "step_a = gen_step ru_a cfg rid others_a gs ge bs be spb" and "step_b = gen_step ru_b cfg rid others_b gs ge bs be spb"
    and "same_view lva lvb"
    and "calls_agree (run_call ru_a rid others_a gs ge) (run_call ru_b rid others_b gs ge)
       (set (loop_syncs step_a (step_syncs ru_a cfg bs be spb) is lva sna))
       (set (loop_syncs step_b (step_syncs ru_b cfg bs be spb) is lvb snb))"
  shows "same_view lva' lvb'"
  using assms
proof (induction "is" arbitrary: lva sna lvb snb)
  case (Cons i "is")
  obtain la sa where a: "step_a i lva sna = Some (Inr (Some la), sa)" "steps_loop step_a is la sa = Some (Inr (Some lva'), sna')"
    using Cons.prems(1) unfolding steps_loop_Cons by blast
  obtain lb sb where b: "step_b i lvb snb = Some (Inr (Some lb), sb)" "steps_loop step_b is lb sb = Some (Inr (Some lvb'), snb')"
    using Cons.prems(2) unfolding steps_loop_Cons by blast
  note agree = Cons.prems(6) [unfolded loop_syncs.simps a(1) b(1) option.case sum.case prod.case set_append]
  have "same_view la lb"
    using gen_steps_agree [OF a(1) [unfolded Cons.prems(3)] b(1) [unfolded Cons.prems(4)] Cons.prems(5)
      calls_agree_mono [OF agree Un_upper1 Un_upper1]] .
  from Cons.IH [OF a(2) b(2) Cons.prems(3,4) this calls_agree_mono [OF agree Un_upper2 Un_upper2]] show ?case .
qed simp

definition past_boundary :: "nat \<Rightarrow> loop_vars \<Rightarrow> bool" where
  "past_boundary block_start lv \<longleftrightarrow> (case lv_frozen lv of None \<Rightarrow> False | Some f \<Rightarrow> int block_start \<ge> f)"

definition fresh_block :: "loop_vars \<Rightarrow> loop_vars" where
  "fresh_block lv = lv\<lparr>lv_age := replicate (length (lv_x lv)) 0, lv_pending := []\<rparr>"

lemma same_view_fresh [simp]: "same_view (fresh_block lva) (fresh_block lvb) \<longleftrightarrow> same_view lva lvb"
  by (simp add: same_view_def fresh_block_def)

lemma blocks_loop_Cons:
  "blocks_loop ru cfg rid others gs ge spb (b # bs) lv sn = Some (Inr (Some lv'), sn') \<longleftrightarrow>
     (if past_boundary (gs + b * gc_block_length cfg) lv then lv' = lv \<and> sn' = sn
      else \<exists>lv1 sn1. steps_loop (gen_step ru cfg rid others gs ge (gs + b * gc_block_length cfg) (gs + (b + 1) * gc_block_length cfg) spb)
          [0..<spb] (fresh_block lv) sn = Some (Inr (Some lv1), sn1) \<and>
        blocks_loop ru cfg rid others gs ge spb bs lv1 sn1 = Some (Inr (Some lv'), sn'))"
  by (auto simp: past_boundary_def fresh_block_def tbind_Inr Let_def split: option.splits)

lemma block_syncs_Cons:
  assumes "\<not> past_boundary (gs + b * gc_block_length cfg) lv"
    and "steps_loop (gen_step ru cfg rid others gs ge (gs + b * gc_block_length cfg) (gs + (b + 1) * gc_block_length cfg) spb)
          [0..<spb] (fresh_block lv) sn = Some (Inr (Some lv1), sn1)"
  shows "block_syncs ru cfg rid others gs ge spb (b # bs) lv sn =
    loop_syncs (gen_step ru cfg rid others gs ge (gs + b * gc_block_length cfg) (gs + (b + 1) * gc_block_length cfg) spb)
      (step_syncs ru cfg (gs + b * gc_block_length cfg) (gs + (b + 1) * gc_block_length cfg) spb) [0..<spb] (fresh_block lv) sn @
    block_syncs ru cfg rid others gs ge spb bs lv1 sn1"
  using assms unfolding past_boundary_def fresh_block_def block_syncs.simps Let_def by simp

lemma blocks_loops_agree:
  assumes "blocks_loop ru_a cfg rid others_a gs ge spb bs lva sna = Some (Inr (Some lva'), sna')"
    and "blocks_loop ru_b cfg rid others_b gs ge spb bs lvb snb = Some (Inr (Some lvb'), snb')"
    and "same_view lva lvb"
    and "calls_agree (run_call ru_a rid others_a gs ge) (run_call ru_b rid others_b gs ge)
       (set (block_syncs ru_a cfg rid others_a gs ge spb bs lva sna)) (set (block_syncs ru_b cfg rid others_b gs ge spb bs lvb snb))"
  shows "same_view lva' lvb'"
  using assms
proof (induction bs arbitrary: lva sna lvb snb)
  case (Cons b bs)
  let ?start = "gs + b * gc_block_length cfg" and ?stop = "gs + (b + 1) * gc_block_length cfg"
  have same: "past_boundary ?start lva \<longleftrightarrow> past_boundary ?start lvb"
    using Cons.prems(3) by (simp add: same_view_def past_boundary_def)
  show ?case
  proof (cases "past_boundary ?start lva")
    case True
    then show ?thesis using Cons.prems(1-3) same unfolding blocks_loop_Cons by simp
  next
    case False
    obtain la sa where a: "steps_loop (gen_step ru_a cfg rid others_a gs ge ?start ?stop spb) [0..<spb] (fresh_block lva) sna = Some (Inr (Some la), sa)"
        "blocks_loop ru_a cfg rid others_a gs ge spb bs la sa = Some (Inr (Some lva'), sna')"
      using Cons.prems(1) False unfolding blocks_loop_Cons by auto
    obtain lb sb where b: "steps_loop (gen_step ru_b cfg rid others_b gs ge ?start ?stop spb) [0..<spb] (fresh_block lvb) snb = Some (Inr (Some lb), sb)"
        "blocks_loop ru_b cfg rid others_b gs ge spb bs lb sb = Some (Inr (Some lvb'), snb')"
      using Cons.prems(2) False same unfolding blocks_loop_Cons by auto
    note agree = Cons.prems(4) [unfolded block_syncs_Cons [OF False a(1)] block_syncs_Cons [OF False [unfolded same] b(1)] set_append]
    have "same_view la lb"
      by (rule steps_loops_agree [OF a(1) b(1) refl refl _ calls_agree_mono [OF agree Un_upper1 Un_upper1]]) (simp add: Cons.prems(3))
    from Cons.IH [OF a(2) b(2) this calls_agree_mono [OF agree Un_upper2 Un_upper2]] show ?thesis .
  qed
qed simp

text \<open>A finished round is a finished loop over its blocks.\<close>

lemma run_round_done:
  assumes "run_round ru prompt_ids cfg sn = Some (Inr (Some x), sn')"
  obtains rs lv sn1 where "active_round (sn_round sn) = Some rs"
    and "blocks_loop ru cfg (round_id rs) (set (participants rs) - {sn_id sn}) (length prompt_ids)
       (length prompt_ids + gc_gen_length cfg) (gc_steps cfg div (gc_gen_length cfg div gc_block_length cfg))
       [0..<gc_gen_length cfg div gc_block_length cfg] (start_vars prompt_ids cfg) sn = Some (Inr (Some lv), sn1)"
    and "x = lv_shared lv"
    and "sn' = sn1 \<or> (\<exists>p. sn' = snd (publish_msg sn1 GEN_DONE p))"
proof (cases "active_round (sn_round sn)")
  case (Some rs)
  note run = assms [unfolded run_round_def Some option.case Let_def]
  then have "gc_block_length cfg \<noteq> 0" "gc_gen_length cfg div gc_block_length cfg \<noteq> 0" by (auto split: if_splits)
  note run = run [unfolded if_not_P [OF this(1)] if_not_P [OF this(2)] tbind_Inr]
  then obtain r sn1 where blocks: "blocks_loop ru cfg (round_id rs) (set (participants rs) - {sn_id sn}) (length prompt_ids)
       (length prompt_ids + gc_gen_length cfg) (gc_steps cfg div (gc_gen_length cfg div gc_block_length cfg))
       [0..<gc_gen_length cfg div gc_block_length cfg] (start_vars prompt_ids cfg) sn = Some (Inr r, sn1)"
    and rest: "(case r of None \<Rightarrow> Some (Inr None, sn1) | Some lv \<Rightarrow> if is_round_leader (sn_round sn1)
       then tbind (Some (publish_msg sn1 GEN_DONE (Some [(''round_id'', round_id rs)]))) (\<lambda>_ sn. Some (Inr (Some (lv_shared lv)), sn))
       else Some (Inr (Some (lv_shared lv)), sn1)) = Some (Inr (Some x), sn')"
    by blast
  from rest obtain lv where lv: "r = Some lv" by (cases r) auto
  have "x = lv_shared lv \<and> (sn' = sn1 \<or> (\<exists>p. sn' = snd (publish_msg sn1 GEN_DONE p)))"
    using rest by (auto simp: lv tbind_Inr split: if_splits) (metis snd_conv)
  with that Some blocks lv show thesis by blast
qed (use assms in \<open>simp add: run_round_def\<close>)

lemma rounds_agree:
  assumes "run_round ru_a prompt_ids cfg sna = Some (Inr (Some xa), sna')" and "run_round ru_b prompt_ids cfg snb = Some (Inr (Some xb), snb')"
    and "active_round (sn_round sna) = Some rsa" and "active_round (sn_round snb) = Some rsb"
    and "round_id rsa = rid" and "round_id rsb = rid" and "gs = length prompt_ids" and "ge = gs + gc_gen_length cfg"
    and "calls_agree (run_call ru_a rid (set (participants rsa) - {sn_id sna}) gs ge) (run_call ru_b rid (set (participants rsb) - {sn_id snb}) gs ge)
       (set (round_syncs ru_a prompt_ids cfg sna)) (set (round_syncs ru_b prompt_ids cfg snb))"
  shows "map_of xa = map_of xb"
proof -
  let ?nb = "gc_gen_length cfg div gc_block_length cfg"
  let ?spb = "gc_steps cfg div ?nb"
  obtain lva s1 where a: "blocks_loop ru_a cfg rid (set (participants rsa) - {sn_id sna}) gs ge ?spb [0..<?nb] (start_vars prompt_ids cfg) sna =
      Some (Inr (Some lva), s1)" "xa = lv_shared lva"
    using run_round_done [OF assms(1)] assms(3,5,7,8) by (metis option.inject)
  obtain lvb s2 where b: "blocks_loop ru_b cfg rid (set (participants rsb) - {sn_id snb}) gs ge ?spb [0..<?nb] (start_vars prompt_ids cfg) snb =
      Some (Inr (Some lvb), s2)" "xb = lv_shared lvb"
    using run_round_done [OF assms(2)] assms(4,6,7,8) by (metis option.inject)
  have "same_view lva lvb"
    by (rule blocks_loops_agree [OF a(1) b(1)])
      (use assms(3-9) in \<open>simp_all add: same_view_def round_syncs_def Let_def\<close>)
  then show ?thesis by (simp add: same_view_def a(2) b(2))
qed

subsection \<open>The syncs of a finished round\<close>

text \<open>Every sync of a round that came to its end lies on the node's way from its start to its end.\<close>

definition on_path ::
  "runner \<Rightarrow> pyval \<Rightarrow> string set \<Rightarrow> nat \<Rightarrow> nat \<Rightarrow> swarm_node \<Rightarrow> swarm_node \<Rightarrow> sync_call \<Rightarrow> bool" where
  "on_path ru rid others gs ge sn sn' call \<longleftrightarrow> (case call of (q, c, p, x, sd, s) \<Rightarrow>
     dict_ok c \<and> (\<exists>frs. node_run sn frs s) \<and>
     (\<exists>res s' frs. run_call ru rid others gs ge call = Some (Inr res, s') \<and> node_run s' frs sn'))"

lemma on_path_widen:
  assumes "on_path ru rid others gs ge s1 s2 call" and "node_run s0 f s1" and "node_run s2 g s3"
  shows "on_path ru rid others gs ge s0 s3 call"
  using assms node_run_trans unfolding on_path_def by (fastforce split: prod.splits)

lemma gen_step_path:
  assumes "gen_step ru cfg rid others gs ge bs be spb i lv sn = Some (Inr (Some lv'), sn')" and "dict_ok (lv_pending lv)"
  shows "dict_ok (lv_pending lv')"
    and "call \<in> set (step_syncs ru cfg bs be spb i lv sn) \<Longrightarrow> on_path ru rid others gs ge sn sn' call"
  using gen_step_sync [OF assms(1)] assms(2) node_run.Rest [of sn']
  by (auto simp: on_path_def split: if_splits)

lemma gen_step_run:
  assumes "gen_step ru cfg rid others gs ge bs be spb i lv sn = Some (r, sn')" and "swarm_ok sn" "codec_ok (w_codec (sn_world sn))"
  shows "\<exists>frs. node_run sn frs sn'" and "swarm_ok sn'" and "codec_ok (w_codec (sn_world sn'))"
proof -
  obtain frs where run: "node_run sn frs sn'"
    using runs_gen_step [OF _ assms(2,3)] node_run.Rest assms(1) unfolding runs_from_def by metis
  then show "\<exists>frs. node_run sn frs sn'" by blast
  show "swarm_ok sn'" "codec_ok (w_codec (sn_world sn'))" using node_run_ok [OF run assms(2,3)] assms(3) by simp_all
qed

lemma steps_loop_path:
  assumes "steps_loop step is lv sn = Some (Inr (Some lv'), sn')" and "step = gen_step ru cfg rid others gs ge bs be spb"
    and "dict_ok (lv_pending lv)" and "swarm_ok sn" and "codec_ok (w_codec (sn_world sn))"
  shows "(\<exists>frs. node_run sn frs sn') \<and> swarm_ok sn' \<and> codec_ok (w_codec (sn_world sn')) \<and>
    (\<forall>call \<in> set (loop_syncs step (step_syncs ru cfg bs be spb) is lv sn). on_path ru rid others gs ge sn sn' call)"
  using assms
proof (induction "is" arbitrary: lv sn)
  case (Cons i "is")
  obtain lv1 sn1 where st: "step i lv sn = Some (Inr (Some lv1), sn1)" and rest: "steps_loop step is lv1 sn1 = Some (Inr (Some lv'), sn')"
    using Cons.prems(1) unfolding steps_loop_Cons by blast
  note one = st [unfolded Cons.prems(2)]
  note path = gen_step_path [OF one Cons.prems(3)] and run = gen_step_run [OF one Cons.prems(4,5)]
  note IH = Cons.IH [OF rest Cons.prems(2) path(1) run(2,3)]
  obtain f g where f: "node_run sn f sn1" and g: "node_run sn1 g sn'" using run(1) IH by blast
  have "node_run sn (f \<union> g) sn'" by (rule node_run_trans [OF g f])
  moreover have "\<forall>call \<in> set (loop_syncs step (step_syncs ru cfg bs be spb) (i # is) lv sn). on_path ru rid others gs ge sn sn' call"
    unfolding loop_syncs.simps st option.case sum.case prod.case set_append
    using IH on_path_widen [OF path(2) node_run.Rest g] on_path_widen [OF _ f node_run.Rest] by blast
  ultimately show ?case using IH by blast
qed (auto intro: node_run.Rest)

lemma blocks_loop_path:
  assumes "blocks_loop ru cfg rid others gs ge spb bs lv sn = Some (Inr (Some lv'), sn')"
    and "swarm_ok sn" and "codec_ok (w_codec (sn_world sn))"
  shows "(\<exists>frs. node_run sn frs sn') \<and> swarm_ok sn' \<and>
    (\<forall>call \<in> set (block_syncs ru cfg rid others gs ge spb bs lv sn). on_path ru rid others gs ge sn sn' call)"
  using assms
proof (induction bs arbitrary: lv sn)
  case (Cons b bs)
  let ?start = "gs + b * gc_block_length cfg" and ?stop = "gs + (b + 1) * gc_block_length cfg"
  show ?case
  proof (cases "past_boundary ?start lv")
    case True
    then show ?thesis
      using Cons.prems node_run.Rest [of sn] unfolding blocks_loop_Cons by (auto simp: past_boundary_def Let_def)
  next
    case False
    obtain lv1 sn1 where st: "steps_loop (gen_step ru cfg rid others gs ge ?start ?stop spb) [0..<spb] (fresh_block lv) sn = Some (Inr (Some lv1), sn1)"
      and rest: "blocks_loop ru cfg rid others gs ge spb bs lv1 sn1 = Some (Inr (Some lv'), sn')"
      using Cons.prems(1) False unfolding blocks_loop_Cons by auto
    have "dict_ok (lv_pending (fresh_block lv))" by (simp add: fresh_block_def)
    note path = steps_loop_path [OF st refl this Cons.prems(2,3)]
    then have IH: "(\<exists>frs. node_run sn1 frs sn') \<and> swarm_ok sn' \<and>
        (\<forall>call \<in> set (block_syncs ru cfg rid others gs ge spb bs lv1 sn1). on_path ru rid others gs ge sn1 sn' call)"
      using Cons.IH [OF rest] by blast
    obtain f g where f: "node_run sn f sn1" and g: "node_run sn1 g sn'" using path IH by blast
    have "node_run sn (f \<union> g) sn'" by (rule node_run_trans [OF g f])
    moreover have "\<forall>call \<in> set (block_syncs ru cfg rid others gs ge spb (b # bs) lv sn). on_path ru rid others gs ge sn sn' call"
      unfolding block_syncs_Cons [OF False st] set_append
      using path IH on_path_widen [OF _ node_run.Rest g] on_path_widen [OF _ f node_run.Rest] by blast
    ultimately show ?thesis using IH by blast
  qed
qed (auto intro: node_run.Rest)

lemma round_path:
  assumes "run_round ru prompt_ids cfg sn = Some (Inr (Some x), sn')" and "active_round (sn_round sn) = Some rs"
    and "swarm_ok sn" and "codec_ok (w_codec (sn_world sn))" and "call \<in> set (round_syncs ru prompt_ids cfg sn)"
  shows "on_path ru (round_id rs) (set (participants rs) - {sn_id sn}) (length prompt_ids)
    (length prompt_ids + gc_gen_length cfg) sn sn' call"
proof -
  obtain lv sn1 where blocks: "blocks_loop ru cfg (round_id rs) (set (participants rs) - {sn_id sn}) (length prompt_ids)
       (length prompt_ids + gc_gen_length cfg) (gc_steps cfg div (gc_gen_length cfg div gc_block_length cfg))
       [0..<gc_gen_length cfg div gc_block_length cfg] (start_vars prompt_ids cfg) sn = Some (Inr (Some lv), sn1)"
    and stop: "sn' = sn1 \<or> (\<exists>p. sn' = snd (publish_msg sn1 GEN_DONE p))"
    by (rule run_round_done [OF assms(1)]) (use assms(2) in auto)
  have "\<exists>g. node_run sn1 g sn'" using stop run_send [OF node_run.Rest msg_send(3)] node_run.Rest by blast
  moreover have "on_path ru (round_id rs) (set (participants rs) - {sn_id sn}) (length prompt_ids)
    (length prompt_ids + gc_gen_length cfg) sn sn1 call"
    using blocks_loop_path [OF blocks assms(3,4)] assms(2,5) by (simp add: round_syncs_def Let_def)
  ultimately show ?thesis using on_path_widen [OF _ node_run.Rest] by blast
qed

subsection \<open>The round in the network\<close>

lemma net_run_bodies:
  assumes "net_run N net net'" and "reachable N cd net" and "codec_ok cd"
  shows "bodies (sn_round (net n)) \<subseteq> bodies (sn_round (net' n))"
  using assms(1)
proof (induction rule: rtranclp_induct)
  case (step net1 net2)
  have r: "reachable N cd net1" by (rule reachable_run [OF step.hyps(1) assms(2)])
  have "bodies (sn_round (net1 n)) \<subseteq> bodies (sn_round (net2 n))"
    by (rule reachable_stepE [OF step.hyps(2) r assms(3)]) (auto simp: step_ok_def)
  with step.IH show ?case by blast
qed simp

definition unreported :: "codec \<Rightarrow> pyval \<Rightarrow> swarm_node \<Rightarrow> bool" where
  "unreported cd rid sn \<longleftrightarrow> (\<forall>m \<in> {COMMIT, DISPUTE_SCORE}. \<forall>q p. \<not> reports cd sn (m, rid, PInt q) p)"

text \<open>
  In the network \<open>net\<close>, node \<open>n\<close> has come through the round \<open>rid\<close> with the tokens \<open>x\<close>: somewhere on the way to \<open>net\<close> it
  ran \<open>run_round\<close>, with a runner that is \<open>fit\<close> and all its syncs as \<open>ok\<close> says, and reported for this round only what it reported there.
\<close>

definition came_through ::
  "(runner \<Rightarrow> bool) \<Rightarrow> (runner \<Rightarrow> string set \<Rightarrow> sync_call \<Rightarrow> bool) \<Rightarrow> string set \<Rightarrow> codec \<Rightarrow> swarm \<Rightarrow> string \<Rightarrow> pyval \<Rightarrow> int list \<Rightarrow> gen_config
   \<Rightarrow> (int, int) dict \<Rightarrow> bool" where
  "came_through fit ok N cd net n rid prompt_ids cfg x \<longleftrightarrow>
     (\<exists>net0 net1 ru rs. reachable N cd net0 \<and> net_run N net0 net1 \<and> net_run N net1 net \<and>
        active_round (sn_round (net0 n)) = Some rs \<and> round_id rs = rid \<and> fit ru \<and>
        unreported cd rid (net0 n) \<and> run_round ru prompt_ids cfg (net0 n) = Some (Inr (Some x), net1 n) \<and>
        (\<forall>m q p. reports cd (net n) (m, rid, PInt q) p \<longrightarrow> reports cd (net1 n) (m, rid, PInt q) p) \<and>
        (\<forall>call \<in> set (round_syncs ru prompt_ids cfg (net0 n)). ok ru (set (participants rs)) call))"

lemma came_through_mono:
  assumes "came_through fit ok N cd net n rid prompt_ids cfg x" and "\<And>ru. fit ru \<Longrightarrow> fit' ru"
    and "\<And>ru P call. ok ru P call \<Longrightarrow> ok' ru P call"
  shows "came_through fit' ok' N cd net n rid prompt_ids cfg x"
  using assms(1) unfolding came_through_def
  by (elim ex_forward conj_forward) (assumption | erule assms(2) | blast intro: assms(3))+

text \<open>Python iterates a set in some order, and its \<open>math.exp\<close> is \<open>mexp\<close>.\<close>

definition runs_on :: "(real \<Rightarrow> f64 option) \<Rightarrow> runner \<Rightarrow> bool" where
  "runs_on mexp ru \<longleftrightarrow> set_order (py_set_iter (ru_python ru)) \<and> py_exp (ru_python ru) = mexp"

text \<open>In each of its syncs it had a report from everyone. Or, in terms of time: each sync that returned was quick.\<close>

definition generated ::
  "(real \<Rightarrow> f64 option) \<Rightarrow> string set \<Rightarrow> codec \<Rightarrow> swarm \<Rightarrow> string \<Rightarrow> pyval \<Rightarrow> int list \<Rightarrow> gen_config \<Rightarrow> (int, int) dict \<Rightarrow> bool" where
  "generated mexp N cd net n rid prompt_ids cfg x \<longleftrightarrow>
     came_through (runs_on mexp) (\<lambda>ru P (q, c, p, y, sd, s). heard_from_all (ru_python ru) rid q P c p s) N cd net n rid prompt_ids cfg x"

definition generated_in_time ::
  "(real \<Rightarrow> f64 option) \<Rightarrow> string set \<Rightarrow> codec \<Rightarrow> swarm \<Rightarrow> string \<Rightarrow> pyval \<Rightarrow> int list \<Rightarrow> gen_config \<Rightarrow> (int, int) dict \<Rightarrow> bool" where
  "generated_in_time mexp N cd net n rid prompt_ids cfg x \<longleftrightarrow>
     came_through (runs_on mexp) (\<lambda>ru P (q, c, p, y, sd, s). \<forall>r s'.
         run_call ru rid (P - {n}) (length prompt_ids) (length prompt_ids + gc_gen_length cfg) (q, c, p, y, sd, s) = Some (r, s') \<longrightarrow>
         quick s s') N cd net n rid prompt_ids cfg x"

lemma punctual_heard:
  assumes "run_round ru prompt_ids cfg sn = Some (Inr (Some x), sn')" and "active_round (sn_round sn) = Some rs"
    and "swarm_ok sn" and "codec_ok (w_codec (sn_world sn))" and "(q, c, p, y, sd, s) \<in> set (round_syncs ru prompt_ids cfg sn)"
    and "\<And>r s'. run_call ru (round_id rs) (set (participants rs) - {sn_id sn}) (length prompt_ids)
      (length prompt_ids + gc_gen_length cfg) (q, c, p, y, sd, s) = Some (r, s') \<Longrightarrow> quick s s'"
  shows "heard_from_all (ru_python ru) (round_id rs) q (set (participants rs)) c p s"
proof -
  obtain frs res s' where s: "node_run sn frs s" and call: "run_call ru (round_id rs) (set (participants rs) - {sn_id sn}) (length prompt_ids)
      (length prompt_ids + gc_gen_length cfg) (q, c, p, y, sd, s) = Some (Inr res, s')"
    using round_path [OF assms(1-5)] unfolding on_path_def prod.case by blast
  have ok: "swarm_ok s" "sn_id s = sn_id sn" using node_run_ok [OF s assms(3,4)] by simp_all
  show ?thesis
    by (rule quick_sync_hears_all [OF _ ok(1) assms(6) [OF call]]) (use call in \<open>simp add: run_call_def ok(2)\<close>)
qed

lemma generated_if_in_time:
  assumes "generated_in_time mexp N cd net n rid prompt_ids cfg x" and "codec_ok cd" and "n \<in> N"
  shows "generated mexp N cd net n rid prompt_ids cfg x"
proof -
  obtain net0 net1 ru rs where r0: "reachable N cd net0" "net_run N net0 net1" "net_run N net1 net"
    and rs: "active_round (sn_round (net0 n)) = Some rs" "round_id rs = rid" "runs_on mexp ru" "unreported cd rid (net0 n)"
    and run: "run_round ru prompt_ids cfg (net0 n) = Some (Inr (Some x), net1 n)"
    and last: "\<forall>m q p. reports cd (net n) (m, rid, PInt q) p \<longrightarrow> reports cd (net1 n) (m, rid, PInt q) p"
    and quick: "\<forall>(q, c, p, y, sd, s) \<in> set (round_syncs ru prompt_ids cfg (net0 n)). \<forall>r s'.
      run_call ru rid (set (participants rs) - {n}) (length prompt_ids) (length prompt_ids + gc_gen_length cfg) (q, c, p, y, sd, s) =
        Some (r, s') \<longrightarrow> quick s s'"
    using assms(1) unfolding generated_in_time_def came_through_def by blast
  have ok: "swarm_ok (net0 n)" "codec_ok (w_codec (sn_world (net0 n)))" and id: "sn_id (net0 n) = n"
    using reachable_inv [OF r0(1) assms(2,3)] assms(2) by (simp_all add: node_inv_def Let_def)
  have "heard_from_all (ru_python ru) rid q (set (participants rs)) c p s"
    if "(q, c, p, y, sd, s) \<in> set (round_syncs ru prompt_ids cfg (net0 n))" for q c p y sd s
    by (rule punctual_heard [OF run rs(1) ok that, unfolded rs(2) id]) (use quick that in blast)
  with r0 rs run last show ?thesis
    unfolding generated_def came_through_def by (intro exI [of _ net0] exI [of _ net1] exI [of _ ru] exI [of _ rs]) auto
qed

text \<open>All syncs of a run, as syncs of participant \<open>n\<close> in the network.\<close>

definition all_synced ::
  "string set \<Rightarrow> codec \<Rightarrow> swarm \<Rightarrow> pyval \<Rightarrow> string set \<Rightarrow> nat \<Rightarrow> nat \<Rightarrow> string \<Rightarrow> runner \<Rightarrow> sync_call set \<Rightarrow> bool" where
  "all_synced N cd net rid P gs ge n ru calls \<longleftrightarrow> (\<forall>(q, c, p, y, sd, s) \<in> calls.
     \<exists>res s'. run_call ru rid (P - {n}) gs ge (q, c, p, y, sd, s) = Some (Inr res, s') \<and> dict_ok c \<and>
       synced N cd net n (ru_python ru) rid q P c p y (int gs) (int ge) sd res)"

lemma synced_call:
  assumes "all_synced N cd net rid P gs ge n ru calls" and "(q, c, p, y, sd, s) \<in> calls"
    and "run_call ru rid (P - {n}) gs ge (q, c, p, y, sd, s) = Some (Inr res, s')"
  shows "dict_ok c" and "synced N cd net n (ru_python ru) rid q P c p y (int gs) (int ge) sd res"
  using assms unfolding all_synced_def by fastforce+

lemma all_synced_agree:
  assumes "codec_ok cd" and "finite P" and "P \<subseteq> N" and "a \<in> P" and "b \<in> P" and "\<And>q. \<forall>n \<in> P. one_report cd (net n) rid q"
    and "all_synced N cd net rid P gs ge a ru_a A" and "all_synced N cd net rid P gs ge b ru_b B"
    and "runs_on mexp ru_a" and "runs_on mexp ru_b" and "\<And>q. settled_sums mexp cd net rid q P"
  shows "calls_agree (run_call ru_a rid (P - {a}) gs ge) (run_call ru_b rid (P - {b}) gs ge) A B"
  unfolding calls_agree_def
proof (intro allI impI)
  fix q sd c_a p_a x_a s_a c_b p_b x_b s_b x_a' f_a sd_a sn_a x_b' f_b sd_b sn_b
  assume in_a: "(q, c_a, p_a, x_a, sd, s_a) \<in> A" and in_b: "(q, c_b, p_b, x_b, sd, s_b) \<in> B" and same: "map_of x_a = map_of x_b"
    and run_a: "run_call ru_a rid (P - {a}) gs ge (q, c_a, p_a, x_a, sd, s_a) = Some (Inr (x_a', f_a, sd_a), sn_a)"
    and run_b: "run_call ru_b rid (P - {b}) gs ge (q, c_b, p_b, x_b, sd, s_b) = Some (Inr (x_b', f_b, sd_b), sn_b)"
  note sa = synced_call [OF assms(7) in_a run_a] and sb = synced_call [OF assms(8) in_b run_b]
  show "map_of x_a' = map_of x_b' \<and> f_a = f_b \<and> sd_a = sd_b"
    using syncs_converge [OF assms(1-6) sa(2) sb(2) _ _ sa(1) sb(1) same _ _ assms(11)] assms(9,10) by (simp add: runs_on_def)
qed

text \<open>A node that runs a round runs it with the participants everybody knows.\<close>

lemma participants_known:
  assumes "reachable N cd net0" and "net_run N net0 net" and "codec_ok cd" and "n \<in> N" and "k \<in> N"
    and "active_round (sn_round (net0 n)) = Some rs'" and "rs \<in> set (rm_heap (sn_round (net k)))" and "round_id rs' = round_id rs"
  shows "set (participants rs') = set (participants rs)"
proof -
  have "swarm_ok (net0 n)" using reachable_inv [OF assms(1,3,4)] by (simp add: node_inv_def Let_def)
  then have "rs' \<in> set (rm_heap (sn_round (net0 n)))"
    using assms(6) by (auto simp: swarm_ok_def rm_ok_def active_round_def split: option.splits)
  then have "round_body rs' \<in> bodies (sn_round (net n))"
    using net_run_bodies [OF assms(2,1,3)] unfolding bodies_def by blast
  moreover have "round_body rs \<in> bodies (sn_round (net k))" using assms(7) by (simp add: bodies_def)
  ultimately have "round_body rs' = round_body rs"
    by (rule rounds_known_once [OF reachable_run [OF assms(2,1)] assms(3,4,5)]) (simp add: round_body_def assms(8))
  then show ?thesis by (simp add: round_body_def)
qed

lemma generated_parts:
  assumes "generated mexp N cd net n (round_id rs) prompt_ids cfg x" and "codec_ok cd" and "n \<in> N"
    and "k \<in> N" and "rs \<in> set (rm_heap (sn_round (net k)))" and "P = set (participants rs)"
  obtains ru sn sn' rs' where "run_round ru prompt_ids cfg sn = Some (Inr (Some x), sn')" and "runs_on mexp ru"
    and "active_round (sn_round sn) = Some rs'" and "round_id rs' = round_id rs"
    and "set (participants rs') - {sn_id sn} = P - {n}"
    and "one_report cd (net n) (round_id rs) q"
    and "all_synced N cd net (round_id rs) P (length prompt_ids) (length prompt_ids + gc_gen_length cfg) n ru
      (set (round_syncs ru prompt_ids cfg sn))"
proof -
  obtain net0 net1 ru rs' where r0: "reachable N cd net0" and runs: "net_run N net0 net1" "net_run N net1 net"
    and act: "active_round (sn_round (net0 n)) = Some rs'" and rid: "round_id rs' = round_id rs" and fit: "runs_on mexp ru"
    and new: "unreported cd (round_id rs) (net0 n)" and run: "run_round ru prompt_ids cfg (net0 n) = Some (Inr (Some x), net1 n)"
    and last: "\<forall>m q p. reports cd (net n) (m, round_id rs, PInt q) p \<longrightarrow> reports cd (net1 n) (m, round_id rs, PInt q) p"
    and heard: "\<forall>(q, c, p, y, sd, s) \<in> set (round_syncs ru prompt_ids cfg (net0 n)).
      heard_from_all (ru_python ru) (round_id rs) q (set (participants rs')) c p s"
    using assms(1) unfolding generated_def came_through_def by blast
  have ok: "swarm_ok (net0 n)" "w_codec (sn_world (net0 n)) = cd" and id0: "sn_id (net0 n) = n"
    using reachable_inv [OF r0 assms(2,3)] by (simp_all add: node_inv_def Let_def)
  have way: "net_run N net0 net" using runs by (rule rtranclp_trans)
  have parts: "set (participants rs') = P"
    unfolding assms(6) by (rule participants_known [OF r0 way assms(2-4) act assms(5) rid])
  have "\<exists>q. neat cd (round_id rs') q (net1 n)"
    by (rule run_round_neat [OF run act assms(2) neat_start]) (use new ok(2) rid in \<open>simp_all add: unreported_def\<close>)
  then have "one_report cd (net1 n) (round_id rs) q" by (auto simp: neat_def rid)
  then have one: "one_report cd (net n) (round_id rs) q" using last unfolding one_report_def by meson
  have cok: "codec_ok (w_codec (sn_world (net0 n)))" using ok(2) assms(2) by simp
  show thesis
  proof (rule that [OF run fit act rid _ one])
    show "set (participants rs') - {sn_id (net0 n)} = P - {n}" by (simp add: parts id0)
    have "\<exists>res s'. run_call ru (round_id rs) (P - {n}) (length prompt_ids) (length prompt_ids + gc_gen_length cfg) (q, c, p, y, sd, s) =
          Some (Inr res, s') \<and> dict_ok c \<and> synced N cd net n (ru_python ru) (round_id rs) q P c p y (int (length prompt_ids))
          (int (length prompt_ids + gc_gen_length cfg)) sd res"
      if call: "(q, c, p, y, sd, s) \<in> set (round_syncs ru prompt_ids cfg (net0 n))" for q c p y sd s
    proof -
      have "heard_from_all (ru_python ru) (round_id rs) q P c p s" using heard call by (auto simp: parts)
      with round_path [OF run act ok(1) cok call, unfolded rid parts id0 on_path_def prod.case] show ?thesis
        using r0 runs unfolding synced_def run_call_def prod.case by blast
    qed
    then show "all_synced N cd net (round_id rs) P (length prompt_ids) (length prompt_ids + gc_gen_length cfg) n ru
        (set (round_syncs ru prompt_ids cfg (net0 n)))"
      unfolding all_synced_def by blast
  qed
qed

text \<open>Two participants of a round.\<close>

lemma generated_one_text:
  assumes "codec_ok cd" and "k \<in> N" and "rs \<in> set (rm_heap (sn_round (net k)))"
    and "\<forall>n \<in> set (participants rs). n \<in> N \<and> generated mexp N cd net n (round_id rs) prompt_ids cfg (x n)"
    and "\<forall>q. settled_sums mexp cd net (round_id rs) q (set (participants rs))"
    and "a \<in> set (participants rs)" and "b \<in> set (participants rs)"
  shows "map_of (x a) = map_of (x b)"
proof -
  let ?P = "set (participants rs)" and ?rid = "round_id rs" and ?gs = "length prompt_ids"
  let ?ge = "?gs + gc_gen_length cfg"
  have N: "n \<in> N" and gen: "generated mexp N cd net n ?rid prompt_ids cfg (x n)" if "n \<in> ?P" for n using assms(4) that by blast+
  note parts = generated_parts [OF gen assms(1) N assms(2,3) refl]
  have one: "\<forall>n \<in> ?P. one_report cd (net n) ?rid q" for q using parts by metis
  have sub: "?P \<subseteq> N" using N by blast
  obtain ru_a sna sna' rsa where a: "run_round ru_a prompt_ids cfg sna = Some (Inr (Some (x a)), sna')" "runs_on mexp ru_a"
      "active_round (sn_round sna) = Some rsa" "round_id rsa = ?rid" "set (participants rsa) - {sn_id sna} = ?P - {a}"
      "all_synced N cd net ?rid ?P ?gs ?ge a ru_a (set (round_syncs ru_a prompt_ids cfg sna))"
    by (rule parts [OF assms(6,6)])
  obtain ru_b snb snb' rsb where b: "run_round ru_b prompt_ids cfg snb = Some (Inr (Some (x b)), snb')" "runs_on mexp ru_b"
      "active_round (sn_round snb) = Some rsb" "round_id rsb = ?rid" "set (participants rsb) - {sn_id snb} = ?P - {b}"
      "all_synced N cd net ?rid ?P ?gs ?ge b ru_b (set (round_syncs ru_b prompt_ids cfg snb))"
    by (rule parts [OF assms(7,7)])
  show ?thesis
    by (rule rounds_agree [OF a(1) b(1) a(3) b(3) a(4) b(4) refl refl], unfold a(5) b(5))
      (rule all_synced_agree [OF assms(1) finite_set sub assms(6,7) one a(6) b(6) a(2) b(2) spec [OF assms(5)]])
qed

text \<open>C1: a round gives one text, as far as adding doubles lets it. In any network the program can reach,
  take a round some node knows whose participants have all come through \<open>run_round\<close> with the same
  prompt and configuration and the same \<open>math.exp\<close>, each at its own pace, with its own model, noise and
  order of sets, with any messages of this and other rounds in between, and have reported nothing else
  for the round. If each sync of each of them had a report from every participant, and if the scores
  reported for a dispute always add up to the same doubles in whatever order they are taken
  (\<open>settled_sums\<close>), they all return the same tokens at the same positions. The condition on the sums is
  needed: with three participants it may fail, and then the same reports can settle a dispute
  differently (\<open>summation_order_splits\<close>).\<close>

theorem swarm_generates_one_text:
  assumes "codec_ok cd" and "k \<in> N" and "rs \<in> set (rm_heap (sn_round (net k)))"
    and "\<forall>n \<in> set (participants rs). n \<in> N \<and> generated mexp N cd net n (round_id rs) prompt_ids cfg (x n)"
    and "\<forall>q. settled_sums mexp cd net (round_id rs) q (set (participants rs))"
    and "a \<in> set (participants rs)" and "b \<in> set (participants rs)"
  shows "map_of (x a) = map_of (x b)"
  by (rule generated_one_text [OF assms])

text \<open>C2: a round of two, in time, gives one text. For a round of at most two participants nothing need be
  assumed of the sums, since adding two doubles is commutative, nor of the messages heard, only what a
  clock on the wall shows: if both came through \<open>run_round\<close> with the same prompt, configuration and
  \<open>math.exp\<close> (which returns doubles), and none of the syncs of either took as long as
  \<open>SYNC_BARRIER_TIMEOUT\<close>, they return the same tokens at the same positions. So two participants can only
  split in a round in which one of them sat out a barrier; three or more can also split by rounding
  (\<open>summation_order_splits\<close>).\<close>

theorem punctual_swarm_generates_one_text:
  assumes "codec_ok cd" and "k \<in> N" and "rs \<in> set (rm_heap (sn_round (net k)))"
    and "\<forall>n \<in> set (participants rs). n \<in> N \<and> generated_in_time mexp N cd net n (round_id rs) prompt_ids cfg (x n)"
    and "card (set (participants rs)) \<le> 2" and "exp_ok mexp"
    and "a \<in> set (participants rs)" and "b \<in> set (participants rs)"
  shows "map_of (x a) = map_of (x b)"
proof -
  have gen: "\<forall>n \<in> set (participants rs). n \<in> N \<and> generated mexp N cd net n (round_id rs) prompt_ids cfg (x n)"
    using assms(4) generated_if_in_time [OF _ assms(1)] by blast
  have sums: "\<forall>q. settled_sums mexp cd net (round_id rs) q (set (participants rs))"
    using settled_pair [OF finite_set assms(5,6)] by blast
  from assms(1-3) gen sums assms(7,8) show ?thesis by (rule generated_one_text)
qed

subsection \<open>A network in which two nodes generate\<close>

text \<open>
  Node \<open>a\<close> starts a round, \<open>b\<close> reads of it, and both run it with \<open>steady_runner\<close>: one step, one sync, in
  which each hears the other's commit. \<open>a\<close>, the leader, sends \<open>GEN_DONE\<close>.
\<close>

definition team_round :: round_state where
  "team_round = \<lparr>round_id = PStr ''a:01234567'', leader_id = ''a'', participants = [''a'', ''b''],
     prompt = PStr ''hi'', gen_config = PDict [], started_at = 0, last_leader_seen = 0, status = Active\<rparr>"

definition team_env :: "string \<Rightarrow> envelope" where
  "team_env n = \<lparr>e_type = COMMIT, e_node_id = n, e_ts = 0, e_payload = commit_payload (PStr ''a:01234567'') 0 lone_commit\<rparr>"

definition team_codec :: codec where
  "team_codec = table_codec [(''S'', \<lparr>e_type = GEN_START, e_node_id = ''a'', e_ts = 0,
       e_payload = start_payload (PStr ''a:01234567'', ''a'', [''a'', ''b''], PStr ''hi'', PDict [])\<rparr>),
     (''A'', team_env ''a''), (''B'', team_env ''b''),
     (''D'', \<lparr>e_type = GEN_DONE, e_node_id = ''a'', e_ts = 0, e_payload = [(''round_id'', PStr ''a:01234567'')]\<rparr>)]"

definition team_frame :: "string \<Rightarrow> string \<times> string" where
  "team_frame n = (n, if n = ''a'' then ''A'' else ''B'')"

definition team_node :: swarm where
  "team_node n = \<lparr>sn_id = n, sn_transport = \<lparr>tr_pub = [tcp_addr ''relay'' 5555], tr_sub = [tcp_addr ''relay'' 5556],
       tr_subscribe = [''''], tr_open = True\<rparr>,
     sn_world = \<lparr>w_codec = team_codec, w_clock = (\<lambda>_. 0), w_clock_i = 0,
       w_polls = (\<lambda>i t. if n = ''b'' \<and> i = 0 then Some (''a'', ''S'')
         else if i \<le> (if n = ''b'' then 1 else 0) then None else Some (team_frame (duo_other n))),
       w_poll_i = 0, w_sent = []\<rparr>,
     sn_peers = PeerTable n PEER_TIMEOUT, sn_round = RoundManager n, sn_inbox = []\<rparr>"

text \<open>A node about to generate.\<close>

definition ready :: "string \<Rightarrow> swarm_node \<Rightarrow> bool" where
  "ready n sn \<longleftrightarrow> sn_id sn = n \<and> sn_round sn = set_new_round team_round (RoundManager n) \<and> sn_inbox sn = [] \<and>
     w_codec (sn_world sn) = team_codec \<and> w_clock (sn_world sn) = (\<lambda>_. 0) \<and>
     (\<forall>t. w_polls (sn_world sn) (w_poll_i (sn_world sn)) t = None) \<and>
     (\<forall>i t. w_poll_i (sn_world sn) < i \<longrightarrow> w_polls (sn_world sn) i t = Some (team_frame (duo_other n)))"

lemma team_codec_facts:
  "codec_ok team_codec"
  "n \<in> {''a'', ''b''} \<Longrightarrow> packb team_codec (team_env n) = Inr (snd (team_frame n))"
  "n \<in> {''a'', ''b''} \<Longrightarrow> says team_codec (team_frame n) (team_env n)"
  by (auto simp: team_codec_def table_codec_ok)
    (auto simp: table_codec_def team_env_def team_frame_def says_def decode_def)

lemma team_start:
  "let sn = snd (start_round_as_leader (team_node ''a'') [''b'', ''a''] (PStr ''hi'') (PDict []) ''0123456789abcdef'')
   in ready ''a'' sn \<and> w_sent (sn_world sn) = [(''a'', ''S'')]"
proof -
  have "snd (start_round_as_leader (team_node ''a'') [''b'', ''a''] (PStr ''hi'') (PDict []) ''0123456789abcdef'') =
   (team_node ''a'')\<lparr>sn_world := (sn_world (team_node ''a''))\<lparr>w_clock_i := 3, w_sent := [(''a'', ''S'')]\<rparr>,
     sn_round := set_new_round team_round (RoundManager ''a'')\<rparr>"
  by (simp add: team_node_def start_round_as_leader_def read_clock_def time_time_def publish_msg_def publish_def pbind_def
      encode_def team_codec_def table_codec_def start_payload_def start_round_def RoundManager_def active_round_def Let_def
      set_new_round_def team_round_def)
  then show ?thesis by (simp add: ready_def team_node_def)
qed

lemma team_receive:
  "let sn = snd (pump_once (team_node ''b'') 100) in ready ''b'' sn \<and> w_sent (sn_world sn) = []"
proof -
  have "sn_round (snd (pump_once (team_node ''b'') 100)) = set_new_round team_round (RoundManager ''b'') \<and>
    sn_inbox (snd (pump_once (team_node ''b'') 100)) = []"
    by (simp add: team_node_def pump_once_def poll_recv_def pbind_def team_codec_def table_codec_def decode_def
      dispatch_def start_payload_def read_clock_def time_time_def note_sender_def on_gen_start_def active_round_def
      RoundManager_def sorted_strs_def pay_item_def note_leader_activity_def mutate_active_def set_new_round_def rbind_def
      Let_def team_round_def)
  then show ?thesis by (simp add: ready_def) (simp add: team_node_def)
qed

lemma team_reachable: "reachable {''a'', ''b''} team_codec team_node"
proof (rule reachable.Init)
  fix n
  have "SwarmNode (sn_world (team_node n)) n [(''relay'', 5555, 5556)] = Inr (team_node n)"
    by (simp add: SwarmNode_def transport_all_relays team_node_def)
  then show "fresh_node team_codec n (team_node n)"
    unfolding fresh_node_def by (intro exI [of _ "sn_world (team_node n)"] exI) (auto simp: team_node_def)
qed

lemma team_leader:
  assumes "sn_round sn = set_new_round team_round (RoundManager n)"
  shows "check_leader_timeout (sn_round sn) None 0 = (False, sn_round sn)"
    and "is_round_leader (sn_round sn) \<longleftrightarrow> n = ''a''" and "active_round (sn_round sn) = Some team_round"
proof -
  have act: "active_round (sn_round sn) = Some team_round" and self: "rm_self_id (sn_round sn) = n"
    by (simp_all add: assms set_new_round_def active_round_def RoundManager_def)
  show "active_round (sn_round sn) = Some team_round" by (rule act)
  show "check_leader_timeout (sn_round sn) None 0 = (False, sn_round sn)"
    by (simp add: check_leader_timeout_def act ROUND_LEADER_TIMEOUT_def team_round_def)
  show "is_round_leader (sn_round sn) \<longleftrightarrow> n = ''a''"
    by (auto simp: is_round_leader_def act self team_round_def)
qed

lemma team_pump:
  assumes "n \<in> {''a'', ''b''}" and "sn_round sn = set_new_round team_round (RoundManager n)"
    and "w_codec (sn_world sn) = team_codec" and "w_clock (sn_world sn) = (\<lambda>_. 0)"
    and "w_polls (sn_world sn) (w_poll_i (sn_world sn)) 100 = Some (team_frame (duo_other n))"
  shows "\<exists>s. pump_once sn 100 = (Inr (Some (team_env (duo_other n))), s) \<and> sn_round s = sn_round sn"
proof -
  have "duo_other n \<in> {''a'', ''b''}" by (simp add: duo_other_def)
  note says = team_codec_facts(3) [OF this]
  let ?w = "(sn_world sn)\<lparr>w_poll_i := Suc (w_poll_i (sn_world sn))\<rparr>"
  have poll: "poll_recv (sn_world sn) 100 = (Inr (Some (team_env (duo_other n))), ?w)"
    using says assms(3,5) by (simp add: poll_recv_def says_def case_prod_unfold)
  have round: "note_leader_activity (sn_round sn) m 0 = sn_round sn" for m
    by (simp add: assms(2) note_leader_activity_def mutate_active_def set_new_round_def active_round_def RoundManager_def team_round_def)
  have disp: "fst (dispatch s (team_env m)) = Inr (team_env m)" for s m
    by (simp add: dispatch_def team_env_def payload_keys Let_def case_prod_unfold)
  have kept: "sn_round (snd (dispatch s (team_env m))) = sn_round s"
    if "\<And>m. note_leader_activity (sn_round s) m 0 = sn_round s" "w_clock (sn_world s) = (\<lambda>_. 0)" for s m
    using that by (simp add: dispatch_def team_env_def payload_keys Let_def read_clock_def time_time_def note_sender_def)
  have "fst (pump_once sn 100) = Inr (Some (team_env (duo_other n)))"
    using disp [of "sn\<lparr>sn_world := ?w\<rparr>" "duo_other n"]
    by (auto simp: pump_once_def poll pbind_def split: prod.splits sum.splits)
  moreover have "sn_round (snd (pump_once sn 100)) = sn_round sn"
    using disp [of "sn\<lparr>sn_world := ?w\<rparr>" "duo_other n"] kept [of "sn\<lparr>sn_world := ?w\<rparr>" "duo_other n"] round assms(4)
    by (auto simp: pump_once_def poll pbind_def split: prod.splits sum.splits)
  ultimately show ?thesis by (metis prod.collapse)
qed

text \<open>The sync of a node whose next message is the other's commit.\<close>

lemma team_sync:
  assumes n: "n \<in> {''a'', ''b''}" and id: "sn_id sn = n" and rm: "sn_round sn = set_new_round team_round (RoundManager n)"
    and cd: "w_codec (sn_world sn) = team_codec" and clock: "w_clock (sn_world sn) = (\<lambda>_. 0)" and inbox: "sn_inbox sn = []"
    and poll: "w_polls (sn_world sn) (w_poll_i (sn_world sn)) 100 = Some (team_frame (duo_other n))"
  shows "\<exists>mid sn' received. publish_msg sn COMMIT (Some (commit_payload (PStr ''a:01234567'') 0 lone_commit)) = (Inr (), mid) \<and>
    w_sent (sn_world mid) = w_sent (sn_world sn) @ [team_frame n] \<and>
    collect_until mid COMMIT (PStr ''a:01234567'') 0 {duo_other n} SYNC_BARRIER_TIMEOUT = Some (Inr received, sn') \<and>
    w_sent (sn_world sn') = w_sent (sn_world mid) \<and> sn_round sn' = sn_round sn \<and>
    (\<forall>p. \<exists>sd. do_sync plain_python (PStr ''a:01234567'') 0 {duo_other n} lone_commit p [(0, 2)] 1 3 (StopDetector example_cfg) sn =
       Some (Inr ([(0, 2), (1, 2), (2, 2)], None, sd), sn'))"
proof -
  let ?rid = "PStr ''a:01234567''" and ?o = "duo_other n"
  let ?pay = "commit_payload ?rid 0 lone_commit"
  let ?mid = "sn\<lparr>sn_world := (sn_world sn)\<lparr>w_clock_i := Suc (w_clock_i (sn_world sn)), w_sent := w_sent (sn_world sn) @ [team_frame n]\<rparr>\<rparr>"
  have "packb team_codec \<lparr>e_type = COMMIT, e_node_id = n, e_ts = 0, e_payload = ?pay\<rparr> = Inr (snd (team_frame n))"
    using team_codec_facts(2) [OF n] by (simp add: team_env_def)
  then have pub: "publish_msg sn COMMIT (Some ?pay) = (Inr (), ?mid)"
    by (simp add: publish_msg_def publish_def time_time_def encode_def id cd clock) (simp add: team_frame_def)
  let ?sn3 = "snd (read_clock (snd (read_clock ?mid)))"
  obtain sn4 where pump: "pump_once ?sn3 100 = (Inr (Some (team_env ?o)), sn4)" and rm4: "sn_round sn4 = sn_round sn"
    using team_pump [OF n, of ?sn3] rm cd clock poll by (auto simp: read_clock_def time_time_def)
  have id4: "sn_id sn4 = n" using pump_once_fields(1) [of ?sn3 100] by (simp add: pump id)
  have sent4: "w_sent (sn_world sn4) = w_sent (sn_world sn) @ [team_frame n]"
    using pump_once_fields(7) [of ?sn3 100] by (simp add: pump)
  let ?sn5 = "sn4\<lparr>sn_inbox := inbox_drop (COMMIT, ?rid, PInt 0) (sn_inbox sn4)\<rparr>"
  have ids: "e_node_id (team_env m) = m" "e_type (team_env m) = COMMIT" "e_payload (team_env m) = ?pay" for m
    by (simp_all add: team_env_def)
  have ex: "exchange COMMIT ?pay ?rid 0 {?o} sn = Some (Inr [(?o, ?pay)], ?sn5)"
    using exchange_polled [OF pub _ _ clock pump, of ?rid 0 ?o]
    by (simp add: ids payload_keys inbox inbox_bucket_def dget_default_def)
  have ne: "?o \<noteq> n" "{''a'', ''b''} - {n} = {?o}" using n by (auto simp: duo_other_def)
  have ok: "dict_ok lone_commit" by (simp add: lone_commit_def)
  let ?all = "[(n, lone_commit), (?o, lone_commit)]"
  have all: "with_others parse_commit n lone_commit [(?o, ?pay)] = Inr ?all"
    using ne(1) by (simp add: with_others_def parse_commit_own [OF ok])
  have calm: "detect_disputes ?all = []" and merged: "merge_consensus sorted_list_of_set [(0, 2)] ?all [] = [(0, 2), (1, 2), (2, 2)]"
    using ne(1) by (simp_all add: lone_commit_def detect_disputes_def merge_consensus_def proposals_by_position_def propose_def dget_default_def)
  have "fst (check (StopDetector example_cfg) [(0, 2), (1, 2), (2, 2)] 1 3) = None"
    by (auto simp: check_eq Let_def candidate_def StopDetector_def example_cfg_def)
  then obtain sd where sd: "check (StopDetector example_cfg) [(0, 2), (1, 2), (2, 2)] 1 3 = (None, sd)" by (metis prod.collapse)
  have sync: "do_sync plain_python ?rid 0 {?o} lone_commit p [(0, 2)] 1 3 (StopDetector example_cfg) sn =
      Some (Inr ([(0, 2), (1, 2), (2, 2)], None, sd), ?sn5)" for p
    by (simp add: do_sync_def ex all calm merged sd id4 Let_def)
  moreover have "collect_until ?mid COMMIT ?rid 0 {?o} SYNC_BARRIER_TIMEOUT = Some (Inr [(?o, ?pay)], ?sn5)"
    using ex by (simp add: exchange_def pub)
  ultimately show ?thesis using pub sent4 rm4 by (intro exI [of _ ?mid] exI [of _ ?sn5] exI [of _ "[(?o, ?pay)]"]) auto
qed

text \<open>The step of \<open>steady_runner\<close> in terms of its sync.\<close>

lemma steady_step:
  assumes lv: "lv_x lv = [2, 1, 1]" "lv_age lv = [0, 0, 0]" "lv_shared lv = [(0, 2)]" "lv_frozen lv = None"
      "lv_sd lv = StopDetector example_cfg" "lv_seq lv = 0" "lv_pending lv = []"
    and pump: "pump_once sn 10 = (Inr None, sn1)" and clock: "read_clock sn1 = (0, sn2)"
    and chk: "check_leader_timeout (sn_round sn2) None 0 = (False, sn_round sn2)"
    and sync: "\<And>p. \<exists>sd. do_sync plain_python rid 0 others lone_commit p [(0, 2)] 1 3 (StopDetector example_cfg) sn2 =
      Some (Inr (x, None, sd), sn')"
  shows "\<exists>lv' p. gen_step steady_runner one_step_config rid others 1 3 1 3 1 0 lv sn = Some (Inr (Some lv'), sn') \<and> lv_shared lv' = x \<and>
    step_syncs steady_runner one_step_config 1 3 1 0 lv sn = [(0, lone_commit, p, [(0, 2)], StopDetector example_cfg, sn2)]"
proof -
  obtain r where r: "local_step plain_torch (map (\<lambda>_. [1 / 10, 1 / 5, 7 / 10])) [] [2, 1, 1] [0, 0, 0] 1 1 3 1 example_step_cfg None = Inr r"
    and picks: "sr_transfer r = [False, True, True]" "sr_x0 r = [2, 2, 2]" "sr_conf_new r = [7 / 10, 7 / 10, 7 / 10]"
    using lone_step by blast
  have noted: "note_transfers r [] = lone_commit"
    by (simp add: note_transfers_def lone_commit_def picks upt_rec)
  obtain sd where sd: "do_sync plain_python rid 0 others lone_commit (sr_p r) [(0, 2)] 1 3 (StopDetector example_cfg) sn2 =
      Some (Inr (x, None, sd), sn')"
    using sync by blast
  have step: "local_step (ru_torch steady_runner) (ru_model steady_runner) (ru_noise steady_runner k) (lv_x lv)
      (lv_age lv) 1 1 3 1 (gc_step_cfg one_step_config) (map_option nat (lv_frozen lv)) = Inr r" for k
    using r by (simp add: lv steady_runner_def example_runner_def one_step_config_def)
  have cfg: "gc_sync_every one_step_config = 1" "ru_python steady_runner = plain_python"
    by (simp_all add: one_step_config_def steady_runner_def example_runner_def)
  have "step_syncs steady_runner one_step_config 1 3 1 0 lv sn =
      [(0, lone_commit, sr_p r, [(0, 2)], StopDetector example_cfg, sn2\<lparr>sn_round := sn_round sn2\<rparr>)]"
    using step by (simp add: step_syncs_def pump clock chk cfg noted lv(3,5-7))
  then show ?thesis
    using step sd by (simp add: gen_step_def pump clock chk cfg noted lv(3-7) adopt_shared_spec(1))
qed

lemma steady_round:
  assumes act: "active_round (sn_round sn) = Some rs" and others: "set (participants rs) - {sn_id sn} = others"
    and pump: "pump_once sn 10 = (Inr None, sn1)" and clock: "read_clock sn1 = (0, sn2)"
    and chk: "check_leader_timeout (sn_round sn2) None 0 = (False, sn_round sn2)"
    and sync: "\<And>p. \<exists>sd. do_sync plain_python (round_id rs) 0 others lone_commit p [(0, 2)] 1 3 (StopDetector example_cfg) sn2 =
      Some (Inr (x, None, sd), s)"
    and ended: "if is_round_leader (sn_round s) then publish_msg s GEN_DONE (Some [(''round_id'', round_id rs)]) = (Inr (), sn') else sn' = s"
  shows "\<exists>p. run_round steady_runner [2] one_step_config sn = Some (Inr (Some x), sn') \<and>
    round_syncs steady_runner [2] one_step_config sn = [(0, lone_commit, p, [(0, 2)], StopDetector example_cfg, sn2)]"
proof -
  let ?lv = "start_vars [2] one_step_config"
  let ?lv0 = "?lv\<lparr>lv_age := replicate (length (lv_x ?lv)) 0, lv_pending := []\<rparr>"
  have lv: "lv_x ?lv = [2, 1, 1]" "lv_shared ?lv = [(0, 2)]" "lv_frozen ?lv = None" "lv_seq ?lv = 0"
    "lv_sd ?lv = StopDetector example_cfg"
    by (simp_all add: start_vars_def one_step_config_def example_step_cfg_def numeral_eq_Suc)
  have free: "lv_frozen (start_vars ids c) = None" for ids c by (simp add: start_vars_def)
  have "length (lv_x ?lv) = 3" by (simp only: lv list.size)
  then have lv0: "lv_age ?lv0 = [0, 0, 0]" "lv_pending ?lv0 = []" by (simp_all add: numeral_eq_Suc)
  have cfg: "gc_gen_length one_step_config = 2" "gc_block_length one_step_config = 2" "gc_steps one_step_config = 1"
    by (simp_all add: one_step_config_def)
  obtain lv' p where step: "gen_step steady_runner one_step_config (round_id rs) others 1 3 1 3 1 0 ?lv0 sn = Some (Inr (Some lv'), s)"
      "lv_shared lv' = x"
    and calls: "step_syncs steady_runner one_step_config 1 3 1 0 ?lv0 sn = [(0, lone_commit, p, [(0, 2)], StopDetector example_cfg, sn2)]"
    using steady_step [OF _ lv0(1) _ _ _ _ lv0(2) pump clock chk sync] lv by auto
  have "round_syncs steady_runner [2] one_step_config sn = [(0, lone_commit, p, [(0, 2)], StopDetector example_cfg, sn2)]"
    using step(1) calls free by (simp add: round_syncs_def act others cfg Let_def numeral_eq_Suc)
  moreover have "run_round steady_runner [2] one_step_config sn = Some (Inr (Some x), sn')"
    using step ended free by (simp add: run_round_def act others cfg Let_def numeral_eq_Suc)
  ultimately show ?thesis by blast
qed

text \<open>The end of the round: the leader, \<open>a\<close>, sends \<open>GEN_DONE\<close>.\<close>

lemma team_finish:
  assumes "node_run mid frs s" and "sn_id s = n" and "sn_round s = set_new_round team_round (RoundManager n)"
    and "w_codec (sn_world s) = team_codec" and "w_clock (sn_world s) = (\<lambda>_. 0)"
  shows "\<exists>sn'. node_run mid frs sn' \<and>
    (if is_round_leader (sn_round s) then publish_msg s GEN_DONE (Some [(''round_id'', round_id team_round)]) = (Inr (), sn') else sn' = s)"
proof (cases "n = ''a''")
  case True
  then have "fst (publish_msg s GEN_DONE (Some [(''round_id'', round_id team_round)])) = Inr ()"
    using assms(2,4,5) by (simp add: publish_msg_def publish_def time_time_def encode_def team_codec_def table_codec_def team_env_def
      team_round_def)
  then obtain t where t: "publish_msg s GEN_DONE (Some [(''round_id'', round_id team_round)]) = (Inr (), t)" by (metis prod.collapse)
  with run_send [OF assms(1), of GEN_DONE] have "node_run mid frs t" by (metis msg_send(3) snd_conv)
  with t show ?thesis using team_leader(2) [OF assms(3)] True by auto
next
  case False
  then show ?thesis using assms(1) team_leader(2) [OF assms(3)] by auto
qed

text \<open>The poll of the first step finds nothing, and the node comes to its sync.\<close>

lemma team_idle:
  assumes "ready n sn"
  obtains s1 s where "pump_once sn 10 = (Inr None, s1)" and "read_clock s1 = (0, s)" and "node_run sn {} s"
    and "sn_id s = n" and "sn_round s = sn_round sn" and "sn_inbox s = []"
    and "w_codec (sn_world s) = team_codec" and "w_clock (sn_world s) = (\<lambda>_. 0)"
    and "\<And>i t. w_poll_i (sn_world s) \<le> i \<Longrightarrow> w_polls (sn_world s) i t = Some (team_frame (duo_other n))"
proof -
  let ?w = "sn_world sn"
  have idle: "w_polls ?w (w_poll_i ?w) t = None" for t using assms by (simp add: ready_def)
  let ?s1 = "sn\<lparr>sn_world := ?w\<lparr>w_poll_i := Suc (w_poll_i ?w)\<rparr>\<rparr>"
  have pump: "pump_once sn 10 = (Inr None, ?s1)" by (simp add: pump_once_def poll_recv_def idle)
  have "offers sn = {}" by (simp add: offers_def idle)
  then have "node_run sn {} ?s1" using node_run_step [OF node_step.Receive, of sn 10] by (simp add: pump)
  then have "node_run sn {} (snd (read_clock ?s1))" by (rule run_clock)
  with pump show ?thesis
    using assms by (intro that [of ?s1 "snd (read_clock ?s1)"]) (simp_all add: read_clock_def time_time_def ready_def)
qed

text \<open>The one sync of \<open>n\<close>.\<close>

definition team_call :: "string \<Rightarrow> sync_call \<Rightarrow> bool" where
  "team_call n call \<longleftrightarrow> (\<exists>p s sd s'. call = (0, lone_commit, p, [(0, 2)], StopDetector example_cfg, s) \<and>
     w_clock (sn_world s) = (\<lambda>_. 0) \<and>
     do_sync plain_python (PStr ''a:01234567'') 0 {duo_other n} lone_commit p [(0, 2)] 1 3 (StopDetector example_cfg) s =
       Some (Inr ([(0, 2), (1, 2), (2, 2)], None, sd), s'))"

lemma team_run:
  assumes n: "n \<in> {''a'', ''b''}" and ready: "ready n sn" and ok: "swarm_ok sn"
  shows "\<exists>mid sn' frs. run_round steady_runner [2] one_step_config sn = Some (Inr (Some [(0, 2), (1, 2), (2, 2)]), sn') \<and>
    (\<forall>call \<in> set (round_syncs steady_runner [2] one_step_config sn). team_call n call) \<and>
    node_run sn {} mid \<and> team_frame n \<in> set (w_sent (sn_world mid)) \<and>
    node_run mid frs sn' \<and> frs \<subseteq> {team_frame (duo_other n)}"
proof -
  let ?rid = "PStr ''a:01234567''"
  have id: "sn_id sn = n" and rm: "sn_round sn = set_new_round team_round (RoundManager n)" and cd: "w_codec (sn_world sn) = team_codec"
    using ready by (simp_all add: ready_def)
  obtain s1 s where pump: "pump_once sn 10 = (Inr None, s1)" and clk: "read_clock s1 = (0, s)" and s: "node_run sn {} s"
    "sn_id s = n" "sn_round s = sn_round sn" "sn_inbox s = []" "w_codec (sn_world s) = team_codec" "w_clock (sn_world s) = (\<lambda>_. 0)"
    and other: "\<And>i t. w_poll_i (sn_world s) \<le> i \<Longrightarrow> w_polls (sn_world s) i t = Some (team_frame (duo_other n))"
    using team_idle [OF ready] by blast
  obtain mid s' received where pub: "publish_msg s COMMIT (Some (commit_payload ?rid 0 lone_commit)) = (Inr (), mid)"
    and sent: "w_sent (sn_world mid) = w_sent (sn_world s) @ [team_frame n]"
    and coll: "collect_until mid COMMIT ?rid 0 {duo_other n} SYNC_BARRIER_TIMEOUT = Some (Inr received, s')"
    and rm': "sn_round s' = sn_round s"
    and sync: "\<And>p. \<exists>sd. do_sync plain_python ?rid 0 {duo_other n} lone_commit p [(0, 2)] 1 3 (StopDetector example_cfg) s =
       Some (Inr ([(0, 2), (1, 2), (2, 2)], None, sd), s')"
    using team_sync [OF n s(2) _ s(5,6,4) other [OF order_refl]] s(3) rm by auto
  have "node_run sn {} (snd (publish_msg s COMMIT (Some (commit_payload ?rid 0 lone_commit))))"
    by (rule run_send [OF s(1)]) simp
  then have mid: "node_run sn {} mid" unfolding pub snd_conv .
  have cok: "codec_ok (w_codec (sn_world sn))" using team_codec_facts(1) by (simp add: cd)
  note mid_ok = node_run_ok [OF mid ok cok]
  then have "inbox_ok (sn_inbox mid)" by (simp add: swarm_ok_def)
  then obtain frs where "gathered mid (COMMIT, ?rid, PInt 0) frs s' received" using collect_gathers [OF coll] by fastforce
  then have run': "node_run mid frs s'" by (simp add: gathered_def)
  note kept = publish_msg_fields [of s COMMIT "Some (commit_payload ?rid 0 lone_commit)", unfolded pub snd_conv]
  have "frs \<subseteq> {team_frame (duo_other n)}"
    using node_run_ok [OF run'] mid_ok cok other by (auto simp: polled_def kept)
  moreover have "sn_id s' = n" "w_codec (sn_world s') = team_codec" "w_clock (sn_world s') = (\<lambda>_. 0)"
    using collect_until_id [OF coll] collect_until_sent [OF coll] collect_until_clock [OF coll] by (simp_all add: kept s)
  from team_finish [OF run' this(1) _ this(2,3)] rm rm' s(3) obtain sn' where sn': "node_run mid frs sn'"
    "if is_round_leader (sn_round s') then publish_msg s' GEN_DONE (Some [(''round_id'', round_id team_round)]) = (Inr (), sn') else sn' = s'"
    by auto
  have parts: "set (participants team_round) - {sn_id sn} = {duo_other n}" "round_id team_round = ?rid"
    using n by (auto simp: team_round_def id duo_other_def)
  obtain p where "run_round steady_runner [2] one_step_config sn = Some (Inr (Some [(0, 2), (1, 2), (2, 2)]), sn') \<and>
      round_syncs steady_runner [2] one_step_config sn = [(0, lone_commit, p, [(0, 2)], StopDetector example_cfg, s)]"
    by (rule exE, rule steady_round [OF team_leader(3) [OF rm] parts(1) pump clk _ _ sn'(2)])
      (use team_leader(1) [of s n] rm s(3) sync in \<open>simp_all add: parts(2)\<close>)
  then have "run_round steady_runner [2] one_step_config sn = Some (Inr (Some [(0, 2), (1, 2), (2, 2)]), sn') \<and>
      (\<forall>call \<in> set (round_syncs steady_runner [2] one_step_config sn). team_call n call)"
    using s(6) sync [of p] by (auto simp: team_call_def)
  moreover have "team_frame n \<in> set (w_sent (sn_world mid))" by (simp add: sent)
  ultimately show ?thesis using mid sn'(1) by blast
qed

lemma team_unreported:
  assumes "set (w_sent (sn_world sn)) \<subseteq> {(''a'', ''S'')}"
  shows "unreported team_codec (PStr ''a:01234567'') sn"
proof -
  have "e_type env = GEN_START" if "says team_codec (''a'', ''S'') env" for env
    using that by (auto simp: says_def decode_def team_codec_def table_codec_def)
  then show ?thesis using assms by (fastforce simp: unreported_def reports_def payload_key_def)
qed

text \<open>A node's finished round, seen from a later network in which the node has not moved on.\<close>

definition team_came :: "swarm \<Rightarrow> string \<Rightarrow> (int, int) dict \<Rightarrow> bool" where
  "team_came net n x \<longleftrightarrow>
     came_through (\<lambda>ru. ru = steady_runner) (\<lambda>ru P call. ru = steady_runner \<and> P = {''a'', ''b''} \<and> team_call n call)
       {''a'', ''b''} team_codec net n (PStr ''a:01234567'') [2] one_step_config x"

lemma team_came:
  assumes "reachable {''a'', ''b''} team_codec net0" and "net_run {''a'', ''b''} net0 net1" and "net_run {''a'', ''b''} net1 net"
    and "ready n (net0 n)" and "n \<in> {''a'', ''b''}" and "set (w_sent (sn_world (net0 n))) \<subseteq> {(''a'', ''S'')}" and "net n = net1 n"
    and "run_round steady_runner [2] one_step_config (net0 n) = Some (Inr (Some x), net1 n)"
    and "\<forall>call \<in> set (round_syncs steady_runner [2] one_step_config (net0 n)). team_call n call"
  shows "team_came net n x"
proof -
  have "sn_round (net0 n) = set_new_round team_round (RoundManager n)" using assms(4) by (simp add: ready_def)
  note act = team_leader(3) [OF this]
  have parts: "round_id team_round = PStr ''a:01234567''" "set (participants team_round) = {''a'', ''b''}"
    by (simp_all add: team_round_def)
  show ?thesis
    unfolding team_came_def came_through_def
    by (intro exI [of _ net0] exI [of _ net1] exI [of _ steady_runner] exI [of _ team_round] conjI)
      (use assms act team_unreported [OF assms(6)] in \<open>simp_all add: parts\<close>)
qed

lemma steady_python: "runs_on double_exp steady_runner"
  by (simp add: runs_on_def steady_runner_def example_runner_def set_order_sorted plain_python_exp)

lemma team_in_time:
  assumes "team_came net n x"
  shows "generated_in_time double_exp {''a'', ''b''} team_codec net n (PStr ''a:01234567'') [2] one_step_config x"
  unfolding generated_in_time_def
  by (rule came_through_mono [OF assms [unfolded team_came_def]])
    (use steady_python in \<open>auto simp: team_call_def quick_def SYNC_BARRIER_TIMEOUT_def\<close>)

lemma team_started:
  "\<exists>net. reachable {''a'', ''b''} team_codec net \<and>
     (\<forall>n \<in> {''a'', ''b''}. ready n (net n) \<and> swarm_ok (net n) \<and> set (w_sent (sn_world (net n))) \<subseteq> {(''a'', ''S'')})"
proof -
  let ?N = "{''a'', ''b''}" and ?cd = team_codec
  let ?a0 = "snd (start_round_as_leader (team_node ''a'') [''b'', ''a''] (PStr ''hi'') (PDict []) ''0123456789abcdef'')"
    and ?b0 = "snd (pump_once (team_node ''b'') 100)"
  let ?n1 = "team_node(''a'' := ?a0)"
  let ?n2 = "?n1(''b'' := ?b0)"
  have a0: "ready ''a'' ?a0" "w_sent (sn_world ?a0) = [(''a'', ''S'')]" using team_start by (simp_all add: Let_def)
  have b0: "ready ''b'' ?b0" "w_sent (sn_world ?b0) = []" using team_receive by (simp_all add: Let_def)
  have "net_step ?N team_node ?n1"
    by (rule net_step.Node [OF _ node_step.Start]) (simp_all add: team_node_def RoundManager_def)
  with team_reachable have r1: "reachable ?N ?cd ?n1" by (rule reachable.Step)
  have "offers (team_node ''b'') = {(''a'', ''S'')}" by (simp add: offers_def team_node_def)
  then have "net_step ?N ?n1 ?n2"
    using node_step.Receive [of "team_node ''b''" 100] by (intro net_step.Node) (auto simp: air_def a0(2))
  with r1 have r2: "reachable ?N ?cd ?n2" by (rule reachable.Step)
  have "swarm_ok (?n2 n)" if "n \<in> ?N" for n
    using reachable_inv [OF r2 team_codec_facts(1) that] by (simp add: node_inv_def Let_def)
  with r2 a0 b0 show ?thesis by (intro exI [of _ ?n2]) auto
qed

lemma team_generates:
  "\<exists>net x rs. reachable {''a'', ''b''} team_codec net \<and> rs \<in> set (rm_heap (sn_round (net ''a''))) \<and>
     round_id rs = PStr ''a:01234567'' \<and> set (participants rs) = {''a'', ''b''} \<and>
     (\<forall>n \<in> {''a'', ''b''}. team_came net n (x n))"
proof -
  let ?N = "{''a'', ''b''}" and ?cd = team_codec and ?x = "\<lambda>n::string. [(0, 2), (1, 2), (2, 2)] :: (int, int) dict"
  obtain net where r0: "reachable ?N ?cd net"
    and start: "\<And>n. n \<in> ?N \<Longrightarrow> ready n (net n) \<and> swarm_ok (net n) \<and> set (w_sent (sn_world (net n))) \<subseteq> {(''a'', ''S'')}"
    using team_started by blast
  have other: "duo_other ''a'' = ''b''" "duo_other ''b'' = ''a''" by (simp_all add: duo_other_def)
  obtain mid_a a' fa where a: "run_round steady_runner [2] one_step_config (net ''a'') = Some (Inr (Some (?x ''a'')), a')"
      "\<forall>call \<in> set (round_syncs steady_runner [2] one_step_config (net ''a'')). team_call ''a'' call"
      "node_run (net ''a'') {} mid_a" "team_frame ''a'' \<in> set (w_sent (sn_world mid_a))" "node_run mid_a fa a'" "fa \<subseteq> {team_frame ''b''}"
    using team_run [of "''a''" "net ''a''"] start [of "''a''"] unfolding other by blast
  obtain mid_b b' fb where b: "run_round steady_runner [2] one_step_config (net ''b'') = Some (Inr (Some (?x ''b'')), b')"
      "\<forall>call \<in> set (round_syncs steady_runner [2] one_step_config (net ''b'')). team_call ''b'' call"
      "node_run (net ''b'') {} mid_b" "team_frame ''b'' \<in> set (w_sent (sn_world mid_b))" "node_run mid_b fb b'" "fb \<subseteq> {team_frame ''a''}"
    using team_run [of "''b''" "net ''b''"] start [of "''b''"] unfolding other by blast
  let ?n1 = "net(''a'' := mid_a)"
  let ?n2 = "?n1(''b'' := mid_b)"
  let ?n3 = "?n2(''b'' := b')"
  let ?n4 = "?n3(''a'' := a')"
  note ok = team_codec_facts(1)
  have r01: "net_run ?N net ?n1" by (rule net_run_node [OF a(3) _ _ _ r0 ok]) simp_all
  note r1 = reachable_run [OF r01 r0]
  have r12: "net_run ?N ?n1 ?n2" by (rule net_run_node [OF b(3) _ _ _ r1 ok]) simp_all
  note r2 = reachable_run [OF r12 r1]
  have air: "fb \<subseteq> air ?N ?n2" "fa \<subseteq> air ?N ?n2" using a(4,6) b(4,6) by (auto simp: air_def)
  then have r23: "net_run ?N ?n2 ?n3" by (intro net_run_node [OF b(5) _ _ _ r2 ok]) simp_all
  note r3 = reachable_run [OF r23 r2]
  have "fa \<subseteq> air ?N ?n3" using air(2) net_run_air [OF r23 r2 ok] by blast
  then have r34: "net_run ?N ?n3 ?n4" by (intro net_run_node [OF a(5) _ _ _ r3 ok]) simp_all
  have r04: "net_run ?N net ?n4" and r03: "net_run ?N net ?n3" using r01 r12 r23 r34 by (meson rtranclp_trans)+
  have "team_came ?n4 ''a'' (?x ''a'')"
    by (rule team_came [OF r0 r04 rtranclp.rtrancl_refl _ _ _ refl _ a(2)]) (use start [of "''a''"] a(1) in simp_all)
  moreover have "team_came ?n4 ''b'' (?x ''b'')"
    by (rule team_came [OF r0 r03 r34 _ _ _ _ _ b(2)]) (use start [of "''b''"] b(1) in simp_all)
  ultimately have gen: "\<forall>n \<in> ?N. team_came ?n4 n (?x n)" by blast
  have "team_round \<in> set (rm_heap (sn_round (net ''a'')))" using start [of "''a''"] by (simp add: ready_def set_new_round_def)
  then have "round_body team_round \<in> bodies (sn_round (?n4 ''a''))"
    using net_run_bodies [OF r04 r0 ok] unfolding bodies_def by blast
  then obtain rs where "round_body team_round = round_body rs" and rs: "rs \<in> set (rm_heap (sn_round (?n4 ''a'')))"
    unfolding bodies_def by (rule imageE)
  then have "PStr ''a:01234567'' = round_id rs" "[''a'', ''b''] = participants rs"
    by (auto simp: round_body_def team_round_def)
  then have "round_id rs = PStr ''a:01234567''" "set (participants rs) = ?N" by (metis, metis list.simps(15) list.set(1))
  with gen reachable_run [OF r04 r0] rs show ?thesis by (intro exI [of _ ?n4] exI [of _ ?x] exI [of _ rs] conjI)
qed

theorem swarm_generates_one_text_witness:
  "\<exists>net x. reachable {''a'', ''b''} team_codec net \<and>
     (\<forall>n \<in> {''a'', ''b''}. generated double_exp {''a'', ''b''} team_codec net n (PStr ''a:01234567'') [2] one_step_config (x n)) \<and>
     map_of (x ''a'') = map_of (x ''b'')"
proof -
  obtain net x rs where net: "reachable {''a'', ''b''} team_codec net" and rs: "rs \<in> set (rm_heap (sn_round (net ''a'')))"
    and round: "round_id rs = PStr ''a:01234567''" "set (participants rs) = {''a'', ''b''}"
    and gen: "\<forall>n \<in> {''a'', ''b''}. generated double_exp {''a'', ''b''} team_codec net n (PStr ''a:01234567'') [2] one_step_config (x n)"
    using team_generates generated_if_in_time [OF team_in_time team_codec_facts(1)] by (elim exE conjE) blast
  have "map_of (x ''a'') = map_of (x ''b'')"
    by (rule swarm_generates_one_text [where k = "''a''" and net = net and x = x and N = "{''a'', ''b''}" and prompt_ids = "[2]"
        and cfg = one_step_config and mexp = double_exp, OF team_codec_facts(1) _ rs])
      (use gen settled_pair [OF _ _ plain_python_exp_ok, unfolded plain_python_exp, of "{''a'', ''b''}"] in \<open>simp_all add: round card_insert_if\<close>)
  with net gen show ?thesis by (intro exI [of _ net] exI [of _ x] conjI)
qed

theorem punctual_swarm_generates_one_text_witness:
  "\<exists>net x. reachable {''a'', ''b''} team_codec net \<and>
     (\<forall>n \<in> {''a'', ''b''}. generated_in_time double_exp {''a'', ''b''} team_codec net n (PStr ''a:01234567'') [2] one_step_config (x n)) \<and>
     map_of (x ''a'') = map_of (x ''b'')"
proof -
  obtain net x rs where net: "reachable {''a'', ''b''} team_codec net" and rs: "rs \<in> set (rm_heap (sn_round (net ''a'')))"
    and round: "round_id rs = PStr ''a:01234567''" "set (participants rs) = {''a'', ''b''}"
    and gen: "\<forall>n \<in> {''a'', ''b''}. generated_in_time double_exp {''a'', ''b''} team_codec net n (PStr ''a:01234567'') [2] one_step_config (x n)"
    using team_generates team_in_time by (elim exE conjE) blast
  have "map_of (x ''a'') = map_of (x ''b'')"
    by (rule punctual_swarm_generates_one_text [where k = "''a''" and net = net and x = x and N = "{''a'', ''b''}" and prompt_ids = "[2]"
        and cfg = one_step_config and mexp = double_exp, OF team_codec_facts(1) _ rs])
      (use gen plain_python_exp_ok in \<open>simp_all add: round card_insert_if plain_python_exp\<close>)
  with net gen show ?thesis by (intro exI [of _ net] exI [of _ x] conjI)
qed

end
