(* ===== verification/Whole_Text.thy ===== *)
theory Whole_Text imports Whole_Round begin

section \<open>What a round's text is made of\<close>

text \<open>
  \<open>Whole_Round\<close> shows that participants agree; here is what they agree on. While no stop boundary is found, a
  step commits masked positions of its block only (\<open>Local_Step.step_commits\<close>), so what a node reports in a
  round lies in the blocks of the round (\<open>run_round_within\<close>). A sync changes the shared state only
  where somebody it heard proposed something (\<open>sync_keeps_outside\<close>), whoever was heard and whoever
  was not. So the prompt is still there at the end, and around it nothing but the blocks
  (\<open>swarm_completes_prompt\<close>). With a boundary inside a block this is not so
  (\<open>Local_Step.frozen_block_overflows\<close>).
\<close>

subsection \<open>Invariants of the loops\<close>

text \<open>A rule for the loops of a round: \<open>I b\<close> holds between the steps of block \<open>b\<close>, \<open>J\<close> between blocks. What is
  assumed of the syncs of the whole round (those in \<open>A\<close>) may be used in each step.\<close>

lemma steps_loop_induct:
  assumes "steps_loop step is lv sn = Some (Inr (Some lv'), sn')" and "set (loop_syncs step syncs is lv sn) \<subseteq> A" and "I lv sn"
    and "\<And>i lv sn lv' sn'. i \<in> set is \<Longrightarrow> step i lv sn = Some (Inr (Some lv'), sn') \<Longrightarrow> set (syncs i lv sn) \<subseteq> A \<Longrightarrow>
      I lv sn \<Longrightarrow> I lv' sn'"
  shows "I lv' sn'"
  using assms
proof (induction "is" arbitrary: lv sn)
  case (Cons i "is")
  obtain lv1 sn1 where st: "step i lv sn = Some (Inr (Some lv1), sn1)" and rest: "steps_loop step is lv1 sn1 = Some (Inr (Some lv'), sn')"
    using Cons.prems(1) unfolding steps_loop_Cons by blast
  have sub: "set (syncs i lv sn) \<subseteq> A" "set (loop_syncs step syncs is lv1 sn1) \<subseteq> A"
    using Cons.prems(2) by (simp_all add: st)
  show ?case
    by (rule Cons.IH [OF rest sub(2) Cons.prems(4) [OF _ st sub(1) Cons.prems(3)]]) (simp, rule Cons.prems(4), simp_all)
qed simp

lemma blocks_loop_induct:
  assumes "blocks_loop ru cfg rid others gs ge spb bs lv sn = Some (Inr (Some lv'), sn')"
    and "set (block_syncs ru cfg rid others gs ge spb bs lv sn) \<subseteq> A" and "J lv sn"
    and "\<And>b i lv sn lv' sn'. b \<in> set bs \<Longrightarrow> i < spb \<Longrightarrow>
      gen_step ru cfg rid others gs ge (gs + b * gc_block_length cfg) (gs + (b + 1) * gc_block_length cfg) spb i lv sn =
        Some (Inr (Some lv'), sn') \<Longrightarrow>
      set (step_syncs ru cfg (gs + b * gc_block_length cfg) (gs + (b + 1) * gc_block_length cfg) spb i lv sn) \<subseteq> A \<Longrightarrow>
      I b lv sn \<Longrightarrow> I b lv' sn'"
    and "\<And>b lv sn. b \<in> set bs \<Longrightarrow> J lv sn \<Longrightarrow> I b (fresh_block lv) sn" and "\<And>b lv sn. I b lv sn \<Longrightarrow> J lv sn"
  shows "J lv' sn'"
  using assms
proof (induction bs arbitrary: lv sn)
  case (Cons b bs)
  show ?case
  proof (cases "past_boundary (gs + b * gc_block_length cfg) lv")
    case True
    then show ?thesis using Cons.prems(1,3) unfolding blocks_loop_Cons by simp
  next
    case False
    obtain lv1 sn1 where st: "steps_loop (gen_step ru cfg rid others gs ge (gs + b * gc_block_length cfg) (gs + (b + 1) * gc_block_length cfg) spb)
          [0..<spb] (fresh_block lv) sn = Some (Inr (Some lv1), sn1)"
      and rest: "blocks_loop ru cfg rid others gs ge spb bs lv1 sn1 = Some (Inr (Some lv'), sn')"
      using Cons.prems(1) False unfolding blocks_loop_Cons by auto
    note sub = Cons.prems(2) [unfolded block_syncs_Cons [OF False st] set_append Un_subset_iff]
    have "I b lv1 sn1"
      by (rule steps_loop_induct [where I = "I b", OF st conjunct1 [OF sub]]) (use Cons.prems(3-5) in auto)
    then have "J lv1 sn1" by (rule Cons.prems(6))
    from Cons.IH [OF rest conjunct2 [OF sub] this] Cons.prems(4-6) show ?thesis by simp
  qed
qed simp

subsection \<open>What a node reports\<close>

text \<open>In the positions \<open>R\<close> of round \<open>rid\<close>, and nowhere else, the node has proposed tokens to the others.\<close>

definition proposes_within :: "codec \<Rightarrow> pyval \<Rightarrow> int set \<Rightarrow> swarm_node \<Rightarrow> bool" where
  "proposes_within cd rid R sn \<longleftrightarrow> (\<forall>q p. reports cd sn (COMMIT, rid, PInt q) p \<longrightarrow>
     (\<exists>c. dict_ok c \<and> fst ` set c \<subseteq> R \<and> p = commit_payload rid q c))"

lemma commit_within:
  assumes "proposes_within cd rid R sn" and "reports cd sn (COMMIT, rid, PInt q) p" and "parse_commit p = Inr v"
  shows "fst ` set v \<subseteq> R"
proof -
  obtain c where "dict_ok c" "fst ` set c \<subseteq> R" "p = commit_payload rid q c"
    using assms(1,2) unfolding proposes_within_def by blast
  with assms(3) parse_commit_own [of c rid q] show ?thesis by simp
qed

lemma within_sent:
  assumes "w_sent (sn_world s) = w_sent (sn_world sn)"
  shows "proposes_within cd rid R s \<longleftrightarrow> proposes_within cd rid R sn"
  unfolding proposes_within_def reports_sent [OF assms] ..

lemma do_sync_within:
  assumes "do_sync py rid q others c p x gs ge sd sn = Some (r, sn')" and "codec_ok cd" and "w_codec (sn_world sn) = cd"
    and "proposes_within cd rid R sn" and "dict_ok c" and "fst ` set c \<subseteq> R"
  shows "proposes_within cd rid R sn'" and "w_codec (sn_world sn') = cd"
proof -
  obtain ps where said: "\<And>key pl. reports cd sn' key pl \<Longrightarrow>
      reports cd sn key pl \<or> (key, pl) \<in> own_words rid q (commit_payload rid q c) ps"
    using do_sync_says [OF assms(1-3)] by blast
  have "\<exists>c. dict_ok c \<and> fst ` set c \<subseteq> R \<and> pl = commit_payload rid k c" if "reports cd sn' (COMMIT, rid, PInt k) pl" for k pl
    using said [OF that] assms(4-6) by (auto simp: proposes_within_def own_words_def)
  then show "proposes_within cd rid R sn'" by (simp add: proposes_within_def)
  show "w_codec (sn_world sn') = cd" using do_sync_says [OF assms(1-3)] by blast
qed

text \<open>A step without a boundary adds positions of its block to the commits of the next sync.\<close>

lemma open_step_commits:
  assumes "local_step tc model noise x age s bs be spb cfg None = Inr r" and "torch_ok tc" and "length (model x) = length x" and "0 < s"
  shows "fst ` set (note_transfers r pending) \<subseteq> fst ` set pending \<union> int ` {bs..<be}"
proof -
  have "{i. i < length x \<and> sr_transfer r ! i} \<subseteq> block_masks x (sc_mask_id cfg) bs be"
    using step_commits [OF assms] by (simp add: before_frozen_def)
  with step_row_lengths(1) [OF assms] show ?thesis by (auto simp: keys_note_transfers block_masks_def)
qed

lemma step_syncs_commit:
  "(q, c, p, y, sd, s) \<in> set (step_syncs ru cfg bs be spb i lv sn) \<Longrightarrow>
   \<exists>r. local_step (ru_torch ru) (ru_model ru) (ru_noise ru (lv_steps_done lv)) (lv_x lv) (lv_age lv)
     (int spb - int i) bs be (int spb) (gc_step_cfg cfg) (map_option nat (lv_frozen lv)) = Inr r \<and> c = note_transfers r (lv_pending lv)"
  by (cases "local_step (ru_torch ru) (ru_model ru) (ru_noise ru (lv_steps_done lv)) (lv_x lv) (lv_age lv)
     (int spb - int i) bs be (int spb) (gc_step_cfg cfg) (map_option nat (lv_frozen lv))")
    (auto simp: step_syncs_def Let_def split: prod.splits sum.splits if_splits)

text \<open>A sync that finds no boundary.\<close>

definition sync_open :: "runner \<Rightarrow> pyval \<Rightarrow> string set \<Rightarrow> nat \<Rightarrow> nat \<Rightarrow> sync_call \<Rightarrow> bool" where
  "sync_open ru rid others gs ge call \<longleftrightarrow>
     (\<forall>y f sd s. run_call ru rid others gs ge call = Some (Inr (y, f, sd), s) \<longrightarrow> f = None)"

definition open_vars :: "codec \<Rightarrow> pyval \<Rightarrow> int set \<Rightarrow> int set \<Rightarrow> loop_vars \<Rightarrow> swarm_node \<Rightarrow> bool" where
  "open_vars cd rid R B lv sn \<longleftrightarrow> lv_frozen lv = None \<and> dict_ok (lv_pending lv) \<and> fst ` set (lv_pending lv) \<subseteq> B \<and>
     w_codec (sn_world sn) = cd \<and> proposes_within cd rid R sn"

lemma gen_step_open:
  assumes "gen_step ru cfg rid others gs ge bs be spb i lv sn = Some (Inr (Some lv'), sn')" and "runner_ok ru" and "i < spb"
    and "set (step_syncs ru cfg bs be spb i lv sn) \<subseteq> {call. sync_open ru rid others gs ge call}" and "codec_ok cd"
    and "open_vars cd rid R (int ` {bs..<be}) lv sn" and "int ` {bs..<be} \<subseteq> R"
  shows "open_vars cd rid R (int ` {bs..<be}) lv' sn'"
proof -
  let ?B = "int ` {bs..<be}"
  note lv = assms(6) [unfolded open_vars_def]
  have run: "torch_ok (ru_torch ru)" "length (ru_model ru (lv_x lv)) = length (lv_x lv)" "0 < int spb - int i"
    using assms(2,3) by (simp_all add: runner_ok_def)
  have inside: "fst ` set (note_transfers r (lv_pending lv)) \<subseteq> ?B"
    if "local_step (ru_torch ru) (ru_model ru) (ru_noise ru (lv_steps_done lv)) (lv_x lv) (lv_age lv)
        (int spb - int i) bs be (int spb) (gc_step_cfg cfg) (map_option nat (lv_frozen lv)) = Inr r" for r
    using open_step_commits [OF that [unfolded conjunct1 [OF lv] option.map] run] lv by blast
  show ?thesis
  proof (cases "(i + 1) mod gc_sync_every cfg = 0 \<or> i = spb - 1")
    case True
    then obtain c p s x f sd where call: "step_syncs ru cfg bs be spb i lv sn = [(lv_seq lv, c, p, lv_shared lv, lv_sd lv, s)]"
      and sync: "run_call ru rid others gs ge (lv_seq lv, c, p, lv_shared lv, lv_sd lv, s) = Some (Inr (x, f, sd), sn')"
      and lv': "view lv' = (x, f, sd, lv_seq lv + 1)" "lv_pending lv' = []"
      and s: "w_sent (sn_world s) = w_sent (sn_world sn)" "w_codec (sn_world s) = w_codec (sn_world sn)" and c: "dict_ok c"
      using gen_step_sync [OF assms(1)] lv by auto
    have "(lv_seq lv, c, p, lv_shared lv, lv_sd lv, s) \<in> set (step_syncs ru cfg bs be spb i lv sn)" by (simp add: call)
    from step_syncs_commit [OF this] inside assms(7) have cR: "fst ` set c \<subseteq> R" by blast
    have "w_codec (sn_world s) = cd" "proposes_within cd rid R s" using lv s(2) within_sent [OF s(1)] by simp_all
    note do_sync_within [OF sync [unfolded run_call_def prod.case] assms(5) this c cR]
    moreover have "f = None" using assms(4) sync by (simp add: call sync_open_def)
    ultimately show ?thesis using lv' by (simp add: open_vars_def view_def)
  next
    case False
    with gen_step_sync [OF assms(1)] lv have lv': "lv_frozen lv' = None" "dict_ok (lv_pending lv')" and
      sn': "w_sent (sn_world sn') = w_sent (sn_world sn)" "w_codec (sn_world sn') = w_codec (sn_world sn)"
      by (auto simp: view_def)
    have "fst ` set (lv_pending lv') \<subseteq> ?B"
      by (rule gen_step_done [OF assms(1)]) (use False inside in auto)
    with lv' sn' lv within_sent [OF sn'(1)] show ?thesis by (simp add: open_vars_def)
  qed
qed

text \<open>A whole round without a boundary.\<close>

definition block_positions :: "int list \<Rightarrow> gen_config \<Rightarrow> int set" where
  "block_positions prompt_ids cfg = {int (length prompt_ids) ..<
     int (length prompt_ids + gc_gen_length cfg div gc_block_length cfg * gc_block_length cfg)}"

lemma block_inside:
  assumes "b < nb"
  shows "int ` {gs + b * bl..<gs + (b + 1) * bl} \<subseteq> {int gs..<int (gs + nb * bl)}"
proof -
  have "(b + 1) * bl \<le> nb * bl" using assms by (intro mult_le_mono1) simp
  then have "int i \<in> {int gs..<int (gs + nb * bl)}" if "i \<in> {gs + b * bl..<gs + (b + 1) * bl}" for i
    using that unfolding atLeastLessThan_iff of_nat_le_iff of_nat_less_iff by linarith
  then show ?thesis by blast
qed

lemma blocks_loop_open:
  assumes "blocks_loop ru cfg rid others gs ge spb [0..<nb] lv sn = Some (Inr (Some lv'), sn')" and "runner_ok ru" and "codec_ok cd"
    and "\<forall>call \<in> set (block_syncs ru cfg rid others gs ge spb [0..<nb] lv sn). sync_open ru rid others gs ge call"
    and "open_vars cd rid R {} lv sn" and "R = {int gs..<int (gs + nb * gc_block_length cfg)}"
  shows "lv_frozen lv' = None \<and> w_codec (sn_world sn') = cd \<and> proposes_within cd rid R sn'"
proof -
  let ?B = "\<lambda>b. int ` {gs + b * gc_block_length cfg..<gs + (b + 1) * gc_block_length cfg}"
  let ?I = "\<lambda>b lv sn. open_vars cd rid R (?B b) lv sn"
    and ?J = "\<lambda>lv sn. lv_frozen lv = None \<and> w_codec (sn_world sn) = cd \<and> proposes_within cd rid R sn"
  show ?thesis
  proof (rule blocks_loop_induct [where I = ?I and J = ?J, OF assms(1)])
    show "set (block_syncs ru cfg rid others gs ge spb [0..<nb] lv sn) \<subseteq> {call. sync_open ru rid others gs ge call}"
      using assms(4) by blast
    show "?J lv sn" using assms(5) by (simp add: open_vars_def)
  next
    fix b i lv sn lv' sn'
    assume "b \<in> set [0..<nb]" and i: "i < spb"
      and run: "gen_step ru cfg rid others gs ge (gs + b * gc_block_length cfg) (gs + (b + 1) * gc_block_length cfg) spb i lv sn =
        Some (Inr (Some lv'), sn')"
      and calls: "set (step_syncs ru cfg (gs + b * gc_block_length cfg) (gs + (b + 1) * gc_block_length cfg) spb i lv sn) \<subseteq>
        {call. sync_open ru rid others gs ge call}"
      and I: "?I b lv sn"
    then have "?B b \<subseteq> R" unfolding assms(6) by (intro block_inside) simp
    then show "?I b lv' sn'" by (rule gen_step_open [OF run assms(2) i calls assms(3) I])
  qed (simp_all add: open_vars_def fresh_block_def)
qed

lemma run_round_within:
  assumes "run_round ru prompt_ids cfg sn = Some (Inr (Some x), sn')" and "active_round (sn_round sn) = Some rs"
    and "runner_ok ru" and "codec_ok cd" and "w_codec (sn_world sn) = cd" and "unreported cd (round_id rs) sn"
    and "\<forall>call \<in> set (round_syncs ru prompt_ids cfg sn). sync_open ru (round_id rs) (set (participants rs) - {sn_id sn})
      (length prompt_ids) (length prompt_ids + gc_gen_length cfg) call"
  shows "proposes_within cd (round_id rs) (block_positions prompt_ids cfg) sn'"
proof -
  let ?rid = "round_id rs" and ?nb = "gc_gen_length cfg div gc_block_length cfg"
  obtain lv sn1 where blocks: "blocks_loop ru cfg ?rid (set (participants rs) - {sn_id sn}) (length prompt_ids)
       (length prompt_ids + gc_gen_length cfg) (gc_steps cfg div ?nb) [0..<?nb] (start_vars prompt_ids cfg) sn = Some (Inr (Some lv), sn1)"
    and stop: "sn' = sn1 \<or> (\<exists>p. sn' = snd (publish_msg sn1 GEN_DONE p))"
    by (rule run_round_done [OF assms(1)]) (use assms(2) in auto)
  have "open_vars cd ?rid (block_positions prompt_ids cfg) {} (start_vars prompt_ids cfg) sn"
    using assms(5,6) by (simp add: open_vars_def start_vars_def proposes_within_def unreported_def)
  from blocks_loop_open [OF blocks assms(3,4) _ this] assms(2,7)
  have 1: "w_codec (sn_world sn1) = cd" "proposes_within cd ?rid (block_positions prompt_ids cfg) sn1"
    by (simp_all add: block_positions_def round_syncs_def Let_def)
  have key: "payload_key GEN_DONE pl \<noteq> (COMMIT, ?rid, PInt k)" for pl k by (simp add: payload_key_def)
  have "reports cd sn1 (COMMIT, ?rid, PInt k) pl"
    if "reports cd (snd (publish_msg sn1 GEN_DONE p)) (COMMIT, ?rid, PInt k) pl" for p k pl
    using publish_says [of sn1, unfolded 1(1), OF that assms(4) refl] key by metis
  with 1(2) have "proposes_within cd ?rid (block_positions prompt_ids cfg) (snd (publish_msg sn1 GEN_DONE p))" for p
    unfolding proposes_within_def by blast
  with 1(2) stop show ?thesis by blast
qed

subsection \<open>What a sync leaves alone\<close>

lemma with_others_from:
  assumes "with_others parse k own received = Inr all" and "(j, v) \<in> set all"
  shows "j = k \<and> v = own \<or> (\<exists>p. (j, p) \<in> set received \<and> parse p = Inr v)"
proof -
  have sub: "set (dset j v d) \<subseteq> insert (j, v) (set d)" for j v and d :: "(string \<times> 'a) list"
    by (induction d) auto
  have "(j, v) \<in> set acc \<or> (\<exists>p. (j, p) \<in> set rec \<and> parse p = Inr v)"
    if "foldM (\<lambda>(node_id, payload) acc. rbind (parse payload) (\<lambda>v. Inr (dset node_id v acc))) rec acc = Inr all"
      "(j, v) \<in> set all" for rec acc
    using that
  proof (induction rec arbitrary: acc)
    case (Cons a rec)
    then obtain w where w: "parse (snd a) = Inr w"
      "foldM (\<lambda>(node_id, payload) acc. rbind (parse payload) (\<lambda>v. Inr (dset node_id v acc))) rec (dset (fst a) w acc) = Inr all"
      by (cases a) (auto simp: rbind_eq_Inr)
    from Cons.IH [OF w(2) Cons.prems(2)] sub [of "fst a" w acc] w(1) show ?case by (cases a) auto
  qed simp
  with assms show ?thesis unfolding with_others_def by fastforce
qed

lemma sync_keeps_outside:
  assumes "reachable N cd net0" and "codec_ok cd" and "a \<in> N" and "net_run N net0 net1" and "net_run N net1 net"
    and "node_run (net0 a) frs0 sn" and "do_sync py rid q others c my_p x gs ge sd sn = Some (Inr (x', f, sd'), sn')"
    and "node_run sn' frs' (net1 a)" and "dict_ok c" and "\<forall>n \<in> insert a others. proposes_within cd rid R (net n)" and "p \<notin> R"
  shows "map_of x' p = map_of x p"
proof -
  have "swarm_ok (net0 a)" "codec_ok (w_codec (sn_world (net0 a)))" "w_codec (sn_world (net0 a)) = cd"
    using reachable_inv [OF assms(1-3)] assms(2) by (simp_all add: node_inv_def Let_def)
  with node_run_ok [OF assms(6)] have ok: "swarm_ok sn" "w_codec (sn_world sn) = cd" "codec_ok (w_codec (sn_world sn))" by simp_all
  obtain raw sn1 where ex: "exchange COMMIT (commit_payload rid q c) rid q others sn = Some (Inr raw, sn1)"
    using assms(7) unfolding do_sync_def tbind_Inr by blast
  obtain frs1 frs2 where g: "gathered sn (COMMIT, rid, PInt q) frs1 sn1 raw" and run: "node_run sn1 frs2 sn'"
    by (rule do_sync_run [OF assms(7) ex ok(1,3)])
  note run1 = node_run_trans [OF assms(8) run]
  have others: "fst ` set v \<subseteq> R" if "(j, pl) \<in> set raw" "parse_commit pl = Inr v" for j pl v
  proof -
    have "set (keys raw) \<subseteq> others"
      using ex unfolding exchange_def tbind_Inr by (blast dest: collect_until_expected)
    with that(1) have "j \<in> insert a others" by force
    with assms(10) commit_within [OF _ _ that(2)] gathered_reports [OF assms(1-6) g run1 that(1)] show ?thesis by blast
  qed
  have "reports cd (net a) (COMMIT, rid, PInt q) (commit_payload rid q c)"
    by (rule exchange_reported [OF assms(1-6) ex run1 _ payload_keys(1)]) simp
  then have own: "fst ` set c \<subseteq> R" using assms(10) commit_within [OF _ _ parse_commit_own [OF assms(9)]] by blast
  obtain all where all: "with_others parse_commit (sn_id sn1) c raw = Inr all"
    using do_sync_parts [OF assms(7) ex] exchange_id [OF ex] by metis
  have "proposed all p = {}"
    using with_others_from [OF all] own others assms(11) unfolding proposed_def by fastforce
  moreover obtain w where "x' = merge_consensus (py_set_iter py) x all w"
    by (rule do_sync_result [OF ex all assms(7)])
  ultimately show ?thesis by (simp add: merge_lookup)
qed

text \<open>A sync that changes nothing at position \<open>k\<close>.\<close>

definition keeps_at :: "runner \<Rightarrow> pyval \<Rightarrow> string set \<Rightarrow> nat \<Rightarrow> nat \<Rightarrow> int \<Rightarrow> sync_call \<Rightarrow> bool" where
  "keeps_at ru rid others gs ge k = (\<lambda>(q, c, p, y, sd, s).
     \<forall>y' f sd' s'. run_call ru rid others gs ge (q, c, p, y, sd, s) = Some (Inr (y', f, sd'), s') \<longrightarrow> map_of y' k = map_of y k)"

lemma blocks_loop_keeps:
  assumes "blocks_loop ru cfg rid others gs ge spb bs lv sn = Some (Inr (Some lv'), sn')"
    and "\<forall>call \<in> set (block_syncs ru cfg rid others gs ge spb bs lv sn). keeps_at ru rid others gs ge k call"
  shows "map_of (lv_shared lv') k = map_of (lv_shared lv) k"
proof -
  let ?J = "\<lambda>s sn. map_of (lv_shared s) k = map_of (lv_shared lv) k"
  have step: "?J lv' sn'"
    if run: "gen_step ru cfg rid others gs ge bs be spb i lv1 sn = Some (Inr (Some lv'), sn')"
      and calls: "set (step_syncs ru cfg bs be spb i lv1 sn) \<subseteq> {call. keeps_at ru rid others gs ge k call}" and J: "?J lv1 sn"
    for bs be i lv1 sn lv' sn'
  proof (cases "(i + 1) mod gc_sync_every cfg = 0 \<or> i = spb - 1")
    case True
    then obtain c p s x f sd where "step_syncs ru cfg bs be spb i lv1 sn = [(lv_seq lv1, c, p, lv_shared lv1, lv_sd lv1, s)]"
        "run_call ru rid others gs ge (lv_seq lv1, c, p, lv_shared lv1, lv_sd lv1, s) = Some (Inr (x, f, sd), sn')"
        "view lv' = (x, f, sd, lv_seq lv1 + 1)"
      using gen_step_sync [OF run] by auto
    with calls J show ?thesis by (simp add: keeps_at_def view_def)
  next
    case False
    with gen_step_sync [OF run] J show ?thesis by (simp add: view_def)
  qed
  show ?thesis
    by (rule blocks_loop_induct [where J = ?J and I = "\<lambda>_. ?J", OF assms(1), of "{call. keeps_at ru rid others gs ge k call}"])
      (use assms(2) step in \<open>auto simp: fresh_block_def\<close>)
qed

subsection \<open>The text\<close>

text \<open>Node \<open>n\<close> came through the round and none of its syncs found a boundary. What it heard, and whom it missed,
  does not matter here.\<close>

definition generated_open ::
  "string set \<Rightarrow> codec \<Rightarrow> swarm \<Rightarrow> string \<Rightarrow> pyval \<Rightarrow> int list \<Rightarrow> gen_config \<Rightarrow> (int, int) dict \<Rightarrow> bool" where
  "generated_open N cd net n rid prompt_ids cfg x \<longleftrightarrow>
     came_through runner_ok (\<lambda>ru P call. sync_open ru rid (P - {n}) (length prompt_ids) (length prompt_ids + gc_gen_length cfg) call)
       N cd net n rid prompt_ids cfg x"

lemma generated_open_within:
  assumes "generated_open N cd net n rid prompt_ids cfg x" and "codec_ok cd" and "n \<in> N"
  shows "proposes_within cd rid (block_positions prompt_ids cfg) (net n)"
proof -
  obtain net0 net1 ru rs where r0: "reachable N cd net0" and act: "active_round (sn_round (net0 n)) = Some rs"
    and rid: "round_id rs = rid" and fit: "runner_ok ru" and new: "unreported cd rid (net0 n)"
    and run: "run_round ru prompt_ids cfg (net0 n) = Some (Inr (Some x), net1 n)"
    and last: "\<forall>m q p. reports cd (net n) (m, rid, PInt q) p \<longrightarrow> reports cd (net1 n) (m, rid, PInt q) p"
    and calls: "\<forall>call \<in> set (round_syncs ru prompt_ids cfg (net0 n)). sync_open ru rid (set (participants rs) - {n})
      (length prompt_ids) (length prompt_ids + gc_gen_length cfg) call"
    using assms(1) unfolding generated_open_def came_through_def by blast
  have "w_codec (sn_world (net0 n)) = cd" "sn_id (net0 n) = n"
    using reachable_inv [OF r0 assms(2,3)] by (simp_all add: node_inv_def Let_def)
  with run_round_within [OF run act fit assms(2)] new calls rid
  have "proposes_within cd rid (block_positions prompt_ids cfg) (net1 n)" by simp
  with last show ?thesis unfolding proposes_within_def by blast
qed

lemma start_vars_shared:
  "map_of (lv_shared (start_vars prompt_ids cfg)) p =
     (if 0 \<le> p \<and> p < int (length prompt_ids) then Some (prompt_ids ! nat p) else None)"
proof -
  have "map_of (map (\<lambda>i. (int i, f i)) is) p = (if 0 \<le> p \<and> nat p \<in> set is then Some (f (nat p)) else None)"
    for f :: "nat \<Rightarrow> int" and "is"
    by (induction "is") auto
  then show ?thesis by (auto simp: start_vars_def)
qed

text \<open>One participant of a round in which the others propose tokens in its blocks only.\<close>

lemma generated_open_text:
  assumes "generated_open N cd net a (round_id rs) prompt_ids cfg x" and "codec_ok cd" and "a \<in> N" and "k \<in> N"
    and "rs \<in> set (rm_heap (sn_round (net k)))" and "a \<in> set (participants rs)"
    and "\<forall>n \<in> set (participants rs). proposes_within cd (round_id rs) (block_positions prompt_ids cfg) (net n)"
    and "nb = gc_gen_length cfg div gc_block_length cfg" and "nb \<le> gc_steps cfg"
  shows "p \<notin> block_positions prompt_ids cfg \<Longrightarrow> map_of x p = map_of (lv_shared (start_vars prompt_ids cfg)) p"
    and "i < length prompt_ids + nb * gc_block_length cfg \<Longrightarrow> map_of x (int i) \<noteq> None"
proof -
  let ?rid = "round_id rs" and ?P = "set (participants rs)" and ?gs = "length prompt_ids"
  let ?ge = "?gs + gc_gen_length cfg" and ?R = "block_positions prompt_ids cfg"
  obtain net0 net1 ru rs' where r0: "reachable N cd net0" and runs: "net_run N net0 net1" "net_run N net1 net"
    and act: "active_round (sn_round (net0 a)) = Some rs'" and rid: "round_id rs' = ?rid" and fit: "runner_ok ru"
    and new: "unreported cd ?rid (net0 a)" and run: "run_round ru prompt_ids cfg (net0 a) = Some (Inr (Some x), net1 a)"
    and calls: "\<forall>call \<in> set (round_syncs ru prompt_ids cfg (net0 a)). sync_open ru ?rid (set (participants rs') - {a}) ?gs ?ge call"
    using assms(1) unfolding generated_open_def came_through_def by blast
  have ok: "swarm_ok (net0 a)" "w_codec (sn_world (net0 a)) = cd" "sn_id (net0 a) = a"
    using reachable_inv [OF r0 assms(2,3)] by (simp_all add: node_inv_def Let_def)
  then have cok: "codec_ok (w_codec (sn_world (net0 a)))" using assms(2) by simp
  have way: "net_run N net0 net" using runs by (rule rtranclp_trans)
  have parts: "set (participants rs') = ?P" by (rule participants_known [OF r0 way assms(2-4) act assms(5) rid])
  obtain lv sn1 where blocks: "blocks_loop ru cfg ?rid (?P - {a}) ?gs ?ge (gc_steps cfg div nb) [0..<nb] (start_vars prompt_ids cfg) (net0 a) =
      Some (Inr (Some lv), sn1)"
    and x: "x = lv_shared lv"
    and all: "\<And>p. p < ?gs + nb * gc_block_length cfg \<Longrightarrow> (case lv_frozen lv of None \<Rightarrow> True | Some f \<Rightarrow> int p < f) \<Longrightarrow>
      map_of x (int p) \<noteq> None"
    by (rule round_settled [OF run act fit assms(8,9) refl refl, unfolded rid parts ok(3)]) (rule that)
  have same: "set (round_syncs ru prompt_ids cfg (net0 a)) =
      set (block_syncs ru cfg ?rid (?P - {a}) ?gs ?ge (gc_steps cfg div nb) [0..<nb] (start_vars prompt_ids cfg) (net0 a))"
    by (simp add: round_syncs_def act rid parts ok(3) assms(8) Let_def)
  have "open_vars cd ?rid {int ?gs..<int (?gs + nb * gc_block_length cfg)} {} (start_vars prompt_ids cfg) (net0 a)"
    using new ok(2) by (simp add: open_vars_def start_vars_def proposes_within_def unreported_def)
  from blocks_loop_open [OF blocks fit assms(2) _ this refl] calls
  have "lv_frozen lv = None" by (simp add: same parts)
  with all show "i < ?gs + nb * gc_block_length cfg \<Longrightarrow> map_of x (int i) \<noteq> None" by simp
  assume p: "p \<notin> ?R"
  have "keeps_at ru ?rid (?P - {a}) ?gs ?ge p (q, c, my_p, y, sd, s)"
    if call: "(q, c, my_p, y, sd, s) \<in> set (round_syncs ru prompt_ids cfg (net0 a))" for q c my_p y sd s
  proof -
    obtain frs frs' res s' where c: "dict_ok c" and before: "node_run (net0 a) frs s" and after: "node_run s' frs' (net1 a)"
      and sync: "run_call ru ?rid (?P - {a}) ?gs ?ge (q, c, my_p, y, sd, s) = Some (Inr res, s')"
      using round_path [OF run act ok(1) cok call] unfolding on_path_def prod.case rid parts ok(3) by blast
    obtain y' f sd' where res: "res = (y', f, sd')" by (cases res)
    have "\<forall>n \<in> insert a (?P - {a}). proposes_within cd ?rid ?R (net n)" using assms(6,7) by blast
    from sync_keeps_outside [OF r0 assms(2,3) runs before sync [unfolded run_call_def prod.case res] after c this p]
    show ?thesis by (simp add: keeps_at_def sync res)
  qed
  with blocks_loop_keeps [OF blocks, of p] show "map_of x p = map_of (lv_shared (start_vars prompt_ids cfg)) p"
    unfolding x same by fastforce
qed

text \<open>C3: the text is the prompt and what follows it. In any network the program can reach, take a round some node
  knows whose participants have all come through \<open>run_round\<close> with the same prompt and configuration, at
  least one step per block, without a stop boundary, and have reported nothing else for the round. Then
  what each of them returns has the tokens of the prompt at the positions of the prompt, a token at
  every position of the blocks after it, and nothing anywhere else: whichever tokens they proposed and
  disputed, and even where barriers ran out and their texts differ.\<close>

theorem swarm_completes_prompt:
  assumes "codec_ok cd" and "k \<in> N" and "rs \<in> set (rm_heap (sn_round (net k)))"
    and "\<forall>n \<in> set (participants rs). n \<in> N \<and> generated_open N cd net n (round_id rs) prompt_ids cfg (x n)"
    and "a \<in> set (participants rs)" and "nb = gc_gen_length cfg div gc_block_length cfg" and "nb \<le> gc_steps cfg"
  shows "(\<forall>i < length prompt_ids. map_of (x a) (int i) = Some (prompt_ids ! i)) \<and>
    dom (map_of (x a)) = {0..<int (length prompt_ids + nb * gc_block_length cfg)}"
proof -
  have N: "n \<in> N" and gen: "generated_open N cd net n (round_id rs) prompt_ids cfg (x n)" if "n \<in> set (participants rs)" for n
    using assms(4) that by blast+
  have "\<forall>n \<in> set (participants rs). proposes_within cd (round_id rs) (block_positions prompt_ids cfg) (net n)"
    using generated_open_within [OF gen assms(1) N] by blast
  note kept = generated_open_text [OF gen [OF assms(5)] assms(1) N [OF assms(5)] assms(2,3,5) this assms(6,7)]
  note start = start_vars_shared [of prompt_ids cfg]
  have prompt: "map_of (x a) (int i) = Some (prompt_ids ! i)" if "i < length prompt_ids" for i
    using that kept(1) [of "int i"] start [of "int i"] by (simp add: block_positions_def)
  let ?D = "{0..<int (length prompt_ids + nb * gc_block_length cfg)}"
  have "dom (map_of (x a)) = ?D"
  proof
    show "?D \<subseteq> dom (map_of (x a))"
    proof
      fix p assume "p \<in> ?D"
      then have "nat p < length prompt_ids + nb * gc_block_length cfg" "p = int (nat p)"
        unfolding atLeastLessThan_iff by linarith+
      with kept(2) [of "nat p"] show "p \<in> dom (map_of (x a))" by auto
    qed
    show "dom (map_of (x a)) \<subseteq> ?D"
    proof
      fix p assume p: "p \<in> dom (map_of (x a))"
      show "p \<in> ?D"
      proof (cases "p \<in> block_positions prompt_ids cfg")
        case True
        then show ?thesis by (simp add: block_positions_def assms(6))
      next
        case False
        with kept(1) p start [of p] have "0 \<le> p \<and> p < int (length prompt_ids)" by (auto split: if_splits)
        then show ?thesis unfolding atLeastLessThan_iff by linarith
      qed
    qed
  qed
  with prompt show ?thesis by blast
qed

text \<open>In the network of \<open>team_generates\<close>, no sync found a boundary.\<close>

lemma team_open:
  assumes "team_came net n x" and "n \<in> {''a'', ''b''}"
  shows "generated_open {''a'', ''b''} team_codec net n (PStr ''a:01234567'') [2] one_step_config x"
proof -
  have others: "{''a'', ''b''} - {n} = {duo_other n}" using assms(2) by (auto simp: duo_other_def)
  have run: "length [2 :: int] = 1" "1 + gc_gen_length one_step_config = 3" "ru_python steady_runner = plain_python"
    by (simp_all add: one_step_config_def steady_runner_def example_runner_def)
  have "sync_open steady_runner (PStr ''a:01234567'') ({''a'', ''b''} - {n}) 1 3 call" if "team_call n call" for call
    using that unfolding team_call_def others by (auto simp: sync_open_def run_call_def run(3))
  then show ?thesis
    unfolding generated_open_def run(1,2)
    by (intro came_through_mono [OF assms(1) [unfolded team_came_def]]) (auto simp: steady_runner_ok)
qed

theorem swarm_completes_prompt_witness:
  "\<exists>net x. reachable {''a'', ''b''} team_codec net \<and>
     (\<forall>n \<in> {''a'', ''b''}. generated_open {''a'', ''b''} team_codec net n (PStr ''a:01234567'') [2] one_step_config (x n)) \<and>
     map_of (x ''a'') 0 = Some 2 \<and> dom (map_of (x ''a'')) = {0..<3}"
proof -
  obtain net x rs where net: "reachable {''a'', ''b''} team_codec net" and rs: "rs \<in> set (rm_heap (sn_round (net ''a'')))"
    and round: "round_id rs = PStr ''a:01234567''" "set (participants rs) = {''a'', ''b''}"
    and gen: "\<forall>n \<in> {''a'', ''b''}. generated_open {''a'', ''b''} team_codec net n (PStr ''a:01234567'') [2] one_step_config (x n)"
    using team_generates team_open by (elim exE conjE) blast
  have cfg: "(1 :: nat) = gc_gen_length one_step_config div gc_block_length one_step_config" "1 \<le> gc_steps one_step_config"
    "gc_block_length one_step_config = 2"
    by (simp_all add: one_step_config_def)
  have "(\<forall>i < length [2 :: int]. map_of (x ''a'') (int i) = Some ([2] ! i)) \<and>
      dom (map_of (x ''a'')) = {0..<int (length [2 :: int] + 1 * gc_block_length one_step_config)}"
    by (rule swarm_completes_prompt [where k = "''a''" and net = net and x = x and N = "{''a'', ''b''}" and cfg = one_step_config,
        OF team_codec_facts(1) _ rs _ _ cfg(1,2)]) (use gen in \<open>simp_all add: round\<close>)
  then have "map_of (x ''a'') 0 = Some 2 \<and> dom (map_of (x ''a'')) = {0..<3}" by (simp add: cfg(3))
  with net gen show ?thesis by (intro exI [of _ net] exI [of _ x] conjI) simp_all
qed

end
