(* ===== verification/Overrun.thy ===== *)
theory Overrun imports Completeness begin

section \<open>A round that loses its prompt\<close>

text \<open>
  What \<open>Local_Step.frozen_block_overflows\<close> shows of one step, in a whole run of \<open>run_round\<close>. The only
  participant of a round generates one block of two positions in two steps. Its first step
  commits an end token, on which the sync confirms the stop boundary, at the first position of the block.
  The second step counts the other position of the block as still to be filled, has no
  candidate before the boundary, and takes position 0: a token of the prompt, which it commits
  and merges into the shared state (\<open>boundary_overwrites_prompt\<close>). With a swarm it would have sent it to everyone.
\<close>

definition overrun_config :: gen_config where
  "overrun_config =
     \<lparr>gc_gen_length = 2, gc_block_length = 2, gc_steps = 2, gc_sync_every = 1,
      gc_step_cfg = example_step_cfg\<lparr>sc_eos_id := 2\<rparr>,
      gc_stop_cfg = \<lparr>eos_id = 2, mask_id = 1, min_gen_length = 0, stop_run_min = 1, stop_confirmations = 1\<rparr>\<rparr>"

definition boss_round :: round_manager where
  "boss_round = set_new_round (example_round\<lparr>participants := [''node-a'']\<rparr>) (RoundManager ''node-a'')"

text \<open>A node alone in a round it leads, to which nobody speaks.\<close>

definition solo :: "swarm_node \<Rightarrow> bool" where
  "solo sn \<longleftrightarrow> sn_id sn = ''node-a'' \<and> sn_round sn = boss_round \<and> w_codec (sn_world sn) = open_codec \<and>
     w_polls (sn_world sn) = (\<lambda>_ _. None)"

definition boss_node :: swarm_node where
  "boss_node = (quiet_node ''node-a'' open_codec)\<lparr>sn_round := boss_round\<rparr>"

lemma solo_boss [simp]: "solo boss_node"
  by (simp add: solo_def boss_node_def) (simp add: quiet_node_def)

lemma boss_facts:
  "active_round boss_round = Some (example_round\<lparr>participants := [''node-a'']\<rparr>)"
  "check_leader_timeout boss_round None now = (False, boss_round)" "is_round_leader boss_round"
proof -
  show act: "active_round boss_round = Some (example_round\<lparr>participants := [''node-a'']\<rparr>)" by (simp add: boss_round_def)
  have "rm_self_id boss_round = ''node-a''" by (simp add: boss_round_def set_new_round_def RoundManager_def)
  with act show "check_leader_timeout boss_round None now = (False, boss_round)" "is_round_leader boss_round"
    by (simp_all add: check_leader_timeout_def is_round_leader_def example_round_def)
qed

lemma solo_read: "solo sn \<Longrightarrow> solo (snd (read_clock sn))"
  by (simp add: solo_def read_clock_def time_time_def)

lemma solo_publish:
  assumes "solo sn"
  shows "\<exists>s. publish_msg sn m p = (Inr (), s) \<and> solo s"
  using assms open_publish [of sn m p] by (simp add: solo_def)

lemma solo_exchange:
  assumes "solo sn" and "rid = PStr r"
  shows "\<exists>s. exchange m payload rid q {} sn = Some (Inr [], s) \<and> solo s"
proof -
  obtain s where pub: "publish_msg sn m (Some payload) = (Inr (), s)" and s: "solo s" using solo_publish [OF assms(1)] by blast
  have "solo (snd (read_clock s)\<lparr>sn_inbox := i\<rparr>)" for i using solo_read [OF s] by (simp add: solo_def)
  then show ?thesis
    unfolding exchange_def pub tbind_simps using assms(2) solo_read [OF s]
    by (simp add: collect_until_def Let_def case_prod_unfold collect_loop.simps)
qed

text \<open>A step of such a node, with the sync after it.\<close>

lemma solo_step:
  assumes "solo sn" and "rid = PStr r"
    and step: "local_step (ru_torch ru) (ru_model ru) (ru_noise ru (lv_steps_done lv)) (lv_x lv) (lv_age lv)
      (int spb - int i) bs be (int spb) (gc_step_cfg cfg) (map_option nat (lv_frozen lv)) = Inr st"
    and c: "note_transfers st (lv_pending lv) = c" "detect_disputes [(''node-a'', c)] = []"
    and x: "merge_consensus (py_set_iter (ru_python ru)) (lv_shared lv) [(''node-a'', c)] [] = x"
    and sd: "check (lv_sd lv) x (int gs) (int ge) = (f, sd)" and "gc_sync_every cfg = 1"
  shows "\<exists>sn'. gen_step ru cfg rid {} gs ge bs be spb i lv sn = Some (Inr (Some (adopt_shared bs be
      (lv\<lparr>lv_x := sr_x st, lv_age := sr_age st, lv_steps_done := Suc (lv_steps_done lv), lv_shared := x, lv_frozen := f, lv_sd := sd,
          lv_seq := lv_seq lv + 1, lv_pending := []\<rparr>))), sn') \<and> solo sn'"
proof -
  let ?s1 = "sn\<lparr>sn_world := snd (poll_recv (sn_world sn) 10)\<rparr>"
  have pump: "pump_once sn 10 = (Inr None, ?s1)" using assms(1) by (simp add: pump_once_def poll_recv_def solo_def)
  have s1: "solo ?s1" using assms(1) by (simp add: solo_def poll_recv_def)
  obtain now s2 where clock: "read_clock ?s1 = (now, s2)" by (cases "read_clock ?s1")
  have s2: "solo s2" using solo_read [OF s1] by (simp add: clock)
  then have chk: "check_leader_timeout (sn_round s2) None now = (False, sn_round s2)" using boss_facts(2) by (simp add: solo_def)
  obtain s3 where ex: "exchange COMMIT (commit_payload rid (lv_seq lv) c) rid (lv_seq lv) {} s2 = Some (Inr [], s3)" and s3: "solo s3"
    using solo_exchange [OF s2 assms(2)] by blast
  then have "sn_id s3 = ''node-a''" by (simp add: solo_def)
  then have "do_sync (ru_python ru) rid (lv_seq lv) {} c (sr_p st) (lv_shared lv) (int gs) (int ge) (lv_sd lv) s2 =
      Some (Inr (x, f, sd), s3)"
    by (simp add: do_sync_def ex with_others_def c(2) x sd)
  then show ?thesis using s3
    by (simp add: gen_step_def pump clock chk step c(1) assms(8) Let_def)
qed

lemma steady_margin:
  "eos_margin 2 [1 / 10, 1 / 5, 7 / 10] = Inr (clamped_log (7 / 10) - clamped_log (1 / 5))"
  "\<not> clamped_log (7 / 10) < clamped_log (1 / 5)"
  by (simp_all add: eos_margin_def col_index_def clamped_log_def)

lemma overrun_step_cfg:
  "gc_step_cfg overrun_config = \<lparr>sc_mask_id = 1, sc_eos_id = 2, sc_temperature = 0, sc_eos_margin_threshold = 0,
     sc_remask_conf_threshold = 1 / 2, sc_remask_min_age = 1, sc_remask_max_frac = 1 / 2, sc_remask_reserve_frac = 0\<rparr>"
  by (simp add: overrun_config_def example_step_cfg_def)

lemma no_remask: "remask_row tc cf [False, True, True] age cur (Suc 0) 3 None = [False, False, False]"
  by (auto simp: remask_row_def Let_def less_Suc_eq numeral_eq_Suc)

lemmas steady_defs = local_step_def plain_torch_def add_gumbel_noise_def gather_def example_argmax steady_margin no_remask
  transfer_row_def masked_conf_def stable_topk_def before_frozen_def py_round_def Let_def upt_rec

abbreviation steady_model :: "int list \<Rightarrow> real list list" where
  "steady_model \<equiv> map (\<lambda>_. [1 / 10, 1 / 5, 7 / 10])"

lemma overrun_first:
  "\<exists>st. local_step plain_torch steady_model [] [0, 1, 1] [0, 0, 0] 2 1 3 2 (gc_step_cfg overrun_config) None = Inr st \<and>
     sr_x st = [0, 2, 1] \<and> sr_age st = [1, 0, 0] \<and> note_transfers st [] = [(1, (2, 7 / 10))]"
proof -
  obtain st where "local_step plain_torch steady_model [] [0, 1, 1] [0, 0, 0] 2 1 3 2 (gc_step_cfg overrun_config) None = Inr st"
    and st: "sr_x st = [0, 2, 1]" "sr_age st = [1, 0, 0]" "sr_transfer st = [False, True, False]" "sr_x0 st = [2, 2, 2]"
      "sr_conf_new st = [7 / 10, 7 / 10, 7 / 10]"
    unfolding overrun_step_cfg by (simp add: steady_defs)
  moreover have "note_transfers st [] = [(1, (2, 7 / 10))]" by (simp add: note_transfers_def st upt_rec)
  ultimately show ?thesis by blast
qed

lemma overrun_second:
  "\<exists>st. local_step plain_torch steady_model [] [0, 2, 1] [1, 0, 0] 1 1 3 2 (gc_step_cfg overrun_config) (Some 1) = Inr st \<and>
     note_transfers st [] = [(0, (2, 7 / 10))]"
proof -
  obtain st where "local_step plain_torch steady_model [] [0, 2, 1] [1, 0, 0] 1 1 3 2 (gc_step_cfg overrun_config) (Some 1) = Inr st"
    and st: "sr_transfer st = [True, False, False]" "sr_x0 st = [2, 2, 2]" "sr_conf_new st = [7 / 10, 7 / 10, 7 / 10]"
    unfolding overrun_step_cfg by (simp add: steady_defs)
  moreover have "note_transfers st [] = [(0, (2, 7 / 10))]" by (simp add: note_transfers_def st upt_rec)
  ultimately show ?thesis by blast
qed

text \<open>The detector on what the two syncs merge.\<close>

lemma overrun_checks:
  "\<exists>sd. check (StopDetector (gc_stop_cfg overrun_config)) [(0, 0), (1, 2)] 1 3 = (Some 1, sd) \<and>
     fst (check sd [(0, 2), (1, 2)] 1 3) = Some 1"
  by (simp add: check_def StopDetector_def overrun_config_def Let_def upto_rec1 eos_run_start.simps)

text \<open>C20: a stop boundary can cost the prompt. A round that a node leads alone, with a prompt of one token (0),
  one block of two positions and a model that always takes the end token (2) for the most probable:
  the first of its two steps commits the end token at position 1, its sync confirms the boundary there, and the second step
  commits the end token at position 0. \<open>run_round\<close> returns a text whose prompt is not the prompt.\<close>

theorem boundary_overwrites_prompt:
  "\<exists>sn'. run_round steady_runner [0] overrun_config boss_node = Some (Inr (Some [(0, 2), (1, 2)]), sn')"
proof -
  let ?rid = "PStr ''node-a:abc123''" and ?lv = "start_vars [0] overrun_config"
  let ?lv0 = "?lv\<lparr>lv_age := replicate (length (lv_x ?lv)) 0, lv_pending := []\<rparr>"
  let ?step = "gen_step steady_runner overrun_config ?rid {} 1 3 1 3 2"
  have ru: "ru_torch steady_runner = plain_torch" "ru_model steady_runner = steady_model" "ru_noise steady_runner = (\<lambda>_. [])"
    "ru_python steady_runner = plain_python"
    by (simp_all add: steady_runner_def example_runner_def)
  have cfg: "gc_gen_length overrun_config = 2" "gc_block_length overrun_config = 2" "gc_steps overrun_config = 2"
    "gc_sync_every overrun_config = 1" "sc_mask_id (gc_step_cfg overrun_config) = 1"
    by (simp_all add: overrun_config_def example_step_cfg_def)
  have lv: "lv_x ?lv0 = [0, 1, 1]" "lv_age ?lv0 = [0, 0, 0]" "lv_shared ?lv0 = [(0, 0)]" "lv_frozen ?lv0 = None"
    "lv_sd ?lv0 = StopDetector (gc_stop_cfg overrun_config)" "lv_pending ?lv0 = []" "lv_seq ?lv0 = 0" "lv_steps_done ?lv0 = 0"
    by (simp_all add: start_vars_def cfg numeral_eq_Suc)
  obtain sd f2 sd2 where sd: "check (StopDetector (gc_stop_cfg overrun_config)) [(0, 0), (1, 2)] 1 3 = (Some 1, sd)"
    "check sd [(0, 2), (1, 2)] 1 3 = (f2, sd2)"
    using overrun_checks by (metis prod.collapse)
  have merges: "merge_consensus sorted_list_of_set [(0, 0)] [(''node-a'', [(1, (2, 7 / 10 :: real))])] [] = [(0, 0), (1, 2)]"
    "merge_consensus sorted_list_of_set [(0, 0), (1, 2)] [(''node-a'', [(0, (2, 7 / 10 :: real))])] [] = [(0, 2), (1, 2)]"
    and calm: "detect_disputes [(''node-a'', [(p, (2, 7 / 10 :: real))])] = []" for p
    by (simp_all add: merge_consensus_def detect_disputes_def proposals_by_position_def propose_def dget_default_def)
  obtain st1 where st1: "local_step plain_torch steady_model [] [0, 1, 1] [0, 0, 0] 2 1 3 2 (gc_step_cfg overrun_config) None = Inr st1"
    "sr_x st1 = [0, 2, 1]" "sr_age st1 = [1, 0, 0]" "note_transfers st1 [] = [(1, (2, 7 / 10))]"
    using overrun_first by blast
  obtain sn1 lv1 where 1: "?step 0 ?lv0 boss_node = Some (Inr (Some lv1), sn1)" "solo sn1"
    and lv1: "lv1 = adopt_shared 1 3 (?lv0\<lparr>lv_x := [0, 2, 1], lv_age := [1, 0, 0], lv_steps_done := 1, lv_shared := [(0, 0), (1, 2)],
      lv_frozen := Some 1, lv_sd := sd, lv_seq := 1, lv_pending := []\<rparr>)"
    using solo_step [OF solo_boss refl, of steady_runner ?lv0 2 0 1 3 overrun_config st1 "[(1, (2, 7 / 10))]" "[(0, 0), (1, 2)]" 1 3
      "Some 1" sd "''node-a:abc123''"] st1(1)
    by (auto simp: ru lv st1(2-4) merges calm sd cfg)
  have view: "lv_x lv1 = [0, 2, 1]" "lv_age lv1 = [1, 0, 0]" "lv_shared lv1 = [(0, 0), (1, 2)]" "lv_frozen lv1 = Some 1" "lv_sd lv1 = sd"
    "lv_pending lv1 = []"
    by (simp_all add: lv1 adopt_shared_def)
  obtain st2 where st2: "local_step plain_torch steady_model [] [0, 2, 1] [1, 0, 0] 1 1 3 2 (gc_step_cfg overrun_config) (Some 1) = Inr st2"
    "note_transfers st2 [] = [(0, (2, 7 / 10))]"
    using overrun_second by blast
  obtain sn2 lv2 where 2: "?step 1 lv1 sn1 = Some (Inr (Some lv2), sn2)" "solo sn2" and lv2: "lv_shared lv2 = [(0, 2), (1, 2)]"
    using solo_step [OF 1(2) refl, of steady_runner lv1 2 1 1 3 overrun_config st2 "[(0, (2, 7 / 10))]" "[(0, 2), (1, 2)]" 1 3 f2 sd2
      "''node-a:abc123''"] st2(1)
    by (auto simp: ru view st2(2) merges calm sd cfg adopt_shared_spec(1))
  have "steps_loop ?step [0..<2] ?lv0 boss_node = Some (Inr (Some lv2), sn2)"
    using 1(1) 2(1) by (simp add: upt_rec)
  moreover obtain sn3 where "publish_msg sn2 GEN_DONE (Some [(''round_id'', ?rid)]) = (Inr (), sn3)" using solo_publish [OF 2(2)] by blast
  ultimately show ?thesis
    using 2(2) lv2 boss_facts lv(4)
    by (simp add: run_round_def boss_node_def solo_def cfg Let_def numeral_eq_Suc)
qed

end
