(* ===== verification/Report.thy ===== *)
theory Report imports Generation begin

section \<open>What a generation prints\<close>

text \<open>
  The printing of \<open>node/generation.py\<close>, on while \<open>VERBOSE\<close> is \<open>True\<close>, as it is in the file:
  \<open>debug_topk\<close>, \<open>debug_distribution\<close>, the lines of \<open>run_round\<close> and the report at the end of
  \<open>_do_sync\<close>. A line is a value of \<open>report_line\<close> with the values it shows, before they are formatted;
  blank lines, rulers and \<open>repr\<close> are left out, and lines printed before an exception are not kept. \<open>dec\<close> is the tokenizer's \<open>decode\<close>, which may raise.

  Printing is code that may raise, in the middle of a sync: \<open>topk(k=3)\<close> for a vocabulary of fewer
  than three tokens, \<open>math.exp\<close>, \<open>decode\<close> of a token that came from another node.
  \<open>do_sync_verbose\<close> is \<open>_do_sync\<close> with its printing, and \<open>verbose_sync\<close> proves that
  it has the result and effect of \<open>Generation.do_sync\<close>, as long as the tokenizer does not raise;
  \<open>step_lines_exact\<close> does the same for what a step prints. This is why the theories about
  \<open>Generation\<close> may leave the printing out.
\<close>

type_synonym token_decoder = "int list \<Rightarrow> string result"

datatype report_line =
    RoundStarts string pyval nat nat nat nat "string list"
  | BlockSkipped string nat
  | RoundFailed string pyval
  | BlockProgress string nat nat nat nat
  | TopkHeader string int
  | TopkLine nat "(string \<times> real) list" real real
  | DistributionHeader string nat nat int
  | DistributionLine nat real real "(string \<times> real) list" real
  | BoundaryConfirmed string int
  | SyncHeader string nat nat bool int
  | NodeCommitted string
  | NothingCommitted
  | CommitLine int string real
  | SyncState nat nat nat
  | DisputesResolved
  | DisputeLine int "(string \<times> string \<times> f64 \<times> bool) list" "string option"
  | NoDisputes
  | Frontier nat int "int option"
  | CurrentGeneration string

subsection \<open>What a round prints\<close>

text \<open>At its start, when it skips the blocks past the boundary, and when its leader has gone silent.\<close>

definition round_line :: "string \<Rightarrow> pyval \<Rightarrow> gen_config \<Rightarrow> string list \<Rightarrow> report_line" where
  "round_line self_id rid cfg names =
     (let num_blocks = gc_gen_length cfg div gc_block_length cfg; ps = sorted_set names
      in RoundStarts self_id rid num_blocks (gc_steps cfg div num_blocks) (gc_steps cfg) (length ps) ps)"

definition skipped_lines :: "string \<Rightarrow> nat \<Rightarrow> nat \<Rightarrow> int option \<Rightarrow> report_line list" where
  "skipped_lines self_id block_idx block_start frozen_from =
     (case frozen_from of None \<Rightarrow> []
      | Some f \<Rightarrow> if int block_start \<ge> f then [BlockSkipped self_id block_idx] else [])"

definition failed_lines :: "string \<Rightarrow> pyval \<Rightarrow> round_manager \<Rightarrow> real \<Rightarrow> report_line list" where
  "failed_lines self_id rid rm now =
     (if fst (check_leader_timeout rm None now) then [RoundFailed self_id rid] else [])"

subsection \<open>What a step prints\<close>

definition DEBUG_EVERY :: nat where
  "DEBUG_EVERY = 8"

text \<open>\<open>torch.where(mask_index[0])[0]\<close>, cut to the block.\<close>

definition masked_positions :: "bool list \<Rightarrow> nat \<Rightarrow> nat \<Rightarrow> nat list" where
  "masked_positions mask_index block_start block_end =
     filter (\<lambda>pos. block_start \<le> pos \<and> pos < block_end)
       (filter (\<lambda>pos. mask_index ! pos) [0..<length mask_index])"

text \<open>The best three tokens of a row, decoded one by one, with their probabilities.\<close>

definition top_tokens :: "torch \<Rightarrow> token_decoder \<Rightarrow> real list \<Rightarrow> (string \<times> real) list result" where
  "top_tokens tc dec row =
     (if length row < 3 then Inl RuntimeError
      else mapM (\<lambda>tid. rbind (dec [int tid]) (\<lambda>s. Inr (s, row ! tid))) (topk tc (map Fin row) 3))"

definition debug_topk ::
  "torch \<Rightarrow> token_decoder \<Rightarrow> real list list \<Rightarrow> bool list \<Rightarrow> nat \<Rightarrow> nat \<Rightarrow> int \<Rightarrow> int \<Rightarrow> string
   \<Rightarrow> report_line list result" where
  "debug_topk tc dec p mask_index block_start block_end steps_remaining eos tag =
     (let sample = take 5 (masked_positions mask_index block_start block_end)
      in if sample = [] then Inr []
      else rbind (mapM (\<lambda>pos.
          rbind (col_index p (int pos)) (\<lambda>i.
          rbind (top_tokens tc dec (p ! i)) (\<lambda>top.
          rbind (col_index (p ! i) eos) (\<lambda>e.
          rbind (eos_margin eos (p ! i)) (\<lambda>margin.
            Inr (TopkLine pos top (p ! i ! e) margin)))))) sample) (\<lambda>ls.
        Inr (TopkHeader tag steps_remaining # ls)))"

definition entropy :: "real list \<Rightarrow> real" where
  "entropy row = - sum_list (map (\<lambda>q. q * clamped_log q) row)"

definition debug_distribution ::
  "torch \<Rightarrow> token_decoder \<Rightarrow> real list list \<Rightarrow> bool list \<Rightarrow> nat \<Rightarrow> nat \<Rightarrow> int \<Rightarrow> int \<Rightarrow> string
   \<Rightarrow> report_line list result" where
  "debug_distribution tc dec p mask_index block_start block_end steps_remaining eos tag =
     (let masked_pos = masked_positions mask_index block_start block_end
      in if masked_pos = [] then Inr []
      else if [] \<in> set p then Inl IndexError
      else rbind (mapM (\<lambda>pos.
          rbind (col_index p (int pos)) (\<lambda>i.
          rbind (col_index (p ! i) eos) (\<lambda>e.
          rbind (top_tokens tc dec (p ! i)) (\<lambda>top.
            Inr (DistributionLine pos (Max (set (p ! i))) (entropy (p ! i)) top (p ! i ! e))))))
          (take 10 masked_pos)) (\<lambda>ls.
        Inr (DistributionHeader tag block_start block_end steps_remaining # ls)))"

definition step_lines ::
  "torch \<Rightarrow> token_decoder \<Rightarrow> step_config \<Rightarrow> string \<Rightarrow> nat \<Rightarrow> nat \<Rightarrow> nat \<Rightarrow> int list \<Rightarrow> real list list \<Rightarrow> bool list
   \<Rightarrow> nat \<Rightarrow> nat \<Rightarrow> report_line list result" where
  "step_lines tc dec cfg self_id block_idx step_idx steps_per_block x p mask_index_before block_start block_end =
     (let steps_remaining = int steps_per_block - int step_idx in
      rbind (if step_idx mod DEBUG_EVERY = 0
             then rbind (debug_topk tc dec p mask_index_before block_start block_end steps_remaining (sc_eos_id cfg) self_id)
                    (\<lambda>ls. rbind (debug_distribution tc dec p mask_index_before block_start block_end steps_remaining
                            (sc_eos_id cfg) self_id) (\<lambda>ls'. Inr (ls @ ls')))
             else Inr []) (\<lambda>ls.
      Inr (ls @ (if (step_idx + 1) mod DEBUG_EVERY = 0
                 then [BlockProgress self_id block_idx (step_idx + 1) steps_per_block
                        (length (filter (\<lambda>t. t = sc_mask_id cfg) (drop block_start (take block_end x))))]
                 else []))))"

subsection \<open>What a sync prints\<close>

definition commit_lines ::
  "token_decoder \<Rightarrow> string \<Rightarrow> commit \<Rightarrow> report_line list result" where
  "commit_lines dec node_id node_commits =
     rbind (mapM (\<lambda>pos. case dget_default node_commits pos (0, 0) of (tok, conf) \<Rightarrow>
         rbind (dec [tok]) (\<lambda>decoded. Inr (CommitLine pos decoded conf))) (sort (keys node_commits))) (\<lambda>ls.
       Inr (NodeCommitted node_id # (if node_commits = [] then [NothingCommitted] else []) @ ls))"

definition dispute_line ::
  "(real \<Rightarrow> f64 option) \<Rightarrow> token_decoder \<Rightarrow> (int, int) dict \<Rightarrow> (string, position_scores) dict \<Rightarrow> int \<Rightarrow> report_line result" where
  "dispute_line mexp dec resolved all_scores pos =
     (let winner_tok = map_of resolved pos in
      rbind (mapM (\<lambda>node_id.
          mapM (\<lambda>(tok, logprob).
            rbind (dec [tok]) (\<lambda>decoded.
            case mexp logprob of None \<Rightarrow> Inl OverflowError
            | Some e \<Rightarrow> Inr (node_id, decoded, e, winner_tok = Some tok)))
            (sort_key fst (dget_default (dget_default all_scores node_id []) pos [])))
          (sort (keys all_scores))) (\<lambda>parts.
      rbind (case winner_tok of None \<Rightarrow> Inr None | Some t \<Rightarrow> rbind (dec [t]) (\<lambda>s. Inr (Some s))) (\<lambda>winner.
        Inr (DisputeLine pos (concat parts) winner))))"

definition sync_lines ::
  "(real \<Rightarrow> f64 option) \<Rightarrow> token_decoder \<Rightarrow> string \<Rightarrow> nat \<Rightarrow> nat \<Rightarrow> bool \<Rightarrow> int \<Rightarrow> int \<Rightarrow> (string, commit) dict \<Rightarrow> (int, int set) dict
   \<Rightarrow> (string, position_scores) dict \<Rightarrow> (int, int) dict \<Rightarrow> (int, int) dict \<Rightarrow> int \<Rightarrow> int \<Rightarrow> int option \<Rightarrow> int option
   \<Rightarrow> report_line list result" where
  "sync_lines mexp dec self_id block_idx step_idx is_last_step sync_seq msk all_commits disputes all_scores resolved
       shared_x gen_start gen_end frozen_from new_frozen_from =
     rbind (mapM (\<lambda>node_id. commit_lines dec node_id (dget_default all_commits node_id [])) (sort (keys all_commits)))
       (\<lambda>commits.
     rbind (mapM (dispute_line mexp dec resolved all_scores) (sort (keys disputes))) (\<lambda>ds.
     rbind (dec (map (\<lambda>p. dget_default shared_x p msk) [gen_start..gen_end - 1])) (\<lambda>preview.
     Inr ((if new_frozen_from \<noteq> None \<and> new_frozen_from \<noteq> frozen_from
           then [BoundaryConfirmed self_id (the new_frozen_from - gen_start)] else []) @
          SyncHeader self_id block_idx (step_idx + 1) is_last_step sync_seq #
          concat commits @
          SyncState (length all_commits) (sum_list (map (\<lambda>(node_id, c). length c) all_commits)) (length disputes) #
          (if disputes = [] then [NoDisputes] else DisputesResolved # ds) @
          [Frontier (length (filter (\<lambda>p. map_of shared_x p \<noteq> None) [gen_start..gen_end - 1])) (gen_end - gen_start)
             (map_option (\<lambda>f. f - gen_start) frozen_from),
           CurrentGeneration preview]))))"

text \<open>\<open>_do_sync\<close> as \<open>Generation.do_sync\<close> has it, with the values the report shows kept.\<close>

definition settle_verbose ::
  "python \<Rightarrow> pyval \<Rightarrow> int \<Rightarrow> string set \<Rightarrow> real list list \<Rightarrow> (int, int set) dict \<Rightarrow> swarm_node
   \<Rightarrow> (((string, position_scores) dict \<times> (int, int) dict) result \<times> swarm_node) option" where
  "settle_verbose py rid sync_seq other_participants my_p disputes sn =
     tbind (Some (own_scores (py_set_iter py) my_p disputes, sn)) (\<lambda>my_scores sn.
     tbind (exchange DISPUTE_SCORE (score_payload rid sync_seq my_scores) rid sync_seq other_participants sn)
       (\<lambda>others_scores_raw sn.
     Some (rbind (with_others parse_scores (sn_id sn) my_scores others_scores_raw) (\<lambda>all_scores.
             rbind (resolve_disputes (py_exp py) all_scores) (\<lambda>resolved. Inr (all_scores, resolved))), sn)))"

definition do_sync_verbose ::
  "token_decoder \<Rightarrow> nat \<Rightarrow> nat \<Rightarrow> bool \<Rightarrow> int \<Rightarrow> int option
   \<Rightarrow> python \<Rightarrow> pyval \<Rightarrow> int \<Rightarrow> string set \<Rightarrow> commit \<Rightarrow> real list list \<Rightarrow> (int, int) dict
   \<Rightarrow> int \<Rightarrow> int \<Rightarrow> stop_detector \<Rightarrow> swarm_node
   \<Rightarrow> ((((int, int) dict \<times> int option \<times> stop_detector) \<times> report_line list) result \<times> swarm_node) option" where
  "do_sync_verbose dec block_idx step_idx is_last_step msk frozen_from
       py rid sync_seq other_participants my_commits my_p shared_x gen_start gen_end sd sn =
     tbind (exchange COMMIT (commit_payload rid sync_seq my_commits) rid sync_seq other_participants sn)
       (\<lambda>others_raw sn.
     tbind (Some (with_others parse_commit (sn_id sn) my_commits others_raw, sn)) (\<lambda>all_commits sn.
     let disputes = detect_disputes all_commits in
     tbind (if disputes = [] then Some (Inr ([], []), sn)
            else settle_verbose py rid sync_seq other_participants my_p disputes sn) (\<lambda>(all_scores, resolved) sn.
     let shared_x = merge_consensus (py_set_iter py) shared_x all_commits resolved;
         (new_frozen_from, sd) = check sd shared_x gen_start gen_end
     in Some (rbind (sync_lines (py_exp py) dec (sn_id sn) block_idx step_idx is_last_step sync_seq msk all_commits disputes
                 all_scores resolved shared_x gen_start gen_end frozen_from new_frozen_from)
                (\<lambda>ls. Inr ((shared_x, new_frozen_from, sd), ls)), sn))))"

subsection \<open>Printing that cannot raise\<close>

definition decodes_all :: "token_decoder \<Rightarrow> bool" where
  "decodes_all dec \<longleftrightarrow> (\<forall>ids. \<exists>s. dec ids = Inr s)"

lemma mapM_total: "(\<And>x. x \<in> set xs \<Longrightarrow> \<exists>y. f x = Inr y) \<Longrightarrow> \<exists>ys. mapM f xs = Inr ys"
proof (induction xs)
  case (Cons x xs)
  obtain y where "f x = Inr y" using Cons.prems [of x] by auto
  moreover obtain ys where "mapM f xs = Inr ys" using Cons.IH Cons.prems by force
  ultimately show ?case by simp
qed simp

lemma commit_lines_total:
  assumes "decodes_all dec"
  shows "\<exists>ls. commit_lines dec n c = Inr ls"
proof -
  have "\<exists>ls. mapM (\<lambda>pos. case dget_default c pos (0, 0) of (tok, conf) \<Rightarrow>
      rbind (dec [tok]) (\<lambda>decoded. Inr (CommitLine pos decoded conf))) (sort (keys c)) = Inr ls"
    using assms by (intro mapM_total) (auto simp: decodes_all_def rbind_eq_Inr split: prod.splits)
  then show ?thesis by (auto simp: commit_lines_def rbind_eq_Inr)
qed

lemma dget_default_in: "x \<in> set (dget_default d k []) \<Longrightarrow> (k, dget_default d k []) \<in> set d"
  by (auto simp: dget_default_def dest: map_of_SomeD split: option.splits)

lemma dispute_line_total:
  assumes "decodes_all dec" and "no_overflow mexp all_scores"
  shows "\<exists>l. dispute_line mexp dec resolved all_scores pos = Inr l"
proof -
  have "mexp logprob \<noteq> None"
    if x: "(tok, logprob) \<in> set (dget_default (dget_default all_scores n []) pos [])" for n tok logprob
  proof -
    note pos = dget_default_in [OF x]
    note n = dget_default_in [OF pos]
    show ?thesis using assms(2) n pos x unfolding no_overflow_def by blast
  qed
  then have "\<exists>ps. mapM (\<lambda>(tok, logprob). rbind (dec [tok]) (\<lambda>decoded.
            case mexp logprob of None \<Rightarrow> Inl OverflowError
            | Some e \<Rightarrow> Inr (n, decoded, e, map_of resolved pos = Some tok)))
            (sort_key fst (dget_default (dget_default all_scores n []) pos [])) = Inr ps" for n
    using assms(1) by (intro mapM_total) (fastforce simp: decodes_all_def rbind_eq_Inr split: option.splits)
  then have "\<exists>parts. mapM (\<lambda>n. mapM (\<lambda>(tok, logprob). rbind (dec [tok]) (\<lambda>decoded.
            case mexp logprob of None \<Rightarrow> Inl OverflowError
            | Some e \<Rightarrow> Inr (n, decoded, e, map_of resolved pos = Some tok)))
            (sort_key fst (dget_default (dget_default all_scores n []) pos []))) (sort (keys all_scores)) = Inr parts"
    by (rule mapM_total)
  moreover have "\<exists>w. (case map_of resolved pos of None \<Rightarrow> Inr None | Some t \<Rightarrow> rbind (dec [t]) (\<lambda>s. Inr (Some s))) = Inr w"
    using assms(1) by (auto simp: decodes_all_def rbind_eq_Inr split: option.splits)
  ultimately show ?thesis by (auto simp: dispute_line_def Let_def rbind_eq_Inr)
qed

lemma sync_lines_total:
  assumes "decodes_all dec" and "no_overflow mexp all_scores"
  shows "\<exists>ls. sync_lines mexp dec self_id b i is_last q msk all_commits disputes all_scores resolved x gs ge f f' = Inr ls"
proof -
  obtain cs where "mapM (\<lambda>n. commit_lines dec n (dget_default all_commits n [])) (sort (keys all_commits)) = Inr cs"
    using mapM_total [of "sort (keys all_commits)" "\<lambda>n. commit_lines dec n (dget_default all_commits n [])"]
      commit_lines_total [OF assms(1)] by blast
  moreover obtain ds where "mapM (dispute_line mexp dec resolved all_scores) (sort (keys disputes)) = Inr ds"
    using mapM_total [of "sort (keys disputes)" "dispute_line mexp dec resolved all_scores"] dispute_line_total [OF assms] by blast
  moreover obtain s where "dec (map (\<lambda>p. dget_default x p msk) [gs..ge - 1]) = Inr s"
    using assms(1) unfolding decodes_all_def by blast
  ultimately show ?thesis unfolding sync_lines_def by simp
qed

subsection \<open>The verbose sync and the sync\<close>

abbreviation map_outcome :: "('a \<Rightarrow> 'b) \<Rightarrow> ('a result \<times> 's) option \<Rightarrow> ('b result \<times> 's) option" where
  "map_outcome h \<equiv> map_option (map_prod (map_sum id h) id)"

lemma map_outcome_bind:
  "(\<And>x s. m = Some (Inr x, s) \<Longrightarrow> map_outcome h (f x s) = g x s) \<Longrightarrow> map_outcome h (tbind m f) = tbind m g"
  by (auto simp: tbind_def split: option.splits sum.splits)

lemma bind_map_outcome: "tbind (map_outcome h m) g = tbind m (\<lambda>x. g (h x))"
  by (auto simp: tbind_def split: option.splits sum.splits)

lemma settle_verbose_result:
  "settle_disputes py rid q others p ds sn = map_outcome snd (settle_verbose py rid q others p ds sn)"
  unfolding settle_disputes_def settle_verbose_def
  by (rule sym, rule map_outcome_bind, rule map_outcome_bind) (simp add: rbind_def split: sum.splits)

lemma settle_verbose_scores:
  "settle_verbose py rid q others p ds sn = Some (Inr (all_scores, resolved), s) \<Longrightarrow>
   resolve_disputes (py_exp py) all_scores = Inr resolved"
  by (auto simp: settle_verbose_def tbind_Inr rbind_eq_Inr)

subsection \<open>What the step report shows\<close>

lemma mapM_Inl_hd: "xs \<noteq> [] \<Longrightarrow> f (hd xs) = Inl e \<Longrightarrow> mapM f xs = Inl e"
  by (cases xs) auto

lemma top_tokens_ok:
  assumes "torch_ok tc" and "decodes_all dec" and "3 \<le> length row"
  shows "\<exists>top. top_tokens tc dec row = Inr top \<and> length top = 3 \<and> Max (set row) \<in> snd ` set top"
proof -
  let ?idx = "topk tc (map Fin row) 3"
  have spec: "topk_spec (map Fin row) 3 ?idx" using assms(1,3) by (simp add: torch_ok_def)
  have "\<exists>y. rbind (dec [int t]) (\<lambda>s. Inr (s, row ! t)) = Inr y" for t
    using assms(2) by (auto simp: decodes_all_def rbind_eq_Inr)
  then obtain top where top: "mapM (\<lambda>t. rbind (dec [int t]) (\<lambda>s. Inr (s, row ! t))) ?idx = Inr top"
    using mapM_total [of ?idx "\<lambda>t. rbind (dec [int t]) (\<lambda>s. Inr (s, row ! t))"] by blast
  have "row \<noteq> []" using assms(3) by auto
  then obtain m where m: "m < length row" "row ! m = Max (set row)"
    by (metis List.finite_set Max_in in_set_conv_nth set_empty)
  have "\<exists>t \<in> set ?idx. row ! t = Max (set row)"
  proof (cases "m \<in> set ?idx")
    case False
    have "?idx \<noteq> []" using spec by (auto simp: topk_spec_def)
    then obtain t where t: "t \<in> set ?idx" by (meson hd_in_set)
    from t spec have len: "t < length row" by (auto simp: topk_spec_def)
    have "Fin (row ! m) \<le> map Fin row ! t" using spec t m(1) False unfolding topk_spec_def by auto
    with len have "row ! m \<le> row ! t" by simp
    with len have "row ! t = Max (set row)" using m(2) by (metis List.finite_set Max_ge antisym nth_mem)
    with t show ?thesis by blast
  qed (use m in blast)
  then obtain t where t: "t \<in> set ?idx" "row ! t = Max (set row)" by blast
  obtain s where "dec [int t] = Inr s" using assms(2) unfolding decodes_all_def by blast
  then have "(s, Max (set row)) \<in> set top"
    unfolding mapM_Inr_set [OF top] using t by (intro bexI [of _ t]) simp_all
  moreover have "length top = 3" using mapM_Inr_length [OF top] spec by (simp add: topk_spec_def)
  ultimately show ?thesis using top assms(3) by (force simp: top_tokens_def)
qed

text \<open>A distribution over a vocabulary of \<open>v\<close> tokens for every position, and the place of the end token.\<close>

definition rows_ok :: "real list list \<Rightarrow> bool list \<Rightarrow> int \<Rightarrow> nat \<Rightarrow> bool" where
  "rows_ok p mask_index eos v \<longleftrightarrow>
     (\<forall>row \<in> set p. length row = v) \<and> length mask_index = length p \<and> - int v \<le> eos \<and> eos < int v"

lemma rows_ok_at:
  assumes "rows_ok p mask_index eos v" and "pos \<in> set (masked_positions mask_index bs be)"
  shows "col_index p (int pos) = Inr pos" and "length (p ! pos) = v" and "\<exists>e. col_index (p ! pos) eos = Inr e"
    and "\<exists>r. eos_margin eos (p ! pos) = Inr r"
proof -
  have pos: "pos < length p" using assms by (auto simp: rows_ok_def masked_positions_def)
  then show "col_index p (int pos) = Inr pos" by (simp add: col_index_def)
  show len: "length (p ! pos) = v" using pos assms(1) by (simp add: rows_ok_def)
  show e: "\<exists>e. col_index (p ! pos) eos = Inr e" using assms(1) len by (simp add: col_index_def rows_ok_def)
  then show "\<exists>r. eos_margin eos (p ! pos) = Inr r" by (auto simp: eos_margin_def rbind_eq_Inr Let_def)
qed

lemma debug_topk_ok:
  assumes "torch_ok tc" and "decodes_all dec" and "rows_ok p mask_index eos v" and "3 \<le> v"
  shows "\<exists>ls. debug_topk tc dec p mask_index bs be sr eos tag = Inr ls \<and>
    {pos. \<exists>top e r. TopkLine pos top e r \<in> set ls} = set (take 5 (masked_positions mask_index bs be)) \<and>
    (\<forall>pos top e r. TopkLine pos top e r \<in> set ls \<longrightarrow> length top = 3 \<and> Max (set (p ! pos)) \<in> snd ` set top)"
proof -
  let ?M = "take 5 (masked_positions mask_index bs be)"
  let ?line = "\<lambda>pos. rbind (col_index p (int pos)) (\<lambda>i.
          rbind (top_tokens tc dec (p ! i)) (\<lambda>top.
          rbind (col_index (p ! i) eos) (\<lambda>e.
          rbind (eos_margin eos (p ! i)) (\<lambda>margin.
            Inr (TopkLine pos top (p ! i ! e) margin)))))"
  have line: "\<exists>top e r. ?line pos = Inr (TopkLine pos top e r) \<and> length top = 3 \<and> Max (set (p ! pos)) \<in> snd ` set top"
    if "pos \<in> set ?M" for pos
  proof -
    note at = rows_ok_at [OF assms(3) in_set_takeD [OF that]]
    obtain top where "top_tokens tc dec (p ! pos) = Inr top" "length top = 3" "Max (set (p ! pos)) \<in> snd ` set top"
      using top_tokens_ok [OF assms(1,2)] at(2) assms(4) by metis
    with at show ?thesis by force
  qed
  then obtain ls where ls: "mapM ?line ?M = Inr ls" using mapM_total [of ?M ?line] by blast
  have shown: "TopkLine pos top e r \<in> set ls \<longleftrightarrow> pos \<in> set ?M \<and> ?line pos = Inr (TopkLine pos top e r)" for pos top e r
    unfolding mapM_Inr_set [OF ls] using line by fastforce
  show ?thesis
  proof (cases "?M = []")
    case False
    then have "debug_topk tc dec p mask_index bs be sr eos tag = Inr (TopkHeader tag sr # ls)"
      using ls by (simp add: debug_topk_def Let_def)
    then show ?thesis using line shown by (intro exI [of _ "TopkHeader tag sr # ls"]) fastforce
  qed (simp add: debug_topk_def)
qed

lemma debug_topk_narrow:
  assumes "rows_ok p mask_index eos v" and "v < 3" and "masked_positions mask_index bs be \<noteq> []"
  shows "debug_topk tc dec p mask_index bs be sr eos tag = Inl RuntimeError"
proof -
  let ?M = "take 5 (masked_positions mask_index bs be)"
  have ne: "?M \<noteq> []" using assms(3) by simp
  then have "hd ?M \<in> set (masked_positions mask_index bs be)" by (meson hd_in_set in_set_takeD)
  note at = rows_ok_at [OF assms(1) this]
  let ?line = "\<lambda>pos. rbind (col_index p (int pos)) (\<lambda>i.
          rbind (top_tokens tc dec (p ! i)) (\<lambda>top.
          rbind (col_index (p ! i) eos) (\<lambda>e.
          rbind (eos_margin eos (p ! i)) (\<lambda>margin.
            Inr (TopkLine pos top (p ! i ! e) margin)))))"
  have "?line (hd ?M) = Inl RuntimeError"
    unfolding at(1) rbind_simps by (simp add: top_tokens_def at(2) assms(2) del: hd_take)
  then have "mapM ?line ?M = Inl RuntimeError" by (rule mapM_Inl_hd [OF ne])
  then show ?thesis using ne by (simp add: debug_topk_def Let_def)
qed

lemma debug_distribution_ok:
  assumes "torch_ok tc" and "decodes_all dec" and "rows_ok p mask_index eos v" and "3 \<le> v"
  shows "\<exists>ls. debug_distribution tc dec p mask_index bs be sr eos tag = Inr ls \<and>
    (\<forall>pos top e r. TopkLine pos top e r \<notin> set ls)"
proof -
  let ?M = "take 10 (masked_positions mask_index bs be)"
  let ?line = "\<lambda>pos. rbind (col_index p (int pos)) (\<lambda>i.
          rbind (col_index (p ! i) eos) (\<lambda>e.
          rbind (top_tokens tc dec (p ! i)) (\<lambda>top.
            Inr (DistributionLine pos (Max (set (p ! i))) (entropy (p ! i)) top (p ! i ! e)))))"
  have line: "\<exists>a b top e. ?line pos = Inr (DistributionLine pos a b top e)" if "pos \<in> set ?M" for pos
  proof -
    note at = rows_ok_at [OF assms(3) in_set_takeD [OF that]]
    obtain top where "top_tokens tc dec (p ! pos) = Inr top"
      using top_tokens_ok [OF assms(1,2)] at(2) assms(4) by metis
    with at show ?thesis by force
  qed
  then obtain ls where ls: "mapM ?line ?M = Inr ls" using mapM_total [of ?M ?line] by blast
  have "TopkLine pos top e r \<notin> set ls" for pos top e r
    unfolding mapM_Inr_set [OF ls] using line by fastforce
  moreover have "[] \<notin> set p" using assms(3,4) by (auto simp: rows_ok_def)
  ultimately show ?thesis using ls by (auto simp: debug_distribution_def Let_def)
qed

subsection \<open>Properties\<close>

text \<open>Printing does not disturb a sync. If the tokenizer decodes whatever it is given, the sync of the
  program, with its report, has for every input the same result, exception, state of the node and
  non-termination as the sync without it: no other call in the report can raise.\<close>

lemma verbose_sync:
  assumes "decodes_all dec"
  shows "map_outcome fst (do_sync_verbose dec b i is_last msk frozen_from py rid q others c p x gs ge sd sn) =
    do_sync py rid q others c p x gs ge sd sn"
proof -
  have printed: "map_sum id fst (rbind (sync_lines (py_exp py) dec self b i is_last q msk all_commits ds all_scores resolved xx gs ge
      frozen_from nf) (\<lambda>ls. Inr (r, ls))) = Inr r"
    if ovf: "no_overflow (py_exp py) all_scores"
    for self all_commits ds all_scores resolved xx nf and r :: "(int, int) dict \<times> int option \<times> stop_detector"
  proof -
    obtain ls where "sync_lines (py_exp py) dec self b i is_last q msk all_commits ds all_scores resolved xx gs ge frozen_from nf = Inr ls"
      using sync_lines_total [OF assms ovf] by blast
    then show ?thesis by simp
  qed
  have settled: "(if ds = [] then Some (Inr [], s) else settle_disputes py rid q others p ds s) =
      map_outcome snd (if ds = [] then Some (Inr ([], []), s) else settle_verbose py rid q others p ds s)" for ds s
    by (simp add: settle_verbose_result)
  have ok: "no_overflow (py_exp py) (fst r)"
    if "(if ds = [] then Some (Inr ([], []), s) else settle_verbose py rid q others p ds s) = Some (Inr r, s')" for ds s r s'
  proof (cases "ds = []")
    case True
    then show ?thesis using that by (auto simp: no_overflow_def)
  next
    case False
    then have "settle_verbose py rid q others p ds s = Some (Inr (fst r, snd r), s')" using that by simp
    from resolve_InrD(1) [OF settle_verbose_scores [OF this]] show ?thesis .
  qed
  show ?thesis
    unfolding do_sync_verbose_def do_sync_def Let_def settled bind_map_outcome
    by (intro map_outcome_bind) (auto simp: case_prod_unfold intro!: printed ok)
qed

text \<open>What a step prints, on every branch. In every eighth step of a block that still has masks
  the program raises if the vocabulary has fewer than three tokens. In all other
  cases its printing raises nothing, and the table of top predictions shows exactly the first
  five masked positions of the block, each with three tokens that include a most probable one.\<close>

lemma step_lines_exact:
  assumes "torch_ok tc" and "decodes_all dec" and "rows_ok p mask_index (sc_eos_id cfg) v"
  shows "if step_idx mod 8 = 0 \<and> masked_positions mask_index bs be \<noteq> [] \<and> v < 3
    then step_lines tc dec cfg self block_idx step_idx spb x p mask_index bs be = Inl RuntimeError
    else \<exists>ls. step_lines tc dec cfg self block_idx step_idx spb x p mask_index bs be = Inr ls \<and>
      {pos. \<exists>top e r. TopkLine pos top e r \<in> set ls} =
        (if step_idx mod 8 = 0 then set (take 5 (masked_positions mask_index bs be)) else {}) \<and>
      (\<forall>pos top e r. TopkLine pos top e r \<in> set ls \<longrightarrow> length top = 3 \<and> Max (set (p ! pos)) \<in> snd ` set top)"
proof (cases "step_idx mod 8 = 0")
  case True
  let ?sr = "int spb - int step_idx" and ?eos = "sc_eos_id cfg"
  consider "masked_positions mask_index bs be = []" | "masked_positions mask_index bs be \<noteq> []" "v < 3" | "3 \<le> v"
    by linarith
  then show ?thesis
  proof cases
    case 1
    then show ?thesis using True by (simp add: step_lines_def DEBUG_EVERY_def debug_topk_def debug_distribution_def)
  next
    case 2
    then show ?thesis
      using True debug_topk_narrow [OF assms(3)] by (simp add: step_lines_def DEBUG_EVERY_def)
  next
    case 3
    obtain ls where ls: "debug_topk tc dec p mask_index bs be ?sr ?eos self = Inr ls"
      "{pos. \<exists>top e r. TopkLine pos top e r \<in> set ls} = set (take 5 (masked_positions mask_index bs be))"
      "\<forall>pos top e r. TopkLine pos top e r \<in> set ls \<longrightarrow> length top = 3 \<and> Max (set (p ! pos)) \<in> snd ` set top"
      using debug_topk_ok [OF assms 3] by blast
    obtain ls' where ls': "debug_distribution tc dec p mask_index bs be ?sr ?eos self = Inr ls'"
      "\<forall>pos top e r. TopkLine pos top e r \<notin> set ls'"
      using debug_distribution_ok [OF assms 3] by blast
    show ?thesis using True 3 ls ls' by (simp add: step_lines_def DEBUG_EVERY_def Let_def)
  qed
next
  case False
  then show ?thesis by (simp add: step_lines_def DEBUG_EVERY_def Let_def)
qed

lemma step_lines_example:
  "(\<exists>ls top e r. step_lines plain_torch (\<lambda>_. Inr ''x'') example_step_cfg ''node-a'' 0 0 2 [2, 1] [[1 / 10, 1 / 5, 7 / 10], [1 / 10, 1 / 5, 7 / 10]]
     [False, True] 1 2 = Inr ls \<and> TopkLine 1 top e r \<in> set ls) \<and>
   step_lines plain_torch (\<lambda>_. Inr ''x'') (example_step_cfg\<lparr>sc_eos_id := 0\<rparr>) ''node-a'' 0 0 2 [2, 1] [[1], [1]] [False, True] 1 2 =
     Inl RuntimeError"
proof -
  have M: "masked_positions [False, True] 1 2 = [1]" by (simp add: masked_positions_def upt_rec)
  have dec: "decodes_all (\<lambda>_. Inr ''x'')" by (simp add: decodes_all_def)
  have "rows_ok [[1 / 10, 1 / 5, 7 / 10], [1 / 10, 1 / 5, 7 / 10]] [False, True] (sc_eos_id example_step_cfg) 3"
    by (simp add: rows_ok_def example_step_cfg_def)
  from step_lines_exact [OF plain_torch_ok dec this, of 0 1 2 "''node-a''" 0 2 "[2, 1]"]
  obtain ls where ls: "step_lines plain_torch (\<lambda>_. Inr ''x'') example_step_cfg ''node-a'' 0 0 2 [2, 1]
      [[1 / 10, 1 / 5, 7 / 10], [1 / 10, 1 / 5, 7 / 10]] [False, True] 1 2 = Inr ls" "{pos. \<exists>top e r. TopkLine pos top e r \<in> set ls} = {1}"
    unfolding M by auto
  then have "1 \<in> {pos. \<exists>top e r. TopkLine pos top e r \<in> set ls}" by simp
  then obtain top e r where "TopkLine 1 top e r \<in> set ls" by blast
  moreover have "rows_ok [[1], [1]] [False, True] (sc_eos_id (example_step_cfg\<lparr>sc_eos_id := 0\<rparr>)) 1"
    by (simp add: rows_ok_def)
  from step_lines_exact [OF plain_torch_ok dec this, of 0 1 2 "''node-a''" 0 2 "[2, 1]"]
  have "step_lines plain_torch (\<lambda>_. Inr ''x'') (example_step_cfg\<lparr>sc_eos_id := 0\<rparr>) ''node-a'' 0 0 2 [2, 1] [[1], [1]] [False, True] 1 2 =
     Inl RuntimeError" unfolding M by simp
  ultimately show ?thesis using ls(1) by blast
qed

text \<open>
  The last line of the report is behind. In the very sync whose check confirms a boundary, the
  report says so, and closes with the boundary of before (\<open>not frozen\<close>, the first time): line 292
  of \<open>node/generation.py\<close> looks at the parameter \<open>frozen_from\<close>, not at \<open>new_frozen_from\<close>.
\<close>

lemma frontier_note_stale:
  assumes "sync_lines mexp dec self b i is_last q msk all_commits ds all_scores resolved x gs ge frozen_from (Some f) = Inr ls"
    and "frozen_from \<noteq> Some f"
  shows "BoundaryConfirmed self (f - gs) \<in> set ls \<and>
    (\<exists>n s. [Frontier n (ge - gs) (map_option (\<lambda>f. f - gs) frozen_from), CurrentGeneration s] = drop (length ls - 2) ls)"
proof -
  obtain pre s n where "ls = BoundaryConfirmed self (f - gs) # pre @
      [Frontier n (ge - gs) (map_option (\<lambda>f. f - gs) frozen_from), CurrentGeneration s]"
    using assms by (auto simp: sync_lines_def rbind_eq_Inr)
  then show ?thesis by auto
qed

end
