(* ===== verification/Report_Round.thy ===== *)
theory Report_Round imports Report Completeness begin

section \<open>The whole round, with its printing\<close>

text \<open>
  \<open>run_round\<close> of \<open>node/generation.py\<close> once more, as it is in the file, with \<open>VERBOSE\<close> on: the loops of
  \<open>Generation\<close> with the lines of \<open>Report\<close> printed where the program prints them, so that a
  printing that raises ends the round there. The result carries the lines a returning round has
  printed, in order. \<open>verbose_round_transparent\<close> says when the printing changes nothing else, which is
  why the theories about \<open>Generation\<close> may leave it out.
\<close>

type_synonym printed = "report_line list"

text \<open>\<open>print\<close>, then go on.\<close>

definition say :: "printed \<Rightarrow> (('a \<times> printed) result \<times> 's) option \<Rightarrow> (('a \<times> printed) result \<times> 's) option" where
  "say ls m = tbind m (\<lambda>(r, ls') s. Some (Inr (r, ls @ ls'), s))"

definition gen_step_verbose ::
  "token_decoder \<Rightarrow> runner \<Rightarrow> gen_config \<Rightarrow> pyval \<Rightarrow> string set \<Rightarrow> nat \<Rightarrow> nat \<Rightarrow> nat \<Rightarrow> nat \<Rightarrow> nat \<Rightarrow> nat \<Rightarrow> nat
   \<Rightarrow> loop_vars \<Rightarrow> swarm_node \<Rightarrow> ((loop_vars option \<times> printed) result \<times> swarm_node) option" where
  "gen_step_verbose dec ru cfg rid other_participants gen_start gen_end block_idx block_start block_end steps_per_block
       step_idx lv sn =
     tbind (Some (pump_once sn 10)) (\<lambda>_ sn.
       let (now, sn1) = read_clock sn;
           (failed, rm) = check_leader_timeout (sn_round sn1) None now;
           sn2 = sn1\<lparr>sn_round := rm\<rparr>
       in if failed then Some (Inr (None, failed_lines (sn_id sn) rid (sn_round sn1) now), sn2)
       else
         let steps_remaining = int steps_per_block - int step_idx;
             mask_index_before = map (\<lambda>t. t = sc_mask_id (gc_step_cfg cfg)) (lv_x lv) in
         tbind (Some (local_step (ru_torch ru) (ru_model ru) (ru_noise ru (lv_steps_done lv)) (lv_x lv) (lv_age lv)
                  steps_remaining block_start block_end (int steps_per_block) (gc_step_cfg cfg)
                  (map_option nat (lv_frozen lv)), sn2)) (\<lambda>r sn3.
         let lv1 = lv\<lparr>lv_x := sr_x r, lv_age := sr_age r,
                      lv_pending := note_transfers r (lv_pending lv),
                      lv_steps_done := Suc (lv_steps_done lv)\<rparr>;
             is_last_step = (step_idx = steps_per_block - 1)
         in tbind (Some (step_lines (ru_torch ru) dec (gc_step_cfg cfg) (sn_id sn3) block_idx step_idx steps_per_block
                    (sr_x r) (sr_p r) mask_index_before block_start block_end, sn3)) (\<lambda>ls sn3.
            if gc_sync_every cfg = 0 then Some (Inl ZeroDivisionError, sn3)
            else if (step_idx + 1) mod gc_sync_every cfg = 0 \<or> is_last_step then
              say ls (tbind (do_sync_verbose dec block_idx step_idx is_last_step (sc_mask_id (gc_step_cfg cfg)) (lv_frozen lv1)
                       (ru_python ru) rid (lv_seq lv1) other_participants (lv_pending lv1) (sr_p r)
                       (lv_shared lv1) (int gen_start) (int gen_end) (lv_sd lv1) sn3)
                (\<lambda>((shared_x, frozen_from, sd), ls') sn4.
                  Some (Inr (Some (adopt_shared block_start block_end
                    (lv1\<lparr>lv_shared := shared_x, lv_frozen := frozen_from, lv_sd := sd,
                         lv_seq := lv_seq lv1 + 1, lv_pending := []\<rparr>)), ls'), sn4)))
            else Some (Inr (Some lv1, ls), sn3))))"

fun steps_loop_verbose ::
  "(nat \<Rightarrow> loop_vars \<Rightarrow> swarm_node \<Rightarrow> ((loop_vars option \<times> printed) result \<times> swarm_node) option)
   \<Rightarrow> nat list \<Rightarrow> loop_vars \<Rightarrow> swarm_node \<Rightarrow> ((loop_vars option \<times> printed) result \<times> swarm_node) option" where
  "steps_loop_verbose step [] lv sn = Some (Inr (Some lv, []), sn)"
| "steps_loop_verbose step (i # is) lv sn =
     tbind (step i lv sn) (\<lambda>(r, ls) sn.
       case r of None \<Rightarrow> Some (Inr (None, ls), sn) | Some lv \<Rightarrow> say ls (steps_loop_verbose step is lv sn))"

fun blocks_loop_verbose ::
  "token_decoder \<Rightarrow> runner \<Rightarrow> gen_config \<Rightarrow> pyval \<Rightarrow> string set \<Rightarrow> nat \<Rightarrow> nat \<Rightarrow> nat \<Rightarrow> nat list
   \<Rightarrow> loop_vars \<Rightarrow> swarm_node \<Rightarrow> ((loop_vars option \<times> printed) result \<times> swarm_node) option" where
  "blocks_loop_verbose dec ru cfg rid others gen_start gen_end steps_per_block [] lv sn = Some (Inr (Some lv, []), sn)"
| "blocks_loop_verbose dec ru cfg rid others gen_start gen_end steps_per_block (b # bs) lv sn =
     (let block_start = gen_start + b * gc_block_length cfg;
          block_end = gen_start + (b + 1) * gc_block_length cfg
      in if (case lv_frozen lv of None \<Rightarrow> False | Some f \<Rightarrow> int block_start \<ge> f)
      then Some (Inr (Some lv, skipped_lines (sn_id sn) b block_start (lv_frozen lv)), sn)
      else
        tbind (steps_loop_verbose
            (gen_step_verbose dec ru cfg rid others gen_start gen_end b block_start block_end steps_per_block)
            [0..<steps_per_block]
            (lv\<lparr>lv_age := replicate (length (lv_x lv)) 0, lv_pending := []\<rparr>) sn) (\<lambda>(r, ls) sn.
          case r of None \<Rightarrow> Some (Inr (None, ls), sn)
          | Some lv \<Rightarrow> say ls (blocks_loop_verbose dec ru cfg rid others gen_start gen_end steps_per_block bs lv sn)))"

definition run_round_verbose ::
  "token_decoder \<Rightarrow> runner \<Rightarrow> int list \<Rightarrow> gen_config \<Rightarrow> swarm_node
   \<Rightarrow> (((int, int) dict option \<times> printed) result \<times> swarm_node) option" where
  "run_round_verbose dec ru prompt_ids cfg sn =
     (case active_round (sn_round sn) of
        None \<Rightarrow> Some (Inl AttributeError, sn)
      | Some round_state \<Rightarrow>
          let rid = round_id round_state;
              others = set (participants round_state) - {sn_id sn};
              gen_start = length prompt_ids;
              gen_end = gen_start + gc_gen_length cfg
          in if gc_block_length cfg = 0 then Some (Inl ZeroDivisionError, sn)
          else let num_blocks = gc_gen_length cfg div gc_block_length cfg
          in if num_blocks = 0 then Some (Inl ZeroDivisionError, sn)
          else
            let steps_per_block = gc_steps cfg div num_blocks
            in say [round_line (sn_id sn) rid cfg (participants round_state)]
                (tbind (blocks_loop_verbose dec ru cfg rid others gen_start gen_end steps_per_block [0..<num_blocks]
                  (start_vars prompt_ids cfg) sn)
                 (\<lambda>(r, ls) sn. case r of
                    None \<Rightarrow> Some (Inr (None, ls), sn)
                  | Some lv \<Rightarrow>
                      if is_round_leader (sn_round sn)
                      then tbind (Some (publish_msg sn GEN_DONE (Some [(''round_id'', rid)])))
                             (\<lambda>_ sn. Some (Inr (Some (lv_shared lv), ls), sn))
                      else Some (Inr (Some (lv_shared lv), ls), sn))))"

subsection \<open>The round without its printing\<close>

lemma say_outcome [simp]: "map_outcome fst (say ls m) = map_outcome fst m"
  by (auto simp: say_def tbind_def split: option.splits sum.splits prod.splits)

text \<open>Printing a step raises nothing for a model that gives every position its probabilities.\<close>

definition model_prints :: "runner \<Rightarrow> int \<Rightarrow> nat \<Rightarrow> bool" where
  "model_prints ru eos v \<longleftrightarrow> runner_ok ru \<and> (\<forall>x. \<forall>row \<in> set (ru_model ru x). length row = v) \<and> - int v \<le> eos \<and> eos < int v"

lemma step_rows_ok:
  assumes "local_step (ru_torch ru) (ru_model ru) noise x age sr bs be spb scfg f = Inr r" and "model_prints ru eos v"
  shows "rows_ok (sr_p r) (map (\<lambda>t. t = m) x) eos v"
proof -
  have "sr_p r = map (softmax (ru_torch ru)) (ru_model ru x)"
    using assms(1) by (auto simp: local_step_def Let_def rbind_eq_Inr)
  then show ?thesis using assms(2) by (auto simp: rows_ok_def model_prints_def runner_ok_def torch_ok_def)
qed

lemma step_prints:
  assumes "local_step (ru_torch ru) (ru_model ru) noise x age sr bs be spb scfg f = Inr r"
    and "model_prints ru (sc_eos_id scfg) v" and "3 \<le> v" and "decodes_all dec"
  shows "\<exists>ls. step_lines (ru_torch ru) dec scfg self b i n x' (sr_p r) (map (\<lambda>t. t = m) x) bs be = Inr ls"
proof -
  have ok: "torch_ok (ru_torch ru)" using assms(2) by (simp add: model_prints_def runner_ok_def)
  note rows = step_rows_ok [OF assms(1,2), of m]
  obtain ls where topk: "debug_topk (ru_torch ru) dec (sr_p r) (map (\<lambda>t. t = m) x) bs be (int n - int i) (sc_eos_id scfg) self = Inr ls"
    using debug_topk_ok [OF ok assms(4) rows assms(3)] by blast
  obtain ls' where "debug_distribution (ru_torch ru) dec (sr_p r) (map (\<lambda>t. t = m) x) bs be (int n - int i) (sc_eos_id scfg) self = Inr ls'"
    using debug_distribution_ok [OF ok assms(4) rows assms(3)] by blast
  with topk show ?thesis by (simp add: step_lines_def Let_def)
qed

lemma map_outcome_Some [simp]: "map_outcome h (Some (r, s)) = Some (map_sum id h r, s)"
  by simp

lemma gen_step_verbose_result:
  assumes "model_prints ru (sc_eos_id (gc_step_cfg cfg)) v" and "3 \<le> v" and "decodes_all dec"
  shows "map_outcome fst (gen_step_verbose dec ru cfg rid others gs ge b bs be spb i lv sn) =
    gen_step ru cfg rid others gs ge bs be spb i lv sn"
proof -
  have synced: "map_outcome fst (say ls (tbind (do_sync_verbose dec b i l m f py rid q others c p x g g' sd s)
        (\<lambda>((x, f, sd), ls') s. Some (Inr (h x f sd, ls'), s)))) =
      tbind (do_sync py rid q others c p x g g' sd s) (\<lambda>(x, f, sd) s. Some (Inr (h x f sd), s))"
    for ls l m f py q c p x g g' sd s and h :: "(int, int) dict \<Rightarrow> int option \<Rightarrow> stop_detector \<Rightarrow> loop_vars option"
    unfolding say_outcome verbose_sync [OF assms(3), of b i l m f, symmetric] bind_map_outcome
    by (rule map_outcome_bind) (simp add: case_prod_unfold)
  show ?thesis
    unfolding gen_step_verbose_def gen_step_def
  proof (rule map_outcome_bind, goal_cases)
    case (1 env s)
    obtain now s1 where clock: "read_clock s = (now, s1)" by (cases "read_clock s")
    obtain failed rm where chk: "check_leader_timeout (sn_round s1) None now = (failed, rm)"
      by (cases "check_leader_timeout (sn_round s1) None now")
    show ?case
    proof (cases failed)
      case False
      show ?thesis
        unfolding clock chk prod.case Let_def if_not_P [OF False]
      proof (rule map_outcome_bind, goal_cases)
        case (1 r s2)
        then have "local_step (ru_torch ru) (ru_model ru) (ru_noise ru (lv_steps_done lv)) (lv_x lv) (lv_age lv)
            (int spb - int i) bs be (int spb) (gc_step_cfg cfg) (map_option nat (lv_frozen lv)) = Inr r" by simp
        from step_prints [OF this assms] obtain ls where ls: "step_lines (ru_torch ru) dec (gc_step_cfg cfg) (sn_id s2) b i spb (sr_x r) (sr_p r)
            (map (\<lambda>t. t = sc_mask_id (gc_step_cfg cfg)) (lv_x lv)) bs be = Inr ls" by blast
        show ?case
          unfolding ls tbind_simps Let_def if_distrib [of "map_outcome fst"] by (intro if_cong refl synced) simp_all
      qed
    qed (simp add: clock chk)
  qed
qed

lemma map_outcome_InrD: "map_outcome fst m = Some (Inr r, s) \<Longrightarrow> \<exists>ls. m = Some (Inr (r, ls), s)"
proof (cases m)
  case (Some rs)
  assume out: "map_outcome fst m = Some (Inr r, s)"
  obtain r' s' where rs: "rs = (r', s')" by (cases rs)
  with Some out show ?thesis by (cases r') auto
qed simp

lemma printed_bind:
  assumes "map_outcome fst m = m'" and "\<And>r ls s. map_outcome fst (f (r, ls) s) = f' r s"
  shows "map_outcome fst (tbind m f) = tbind m' f'"
  unfolding assms(1) [symmetric] bind_map_outcome by (rule map_outcome_bind) (use assms(2) in \<open>auto simp: split_paired_all\<close>)

lemma steps_loop_verbose_result:
  assumes "\<And>i lv sn. map_outcome fst (stepv i lv sn) = step i lv sn"
  shows "map_outcome fst (steps_loop_verbose stepv is lv sn) = steps_loop step is lv sn"
proof (induction "is" arbitrary: lv sn)
  case (Cons i "is")
  have "map_outcome fst (case r of None \<Rightarrow> Some (Inr (None, ls), s) | Some lv \<Rightarrow> say ls (steps_loop_verbose stepv is lv s)) =
      (case r of None \<Rightarrow> Some (Inr None, s) | Some lv \<Rightarrow> steps_loop step is lv s)" for r ls s
    by (cases r) (simp_all only: option.case say_outcome Cons.IH map_outcome_Some map_sum.simps fst_conv)
  then show ?case unfolding steps_loop_verbose.simps steps_loop.simps by (intro printed_bind [OF assms]) (simp only: prod.case)
qed simp

lemma blocks_loop_verbose_result:
  assumes "model_prints ru (sc_eos_id (gc_step_cfg cfg)) v" and "3 \<le> v" and "decodes_all dec"
  shows "map_outcome fst (blocks_loop_verbose dec ru cfg rid others gs ge spb bs lv sn) = blocks_loop ru cfg rid others gs ge spb bs lv sn"
proof (induction bs arbitrary: lv sn)
  case (Cons b bs)
  have loop: "map_outcome fst (steps_loop_verbose (gen_step_verbose dec ru cfg rid others gs ge b st sp spb) is lv sn) =
      steps_loop (gen_step ru cfg rid others gs ge st sp spb) is lv sn" for st sp "is" lv sn
    by (rule steps_loop_verbose_result) (rule gen_step_verbose_result [OF assms])
  have rest: "map_outcome fst (case r of None \<Rightarrow> Some (Inr (None, ls), s)
        | Some lv \<Rightarrow> say ls (blocks_loop_verbose dec ru cfg rid others gs ge spb bs lv s)) =
      (case r of None \<Rightarrow> Some (Inr None, s) | Some lv \<Rightarrow> blocks_loop ru cfg rid others gs ge spb bs lv s)" for r ls s
    by (cases r) (simp_all only: option.case say_outcome Cons.IH map_outcome_Some map_sum.simps fst_conv)
  show ?case
    unfolding blocks_loop_verbose.simps blocks_loop.simps Let_def if_distrib [of "map_outcome fst"]
    by (intro if_cong refl printed_bind [OF loop]) (simp_all only: prod.case rest map_outcome_Some map_sum.simps fst_conv)
qed simp

lemma run_round_verbose_result:
  assumes "model_prints ru (sc_eos_id (gc_step_cfg cfg)) v" and "3 \<le> v" and "decodes_all dec"
  shows "map_outcome fst (run_round_verbose dec ru prompt_ids cfg sn) = run_round ru prompt_ids cfg sn"
proof (cases "active_round (sn_round sn)")
  case (Some rs)
  have ended: "map_outcome fst (case r of None \<Rightarrow> Some (Inr (None, ls), s) | Some lv \<Rightarrow>
        if is_round_leader (sn_round s)
        then tbind (Some (publish_msg s GEN_DONE (Some [(''round_id'', rid)]))) (\<lambda>_ sn. Some (Inr (Some (lv_shared lv), ls), sn))
        else Some (Inr (Some (lv_shared lv), ls), s)) =
      (case r of None \<Rightarrow> Some (Inr None, s) | Some lv \<Rightarrow>
        if is_round_leader (sn_round s)
        then tbind (Some (publish_msg s GEN_DONE (Some [(''round_id'', rid)]))) (\<lambda>_ sn. Some (Inr (Some (lv_shared lv)), sn))
        else Some (Inr (Some (lv_shared lv)), s))" for r ls s rid
    by (auto simp: tbind_def split: option.splits sum.splits prod.splits)
  show ?thesis
    unfolding run_round_verbose_def run_round_def Some option.case Let_def if_distrib [of "map_outcome fst"] say_outcome
    by (intro if_cong refl printed_bind [OF blocks_loop_verbose_result [OF assms]]) (simp_all only: prod.case ended map_outcome_Some map_sum.simps id_apply)
qed (simp add: run_round_verbose_def run_round_def)

subsection \<open>Property\<close>

text \<open>C33: printing does not disturb a round. If the tokenizer decodes whatever it is given, the vocabulary has at
  least three tokens and contains the end token, and the model gives every position a score for
  every token of it, then \<open>run_round\<close> as it is in the file, with all its reports, has in every case the
  result, exception, state of the node, messages and non-termination of the round without them:
  nothing else that is printed, at any step, sync or end of a round, can raise.\<close>

theorem verbose_round_transparent:
  assumes "model_prints ru (sc_eos_id (gc_step_cfg cfg)) v" and "3 \<le> v" and "decodes_all dec"
  shows "map_outcome fst (run_round_verbose dec ru prompt_ids cfg sn) = run_round ru prompt_ids cfg sn"
  using assms by (rule run_round_verbose_result)

theorem verbose_round_transparent_witness:
  "\<exists>ls sn'. run_round_verbose (\<lambda>_. Inr ''x'') steady_runner [2] one_step_config lone_node =
     Some (Inr (Some [(0, 2), (1, 2), (2, 2)], ls), sn')"
proof -
  have "model_prints steady_runner (sc_eos_id (gc_step_cfg one_step_config)) 3"
    using steady_runner_ok
    by (auto simp: model_prints_def steady_runner_def example_runner_def one_step_config_def example_step_cfg_def)
  from verbose_round_transparent [OF this order_refl, of "\<lambda>_. Inr ''x''" "[2]" lone_node]
  have same: "map_outcome fst (run_round_verbose (\<lambda>_. Inr ''x'') steady_runner [2] one_step_config lone_node) =
      run_round steady_runner [2] one_step_config lone_node"
    by (simp add: decodes_all_def)
  obtain sn' where "run_round steady_runner [2] one_step_config lone_node = Some (Inr (Some [(0, 2), (1, 2), (2, 2)]), sn')"
    using lone_round by blast
  with same show ?thesis using map_outcome_InrD by metis
qed

end
