(* ===== verification/Relay.thy ===== *)
theory Relay imports Transport begin

section \<open>The relay process\<close>

text \<open>
  \<open>main\<close> of \<open>relay/relay.py\<close>: it makes two sockets, binds them, and hands them to \<open>zmq.proxy\<close>, which
  forwards frames until it is interrupted or fails. A socket is a \<open>relay_socket\<close>; \<open>free\<close> says on
  which addresses \<open>bind\<close> succeeds (an address this process has bound already is taken), and
  \<open>proxy_end\<close> how the call of \<open>zmq.proxy\<close> ended. Of \<open>argparse\<close> the model has the three options as
  optional strings, their defaults and \<open>type=int\<close>; \<open>None\<close> is its exit for a malformed number.

  A node reaches a relay through the addresses \<open>Transport\<close> connects its sockets to;
  \<open>relay_serves_nodes\<close> puts the two files together.
\<close>

subsection \<open>The program\<close>

record relay_args =
  pub_port :: int
  sub_port :: int
  bind_addr :: string

definition parse_port :: "string option \<Rightarrow> int \<Rightarrow> int option" where
  "parse_port arg default_port =
     (case arg of None \<Rightarrow> Some default_port
      | Some s \<Rightarrow> (case int_str s of Inl _ \<Rightarrow> None | Inr i \<Rightarrow> Some i))"

definition parse_args :: "string option \<Rightarrow> string option \<Rightarrow> string option \<Rightarrow> relay_args option" where
  "parse_args pub_arg sub_arg bind_arg =
     (case parse_port pub_arg 5555 of None \<Rightarrow> None | Some p \<Rightarrow>
      case parse_port sub_arg 5556 of None \<Rightarrow> None | Some s \<Rightarrow>
        Some \<lparr>pub_port = p, sub_port = s, bind_addr = (case bind_arg of None \<Rightarrow> ''*'' | Some a \<Rightarrow> a)\<rparr>)"

datatype socket_kind = XSUB | XPUB

record relay_socket =
  sk_kind :: socket_kind
  sk_bound :: "string list"
  sk_verbose :: bool
  sk_open :: bool

definition new_socket :: "socket_kind \<Rightarrow> relay_socket" where
  "new_socket k = \<lparr>sk_kind = k, sk_bound = [], sk_verbose = False, sk_open = True\<rparr>"

datatype relay_error = AddressInUse string | ProxyFailed string

datatype proxy_end = Returned | Interrupted | Failed_with string

record relay_process =
  rp_frontend :: "relay_socket option"
  rp_backend :: "relay_socket option"
  rp_context :: bool
  rp_printed_ports :: "int list"

definition bind_socket :: "(string \<Rightarrow> bool) \<Rightarrow> string list \<Rightarrow> string \<Rightarrow> relay_socket \<Rightarrow> relay_error + relay_socket" where
  "bind_socket free taken addr sk =
     (if free addr \<and> addr \<notin> set taken then Inr (sk\<lparr>sk_bound := sk_bound sk @ [addr]\<rparr>) else Inl (AddressInUse addr))"

text \<open>Up to the call of \<open>zmq.proxy\<close>.\<close>

definition relay_setup :: "(string \<Rightarrow> bool) \<Rightarrow> relay_args \<Rightarrow> (relay_error + unit) \<times> relay_process" where
  "relay_setup free args =
     (let frontend_addr = tcp_addr (bind_addr args) (pub_port args);
          backend_addr = tcp_addr (bind_addr args) (sub_port args);
          st = \<lparr>rp_frontend = Some (new_socket XSUB), rp_backend = None, rp_context = True, rp_printed_ports = []\<rparr>
      in case bind_socket free [] frontend_addr (new_socket XSUB) of
           Inl e \<Rightarrow> (Inl e, st)
         | Inr frontend \<Rightarrow>
             let st = st\<lparr>rp_frontend := Some frontend, rp_backend := Some (new_socket XPUB)\<rparr>
             in case bind_socket free (sk_bound frontend) backend_addr (new_socket XPUB) of
                  Inl e \<Rightarrow> (Inl e, st)
                | Inr backend \<Rightarrow>
                    (Inr (), st\<lparr>rp_backend := Some (backend\<lparr>sk_verbose := True\<rparr>),
                                rp_printed_ports := [pub_port args, sub_port args]\<rparr>))"

definition close_socket :: "relay_socket \<Rightarrow> relay_socket" where
  "close_socket sk = sk\<lparr>sk_open := False\<rparr>"

text \<open>The \<open>try\<close> around the proxy.\<close>

definition relay_main :: "(string \<Rightarrow> bool) \<Rightarrow> proxy_end \<Rightarrow> relay_args \<Rightarrow> (relay_error + unit) \<times> relay_process" where
  "relay_main free ended args =
     (case relay_setup free args of
        (Inl e, st) \<Rightarrow> (Inl e, st)
      | (Inr _, st) \<Rightarrow>
          ((case ended of Returned \<Rightarrow> Inr () | Interrupted \<Rightarrow> Inr () | Failed_with e \<Rightarrow> Inl (ProxyFailed e)),
           st\<lparr>rp_frontend := map_option close_socket (rp_frontend st),
              rp_backend := map_option close_socket (rp_backend st), rp_context := False\<rparr>))"

subsection \<open>Ports\<close>

text \<open>The port of an address is what follows its last colon; a socket bound on all interfaces takes
  connections to its port, whatever name of the host they use.\<close>

definition addr_port :: "string \<Rightarrow> string" where
  "addr_port addr = rev (takeWhile (\<lambda>c. c \<noteq> CHR '':'') (rev addr))"

definition reaches :: "string \<Rightarrow> relay_socket \<Rightarrow> bool" where
  "reaches addr sk \<longleftrightarrow> sk_open sk \<and> addr_port addr \<in> addr_port ` set (sk_bound sk)"

lemma str_int_colon: "CHR '':'' \<notin> set (str_int i)"
proof -
  have "\<not> is_digit (CHR '':'')" by (simp add: is_digit_def char_code_def)
  then have "CHR '':'' \<notin> set (str_nat n)" for n using str_nat_digits by blast
  then show ?thesis by (simp add: str_int_def)
qed

lemma addr_port_tcp: "addr_port (tcp_addr host port) = str_int port"
proof -
  have "takeWhile (\<lambda>c. c \<noteq> CHR '':'') (rev (str_int port) @ CHR '':'' # rest) = rev (str_int port)" for rest
    using str_int_colon [of port] by (subst takeWhile_append2) auto
  then show ?thesis by (simp add: addr_port_def tcp_addr_def)
qed

lemma str_int_inj: "str_int i = str_int j \<longleftrightarrow> i = j"
  by (metis int_str_str_int sum.inject(2))

lemma tcp_addr_inj: "tcp_addr h i = tcp_addr h j \<longleftrightarrow> i = j"
  by (simp add: tcp_addr_def str_int_inj)

lemma relay_setup_ok:
  assumes "free (tcp_addr (bind_addr a) (pub_port a))" and "free (tcp_addr (bind_addr a) (sub_port a))"
    and "pub_port a \<noteq> sub_port a"
  shows "relay_setup free a = (Inr (), \<lparr>rp_frontend = Some ((new_socket XSUB)\<lparr>sk_bound := [tcp_addr (bind_addr a) (pub_port a)]\<rparr>),
    rp_backend = Some ((new_socket XPUB)\<lparr>sk_bound := [tcp_addr (bind_addr a) (sub_port a)], sk_verbose := True\<rparr>),
    rp_context = True, rp_printed_ports = [pub_port a, sub_port a]\<rparr>)"
  using assms by (simp add: relay_setup_def bind_socket_def new_socket_def tcp_addr_inj Let_def)

subsection \<open>Property\<close>

text \<open>C37: the relay and the nodes fit together. Let a node's relay list name a relay that runs with the
  same two ports, on all interfaces, and can bind them. Then the
  relay comes up; the node's publishing socket reaches its \<open>XSUB\<close> side and only that,
  the subscribing socket its \<open>XPUB\<close> side and only that; every subscription is passed on, late
  ones included; and however forwarding ends, both sockets are closed and the context is ended.\<close>

theorem relay_serves_nodes:
  assumes "Transport relays = Inr tr" and "(host, pub_port a, sub_port a) \<in> set relays" and "pub_port a \<noteq> sub_port a"
    and "bind_addr a = ''*''" and "free (tcp_addr ''*'' (pub_port a))" and "free (tcp_addr ''*'' (sub_port a))"
  shows "\<exists>xsub xpub st. relay_setup free a = (Inr (), st) \<and> rp_frontend st = Some xsub \<and> rp_backend st = Some xpub \<and>
    sk_kind xsub = XSUB \<and> sk_kind xpub = XPUB \<and> sk_verbose xpub \<and>
    (\<exists>addr \<in> set (tr_pub tr). reaches addr xsub \<and> \<not> reaches addr xpub) \<and>
    (\<exists>addr \<in> set (tr_sub tr). reaches addr xpub \<and> \<not> reaches addr xsub) \<and>
    (\<forall>ended. let (r, st') = relay_main free ended a in
       (r = Inr () \<longleftrightarrow> (\<forall>e. ended \<noteq> Failed_with e)) \<and> \<not> rp_context st' \<and>
       rp_frontend st' = Some (close_socket xsub) \<and> rp_backend st' = Some (close_socket xpub))"
proof -
  note come_up = relay_setup_ok [of free a, unfolded assms(4), OF assms(5,6,3)]
  have tr: "tr_pub tr = map (\<lambda>(h, p, s). tcp_addr h p) relays" "tr_sub tr = map (\<lambda>(h, p, s). tcp_addr h s) relays"
    using assms(1) by (auto simp: transport_all_relays split: if_splits)
  have pub: "tcp_addr host (pub_port a) \<in> set (tr_pub tr)" and sub: "tcp_addr host (sub_port a) \<in> set (tr_sub tr)"
    using assms(2) by (force simp: tr)+
  let ?xsub = "(new_socket XSUB)\<lparr>sk_bound := [tcp_addr ''*'' (pub_port a)]\<rparr>"
  let ?xpub = "(new_socket XPUB)\<lparr>sk_bound := [tcp_addr ''*'' (sub_port a)], sk_verbose := True\<rparr>"
  have "reaches (tcp_addr host (pub_port a)) ?xsub \<and> \<not> reaches (tcp_addr host (pub_port a)) ?xpub"
    and "reaches (tcp_addr host (sub_port a)) ?xpub \<and> \<not> reaches (tcp_addr host (sub_port a)) ?xsub"
    using assms(3) by (simp_all add: reaches_def addr_port_tcp str_int_inj new_socket_def)
  with pub sub have "\<exists>addr \<in> set (tr_pub tr). reaches addr ?xsub \<and> \<not> reaches addr ?xpub"
    and "\<exists>addr \<in> set (tr_sub tr). reaches addr ?xpub \<and> \<not> reaches addr ?xsub" by blast+
  moreover have "case relay_main free ended a of (r, st') \<Rightarrow>
       (r = Inr () \<longleftrightarrow> (\<forall>e. ended \<noteq> Failed_with e)) \<and> \<not> rp_context st' \<and>
       rp_frontend st' = Some (close_socket ?xsub) \<and> rp_backend st' = Some (close_socket ?xpub)" for ended
    by (simp add: relay_main_def come_up split: proxy_end.splits)
  moreover have "sk_kind ?xsub = XSUB" "sk_kind ?xpub = XPUB" "sk_verbose ?xpub" by (simp_all add: new_socket_def)
  ultimately show ?thesis
    unfolding Let_def
    by (intro exI [of _ ?xsub] exI [of _ ?xpub] exI [of _ "snd (relay_setup free a)"]) (simp add: come_up)
qed

theorem relay_serves_nodes_witness:
  "\<exists>tr a xsub xpub st. Transport LOCAL_RELAYS = Inr tr \<and> parse_args None None None = Some a \<and>
     relay_setup (\<lambda>_. True) a = (Inr (), st) \<and> rp_frontend st = Some xsub \<and> rp_backend st = Some xpub \<and>
     (\<exists>addr \<in> set (tr_pub tr). reaches addr xsub) \<and> (\<exists>addr \<in> set (tr_sub tr). reaches addr xpub)"
proof -
  obtain tr where tr: "Transport LOCAL_RELAYS = Inr tr" by (simp add: transport_all_relays LOCAL_RELAYS_def)
  let ?a = "\<lparr>pub_port = 5555, sub_port = 5556, bind_addr = ''*''\<rparr>"
  have a: "parse_args None None None = Some ?a" by (simp add: parse_args_def parse_port_def)
  have "(''127.0.0.1'', pub_port ?a, sub_port ?a) \<in> set LOCAL_RELAYS" "pub_port ?a \<noteq> sub_port ?a" "bind_addr ?a = ''*''"
    by (simp_all add: LOCAL_RELAYS_def)
  from relay_serves_nodes [OF tr this, of "\<lambda>_. True"] tr a show ?thesis by blast
qed

end
