(* ===== verification/Unit_Tests.thy ===== *)
theory Unit_Tests imports Swarm Consensus Stop_Detection begin

section \<open>The repository's tests\<close>

text \<open>
  The tests of \<open>tests/\<close> that need no network, on the definitions of this development: a lemma has
  the name and the inputs of the test, and states its assertions. Probabilities are real numbers.
  All of \<open>test_consensus.py\<close> and \<open>test_stop_detection.py\<close> holds, and so does \<open>test_round.py\<close> but for
  \<open>test_leader_timeout_fails_round_not_handover\<close>: it hands \<open>on_gen_start\<close> no time of adoption, so that the
  silence of the leader is counted from the real clock and not from the \<open>ts\<close> of the message, and then asks
  for a timeout at \<open>100 + 999\<close> seconds since 1970 (\<open>timeout_test_fails\<close>; with the time of adoption, as
  \<open>SwarmNode._dispatch\<close> passes it, the assertions hold). For the same reason
  \<open>test_leader_activity_resets_timeout_clock\<close> holds whether or not the activity resets anything.
  The \<open>COMMIT\<close> that \<open>test_swarm_integration.py\<close> sends has no \<open>sync_seq\<close>: \<open>collect_until\<close>, which it also calls
  without that argument, takes no such message for any sync (\<open>commit_without_seq_not_taken\<close>).
\<close>

subsection \<open>test_consensus.py\<close>

lemmas consensus_defs = detect_disputes_def merge_consensus_def proposals_by_position_def propose_def dget_default_def
  resolve_disputes_def tally_def tally_candidates_def key_less_def math_exp_def

lemma test_no_dispute_when_everyone_agrees:
  "let commits = [(''node-a'', [(10, (500, 9 / 10))]), (''node-b'', [(10, (500, 85 / 100))]), (''node-c'', [(10, (500, 95 / 100 :: real))])]
   in detect_disputes commits = [] \<and> merge_consensus sorted_list_of_set [] commits [] = [(10, 500)]"
  by (simp add: consensus_defs)

lemma test_two_way_dispute_weighs_both_voices:
  "detect_disputes [(''node-a'', [(10, (500, 9 / 10))]), (''node-b'', [(10, (600, 7 / 10 :: real))])] = [(10, {500, 600})] \<and>
   resolve_disputes math_exp
     [(''node-a'', [(10, [(500, ln (9 / 10)), (600, ln (5 / 100))])]),
      (''node-b'', [(10, [(500, ln (1 / 10)), (600, ln (7 / 10))])])] = Inr [(10, 500)]"
  by (simp add: consensus_defs insert_commute)

lemma test_bland_compromise_loses_under_weighted_average:
  "resolve_disputes math_exp
     [(''node-a'', [(10, [(100, ln (99 / 100)), (200, ln (3 / 1000)), (300, ln (3 / 10))])]),
      (''node-b'', [(10, [(100, ln (5 / 1000)), (200, ln (98 / 100)), (300, ln (3 / 10))])])] = Inr [(10, 100)]"
  by (simp add: consensus_defs)

lemma test_genuine_n_way_dispute_counts_every_voice:
  "detect_disputes [(''node-a'', [(10, (100, 4 / 10))]), (''node-b'', [(10, (200, 4 / 10))]), (''node-c'', [(10, (100, 4 / 10 :: real))])] =
     [(10, {100, 200})] \<and>
   resolve_disputes math_exp
     [(''node-a'', [(10, [(100, ln (4 / 10)), (200, ln (1 / 100))])]),
      (''node-b'', [(10, [(100, ln (3 / 10)), (200, ln (9 / 10))])]),
      (''node-c'', [(10, [(100, ln (4 / 10)), (200, ln (1 / 100))])])] = Inr [(10, 100)]"
  by (simp add: consensus_defs insert_commute)

lemma test_partial_participation_degrades_gracefully:
  "resolve_disputes math_exp [(''node-a'', [(10, [(100, ln (6 / 10)), (200, ln (3 / 10))])])] = Inr [(10, 100)]"
  by (simp add: consensus_defs)

lemma test_tie_break_is_deterministic:
  "resolve_disputes math_exp [(''node-a'', [(10, [(100, ln (1 / 2)), (50, ln (1 / 2))])])] = Inr [(10, 50)]"
  by (simp add: consensus_defs)

lemma test_merge_consensus_combines_disputed_and_undisputed:
  "let commits = [(''node-a'', [(10, (500, 9 / 10)), (20, (700, 99 / 100))]), (''node-b'', [(10, (600, 7 / 10)), (20, (700, 95 / 100 :: real))])]
   in detect_disputes commits = [(10, {500, 600})] \<and>
     merge_consensus sorted_list_of_set [] commits [(10, 500)] = [(10, 500), (20, 700)]"
  by (simp add: consensus_defs insert_commute)

subsection \<open>test_stop_detection.py\<close>

definition make_cfg :: "int \<Rightarrow> int \<Rightarrow> int \<Rightarrow> stop_config" where
  "make_cfg min_gen run_min confirmations =
     \<lparr>eos_id = 999, mask_id = 0, min_gen_length = min_gen, stop_run_min = run_min, stop_confirmations = confirmations\<rparr>"

definition real_tokens :: "nat \<Rightarrow> (int, int) dict" where
  "real_tokens n = map (\<lambda>i. (32 + int i, 100 + int i)) [0..<n]"

text \<open>\<open>for i in range(n, m): shared_x[GEN_START + i] = EOS\<close>\<close>

definition with_eos :: "nat \<Rightarrow> nat \<Rightarrow> (int, int) dict" where
  "with_eos n m = fold (\<lambda>i. dset (32 + int i) 999) [n..<m] (real_tokens n)"

lemma test_no_trigger_before_min_length:
  "fst (check (StopDetector (make_cfg 20 4 2)) (with_eos 5 9) 32 82) = None"
  by code_simp

lemma test_triggers_after_run_and_confirmations:
  "let (r1, det1) = check (StopDetector (make_cfg 10 4 2)) (with_eos 15 20) 32 82;
       (r2, det2) = check det1 (with_eos 15 20) 32 82
   in r1 = None \<and> r2 = Some 47"
  by code_simp

lemma test_transient_short_run_does_not_falsely_confirm:
  "let (r1, det1) = check (StopDetector (make_cfg 10 4 2)) (with_eos 15 17) 32 82;
       (r2, det2) = check det1 (with_eos 15 17) 32 82
   in r1 = None \<and> r2 = None"
  by code_simp

text \<open>Both detectors of \<open>test_two_participants_converge_on_identical_result\<close> are the same value here; what is
  left of the test is where they stop.\<close>

lemma test_two_participants_converge_on_identical_result:
  "let step = (\<lambda>det. snd (check det (with_eos 15 20) 32 82))
   in stop_pos (step (step (step (StopDetector (make_cfg 10 4 2))))) = Some 47"
  by code_simp

subsection \<open>test_round.py\<close>

definition make_gen_start_env :: "string \<Rightarrow> string \<Rightarrow> string list \<Rightarrow> real \<Rightarrow> envelope" where
  "make_gen_start_env node_id rid ps ts =
     \<lparr>e_type = GEN_START, e_node_id = node_id, e_ts = ts,
      e_payload = [(''round_id'', PStr rid), (''participants'', PList (map PStr ps)),
        (''prompt'', PStr ''test prompt''), (''gen_config'', PDict [(''steps'', PInt 256)])]\<rparr>"

lemma adopt_test_round:
  "on_gen_start (RoundManager n) (make_gen_start_env node_id rid ps ts) adopted_at clock =
     (let now = (case adopted_at of None \<Rightarrow> clock | Some t \<Rightarrow> t)
      in Inr (set_new_round \<lparr>round_id = PStr rid, leader_id = node_id, participants = sort ps, prompt = PStr ''test prompt'',
        gen_config = PDict [(''steps'', PInt 256)], started_at = now, last_leader_seen = now, status = Active\<rparr> (RoundManager n)))"
  by (simp add: on_gen_start_def make_gen_start_env_def sorted_strs_def pay_item_def Let_def active_round_def RoundManager_def)

lemma active_after_new [simp]: "active_round (set_new_round rs (RoundManager n)) = Some rs"
  "rm_self_id (set_new_round rs (RoundManager n)) = n"
  by (simp_all add: active_round_def set_new_round_def RoundManager_def)

lemma test_leader_starts_and_locks_round:
  "let (r, rm) = start_round (RoundManager ''node-a'') [''node-a'', ''node-b'', ''node-c''] (PStr ''p'') (PDict []) hex t1 t2
   in is_round_leader rm \<and> is_participant rm ''node-b'' \<and> \<not> is_participant rm ''node-z'' \<and> status r = Active"
  by (simp add: start_round_def Let_def is_round_leader_def is_participant_def) (simp add: RoundManager_def)

lemma test_follower_adopts_gen_start:
  "\<exists>rm rs. on_gen_start (RoundManager ''node-b'') (make_gen_start_env ''node-a'' ''node-a:abc123'' [''node-a'', ''node-b'', ''node-c''] 100)
       None clock = Inr rm \<and> \<not> is_round_leader rm \<and> active_round rm = Some rs \<and>
     leader_id rs = ''node-a'' \<and> round_id rs = PStr ''node-a:abc123''"
  by (simp add: adopt_test_round is_round_leader_def)

lemma test_dueling_gen_start_first_wins:
  "\<exists>rm rs. on_gen_start (RoundManager ''node-c'') (make_gen_start_env ''node-a'' ''node-a:round1'' [''node-a'', ''node-b'', ''node-c''] 100)
       None clock = Inr rm \<and>
     on_gen_start rm (make_gen_start_env ''node-b'' ''node-b:round2'' [''node-a'', ''node-b'', ''node-c''] (1001 / 10)) None clock2 = Inr rm \<and>
     active_round rm = Some rs \<and> round_id rs = PStr ''node-a:round1'' \<and> leader_id rs = ''node-a''"
  by (simp add: adopt_test_round) (simp add: on_gen_start_def make_gen_start_env_def pay_item_def)

text \<open>\<open>test_leader_timeout_fails_round_not_handover\<close>, as it stands: on a clock past the year 1970
  \<open>check_leader_timeout\<close> answers \<open>False\<close> and the round goes on.\<close>

lemma timeout_test_fails:
  assumes "clock \<ge> 100 + 999"
  shows "\<exists>rm. on_gen_start (RoundManager ''node-b'') (make_gen_start_env ''node-a'' ''node-a:abc123'' [''node-a'', ''node-b''] 100)
       None clock = Inr rm \<and> check_leader_timeout rm (Some (100 + 999)) clock2 = (False, rm) \<and> active_round rm \<noteq> None"
  using assms by (simp add: adopt_test_round check_leader_timeout_def ROUND_LEADER_TIMEOUT_def)

lemma test_leader_timeout_fails_round_not_handover:
  "\<exists>rm rm'. on_gen_start (RoundManager ''node-b'') (make_gen_start_env ''node-a'' ''node-a:abc123'' [''node-a'', ''node-b''] 100)
       (Some 100) clock = Inr rm \<and> active_round rm \<noteq> None \<and>
     check_leader_timeout rm (Some (100 + 999)) clock2 = (True, rm') \<and> active_round rm' = None"
  by (simp add: adopt_test_round check_leader_timeout_def ROUND_LEADER_TIMEOUT_def) (simp add: active_round_def)

lemma test_leader_activity_resets_timeout_clock:
  "\<exists>rm. on_gen_start (RoundManager ''node-b'') (make_gen_start_env ''node-a'' ''node-a:abc123'' [''node-a'', ''node-b''] 100)
       (Some 100) clock = Inr rm \<and> fst (check_leader_timeout rm (Some (100 + 5)) clock2) = False \<and>
     fst (check_leader_timeout (note_leader_activity rm ''node-a'' (100 + 5)) (Some (100 + 5 + 7)) clock3) = False"
  by (simp add: adopt_test_round check_leader_timeout_def ROUND_LEADER_TIMEOUT_def note_leader_activity_def)
    (simp add: mutate_active_def active_round_def set_new_round_def RoundManager_def ROUND_LEADER_TIMEOUT_def)

text \<open>Without the activity the round would have failed; and without a time of adoption, it would not.\<close>

lemma activity_matters:
  "\<exists>rm. on_gen_start (RoundManager ''node-b'') (make_gen_start_env ''node-a'' ''node-a:abc123'' [''node-a'', ''node-b''] 100)
       (Some 100) clock = Inr rm \<and> fst (check_leader_timeout rm (Some (100 + 5 + 7)) clock2) = True"
  by (simp add: adopt_test_round check_leader_timeout_def ROUND_LEADER_TIMEOUT_def)

lemma test_leadership_ignores_rejoin_mid_round:
  "\<exists>rm rs. on_gen_start (RoundManager ''node-c'') (make_gen_start_env ''node-b'' ''node-b:xyz'' [''node-b'', ''node-c''] 100)
       None clock = Inr rm \<and> active_round rm = Some rs \<and> leader_id rs = ''node-b''"
  by (simp add: adopt_test_round)

subsection \<open>test_swarm_integration.py\<close>

lemma commit_without_seq_not_taken:
  assumes "e_type env = COMMIT" and "pay_get (e_payload env) ''sync_seq'' = PNone"
  shows "collect_take (COMMIT, rid, PInt sync_seq) env acc = acc"
  using assms by (simp add: collect_take_def payload_key_def Let_def case_prod_unfold)

end
