(* ===== verification/Spec2Isabelle.thy ===== *)
theory Spec2Isabelle
  imports Prelude Doubles Config PyInt Peers Protocol Transport Rounds Consensus Stop_Detection Float64
    Local_Step Swarm Member_Node Generation Completeness Network Generation_Steps Swarm_Sync
    Own_Reports Punctual Heartbeat Threads Whole_Round Whole_Text Overrun Report Report_Round Relay
    Unit_Tests
begin

text \<open>
  A verification development for ded-swarm, a Python program in which several nodes, each with
  its own masked-diffusion language model, generate one text together. Nodes talk over
  publish/subscribe relays. There is no coordinator: every node computes membership, the
  leader, the outcome of token disputes and the end of the text for itself, from the messages
  it has received, and the point of the design is that they all compute the same.

  \<^bold>\<open>The program's parts and how they interact.\<close> \<open>common/config.py\<close> holds constants,
  \<open>common/protocol.py\<close> the message types and the envelope. \<open>node/transport.py\<close> owns the sockets.
  \<open>node/peers.py\<close> keeps who was heard when and computes the leader from it. \<open>node/round.py\<close> locks
  a leader and a participant list for the duration of one generation round. \<open>node/swarm.py\<close> ties
  these together: it reads one message at a time, updates peers and round, and files the two
  message types of a sync in an inbox; \<open>collect_until\<close> is the barrier that waits for them.
  \<open>node/generation.py\<close> drives a round: in every step it polls, checks that the leader is alive and
  runs \<open>diffusion/local_step.py\<close>; every few steps it syncs: it publishes what it committed,
  collects the others' commits, has \<open>diffusion/consensus.py\<close> find disputes, exchanges scores for
  those, resolves and merges, and asks \<open>diffusion/stop_detection.py\<close> whether the text has ended.
  \<open>node/node.py\<close> is a smaller program with membership and election only. \<open>relay/relay.py\<close> forwards
  frames between the nodes that dial in.

  \<^bold>\<open>Theories.\<close> A theory models one file, definition by definition under the source's names (a
  leading underscore is dropped, and a name that would clash gets a prefix or suffix), or states
  properties of several of them together.
  \<^item> \<open>Prelude\<close>: exceptions as values, dictionaries as association lists in insertion order,
    message values, loops that may raise, and two locales for machines that run over events.
  \<^item> \<open>Doubles\<close>: IEEE 754 doubles, their sum and their product with an integer, where the program rounds.
  \<^item> \<open>Config\<close>: the constants. \<open>PyInt\<close>: Python's \<open>str\<close> of an integer and \<open>int\<close> of a string.
  \<^item> \<open>Peers\<close>: \<open>PeerTable\<close>. Its locale \<open>alive_view\<close> is what an election needs of a view of the
    alive nodes. Liveness is exact, no two nodes that see each other both lead.
  \<^item> \<open>Protocol\<close>, \<open>Transport\<close>: envelope, \<open>encode\<close>, \<open>decode\<close>; sockets, clock and everything else
    outside the program as the record \<open>world\<close>.
  \<^item> \<open>Rounds\<close>: \<open>RoundState\<close> and \<open>RoundManager\<close>, with the round objects in a heap because the code
    shares and mutates them. A \<open>progress_machine\<close>: no call changes what a round is, or touches
    one that is over.
  \<^item> \<open>Consensus\<close>: the three pure functions of a sync. What each computes is stated exactly, on
    every branch; the locale \<open>fair_sum\<close> is what a sum of scores must satisfy for the
    no-veto property. \<open>Float64\<close>: with scores added as doubles, two reports add up the same in both
    orders (\<open>pair_sums\<close>), three need not (\<open>summation_order_splits\<close>).
  \<^item> \<open>Stop_Detection\<close>: \<open>StopDetector\<close>, as a \<open>progress_machine\<close>: the boundary only moves to
    earlier positions, is found if and only if the same run was suggested often enough.
  \<^item> \<open>Local_Step\<close>: the denoising step: which positions it commits and reopens.
  \<^item> \<open>Swarm\<close>: \<open>SwarmNode\<close>. The inbox provides the locale \<open>mailbox\<close>; the node is a
    \<open>progress_machine\<close> over all its calls; \<open>collect_until\<close> is specified exactly and returns.
  \<^item> \<open>Member_Node\<close>: \<open>node/node.py\<close>.
  \<^item> \<open>Generation\<close>: \<open>_do_sync\<close> and \<open>run_round\<close>, composed from the definitions of the other
    theories as the code composes them, with scores added as doubles in the order of the reports: two
    syncs that heard the same leave the same shared state if that order does not change the sums
    (\<open>heard_syncs_agree\<close>), and a round always ends (\<open>round_always_ends\<close>).
  \<^item> \<open>Completeness\<close>: an invariant of the loops of \<open>run_round\<close>, and from it that the text it returns
    has no gap before the stop boundary (\<open>generation_leaves_no_gap\<close>).
  \<^item> \<open>Network\<close>: the abstract view of the whole swarm. \<open>node_step\<close> is an inductive relation with the
    elementary things a node does, \<open>net_step\<close> lets one node of a network take one, reading only frames
    that were sent; \<open>reachable\<close> networks keep an invariant about where everything came from
    (\<open>network_well_formed\<close>), and nodes never disagree about what a round is (\<open>round_agreement\<close>).
  \<^item> \<open>Generation_Steps\<close>: \<open>run_round\<close> refines that view: it is a sequence of \<open>node_step\<close>s.
  \<^item> \<open>Swarm_Sync\<close>: syncs that happen inside a network, at different times at different nodes: what
    waits in an inbox was sent (\<open>inbox_authentic\<close>), and all nodes that heard everybody agree
    (\<open>swarm_converges\<close>), on the condition \<open>settled_sums\<close>: the doubles they add up for a dispute give the
    same sums in every order, which is true of two participants (\<open>settled_pair\<close>).
  \<^item> \<open>Own_Reports\<close>: a node that runs a round says one thing in each sync of it
    (\<open>one_report_per_sync\<close>), which is what \<open>Swarm_Sync\<close> asks of the participants.
  \<^item> \<open>Punctual\<close>: a sync that took less than the timeout of a barrier heard everyone
    (\<open>quick_sync_hears_all\<close>).
  \<^item> \<open>Heartbeat\<close>: the loop of the heartbeat thread, and that a generation is the same after its heartbeats
    as at a later time (\<open>heartbeats_do_not_disturb\<close>). \<open>Threads\<close>: \<open>run_round\<close> once more with heartbeats wherever
    the thread may come in; by a simulation it returns what it would return without them, on a
    clock that leaves some readings out (\<open>heartbeats_interleave\<close>).
  \<^item> \<open>Whole_Round\<close>: all of it put together. The participants of a round, each running \<open>run_round\<close>
    somewhere in a reachable network, return the same text if each of their syncs heard everyone and
    \<open>settled_sums\<close> holds (\<open>swarm_generates_one_text\<close>); for two participants it is enough that none of their
    syncs took too long (\<open>punctual_swarm_generates_one_text\<close>).
  \<^item> \<open>Whole_Text\<close>: what that text is made of. As long as no stop boundary is found, each participant returns the
    prompt, a token at every position of the blocks after it and nothing else, whoever was heard and
    whoever was not (\<open>swarm_completes_prompt\<close>): nodes report positions of their blocks only, and a sync changes
    only what was reported. \<open>Overrun\<close>: a whole round in which a boundary costs the prompt
    (\<open>boundary_overwrites_prompt\<close>).
  \<^item> \<open>Report\<close>, \<open>Report_Round\<close>: what a generation prints, which is code that may raise inside a step or
    a sync: \<open>run_round\<close> once more with its printing, and that this does not disturb the round
    (\<open>verbose_round_transparent\<close>).
  \<^item> \<open>Relay\<close>: \<open>relay/relay.py\<close>, and that its sockets are the ones the nodes dial (\<open>relay_serves_nodes\<close>).
  \<^item> \<open>Unit_Tests\<close>: the tests of \<open>tests/\<close> that need no network, on the definitions of these theories.

  \<^bold>\<open>How code is represented.\<close> An object is a record, a method a definition that takes the record
  and returns it changed; an exception is \<open>Inl\<close> of a \<open>py_error\<close>, next to the state as it was when
  it left the method. Python's integers are \<open>int\<close>, its strings lists of UTF-8 bytes. Its floats are real
  numbers, with the rounding of double precision written out in the two places where the program
  computes with them and the outcome depends on it: the sums of scores that settle a dispute (type
  \<open>f64\<close>), and the products that bound what a step reopens (\<open>float_mul\<close>). Clock readings, probabilities and
  logarithms are taken as they are; differences of clock readings and logarithms are exact. Payload values keep the type msgpack gave them (\<open>pyval\<close>);
  where the program uses one at a type its senders never give it, the model stops with \<open>Untyped\<close>
  instead of following Python's coercions (an integer position sent as \<open>1.0\<close>, say).

  \<^bold>\<open>Parameters and hypotheses.\<close> What is not in the repository is a parameter: msgpack (the record
  \<open>codec\<close>; \<open>codec_ok\<close>: what was packed unpacks to the same), clock and arriving messages (the
  record \<open>world\<close>; \<open>clock_advances\<close>: every instant is passed for good; messages may come in any
  order, any number of times, or not at all), the model, random noise, and PyTorch's \<open>softmax\<close>,
  \<open>argmax\<close> and \<open>topk\<close> (\<open>torch_ok\<close>: their documentation, with ties left open), and of Python the
  record \<open>python\<close>: \<open>math.exp\<close> (\<open>exp_ok\<close>: it returns doubles; \<open>None\<close> where it overflows) and the iteration
  order of sets (\<open>set_order\<close>: each element once). Every
  hypothesis of a theorem about them is shown to be satisfiable by that theorem's witness.

  \<^bold>\<open>Loops.\<close> Loops over finite collections are folds or structural recursion. The scan of
  \<open>StopDetector.check\<close> is a recursive function with a termination measure. \<open>collect_until\<close> and
  \<open>wait_for_round\<close> poll until a deadline of the real clock: they are \<open>partial_function (option)\<close>,
  \<open>None\<close> standing for not returning, with termination proved under \<open>clock_advances\<close>
  (\<open>collect_returns\<close>). No fuel is used anywhere, except that \<open>Member_Node.run\<close>, an endless loop, is told
  after how many iterations the termination signal comes.

  \<^bold>\<open>What the development shows to be otherwise than intended.\<close>
  \<^item> \<open>frozen_block_overflows\<close>: once a stop boundary is confirmed inside a block, the step's count
    of remaining masks includes those past the boundary, which are no candidates, and the step
    may overwrite settled or prompt positions; \<open>boundary_overwrites_prompt\<close> is a round in which it does.
  \<^item> \<open>summation_order_splits\<close>: doubles are added in the order reports came in, which differs from
    node to node, so with three reporters two nodes can settle a dispute differently, and a swarm of three
    can split though everyone heard everyone in time.
  \<^item> \<open>late_copy_restarts_round\<close>, \<open>late_copy_resurrects\<close>: duplicated messages are not harmless when a
    copy comes late. \<open>sender_clock_decides\<close>: \<open>node/node.py\<close> still judges liveness by the sender's clock.
  \<^item> \<open>gen_done_any_sender\<close>: any sender can end a round. \<open>documented_gen_start_raises\<close>: the documented
    payload of \<open>GEN_START\<close> is not the one the code reads. \<open>heartbeat_tolerance\<close>: two lost heartbeats
    are tolerated only if the third is not late at all.
  \<^item> \<open>frontier_note_stale\<close>: the sync that reports a confirmed stop boundary ends its report with the
    boundary of before.
  \<^item> \<open>timeout_test_fails\<close>, \<open>commit_without_seq_not_taken\<close>: two of the tests do not test what they say.

  \<^bold>\<open>Not modelled.\<close> The forwarding of \<open>zmq.proxy\<close>, which is outside the repository: a network may deliver
  any frame that was sent, any number of times and in any order, and no other. The parsing of
  the command lines beyond their options, formatting of printed values, and sleeping. In a
  network, rounds of the heartbeat thread are steps of their own between the calls of the main thread; one in
  the middle of a call is taken to come before it, on a clock without its reading (\<open>Elapse\<close> in \<open>Network\<close>), which
  \<open>Threads\<close> justifies for \<open>run_round\<close>. A sending is one step: that the two threads may use the socket at the
  same instant is not modelled. Nodes of a
  network are all running this program; forged envelopes are not considered. Sockets
  are not used after they are closed. Envelopes have their four fields; other bodies are
  errors of the codec.
\<close>

end
